(* ===== verification/Lab_Prelude.thy ===== *)
theory Lab_Prelude
  imports Main
begin

text \<open>
  The vocabulary shared by all components: C addresses, undefined behaviour as a value,
  array updates by runs of cells, and runs of a transition function with the one invariant
  rule every state machine of the development uses.
\<close>

section \<open>C values\<close>

text \<open>
  An address is an integer, \<open>NULL\<close> is 0 and \<open>MAP_FAILED\<close> is \<open>(void * ) -1\<close>. A C \<open>int\<close> is
  modelled by \<open>int\<close>; where a component's arithmetic could leave the 32-bit range, a lemma
  bounds it. A step of the code that has undefined behaviour (a null pointer read, a write
  past an array) returns \<open>Inl\<close> of its kind.
\<close>

type_synonym addr = int

abbreviation (input) NULL :: addr where "NULL \<equiv> 0"

definition MAP_FAILED :: addr where "MAP_FAILED = -1"

datatype ub = NullDeref | OutOfBounds | IntOverflow

type_synonym 'a outcome = "ub + 'a"

text \<open>Sequencing: what follows runs only when what precedes was defined.\<close>

fun seq :: "'a outcome \<Rightarrow> ('a \<Rightarrow> 'b outcome) \<Rightarrow> 'b outcome" where
  "seq (Inl u) f = Inl u"
| "seq (Inr x) f = f x"

lemma seq_cong [fundef_cong]:
  "m = m' \<Longrightarrow> (\<And>x. m' = Inr x \<Longrightarrow> f x = g x) \<Longrightarrow> seq m f = seq m' g"
  by (cases m') auto

lemma seq_Inr: "seq m f = Inr y \<longleftrightarrow> (\<exists>x. m = Inr x \<and> f x = Inr y)"
  by (cases m) auto

lemma seq_Inl: "seq m f = Inl u \<longleftrightarrow> m = Inl u \<or> (\<exists>x. m = Inr x \<and> f x = Inl u)"
  by (cases m) auto

definition INT_MIN :: int where "INT_MIN = - 2147483648"
definition INT_MAX :: int where "INT_MAX = 2147483647"

definition fits_int :: "int \<Rightarrow> bool" where
  "fits_int v \<longleftrightarrow> INT_MIN \<le> v \<and> v \<le> INT_MAX"

named_theorems run_simps \<open>length and access of arrays updated by runs\<close>

text \<open>Two blocks of memory, each a first address and a length, share no byte.\<close>

definition apart :: "addr \<times> int \<Rightarrow> addr \<times> int \<Rightarrow> bool" where
  "apart b c \<longleftrightarrow> fst b + snd b \<le> fst c \<or> fst c + snd c \<le> fst b"

definition all_apart :: "(addr \<times> int) set \<Rightarrow> bool" where
  "all_apart B \<longleftrightarrow> (\<forall>b\<in>B. \<forall>c\<in>B. b \<noteq> c \<longrightarrow> apart b c)"

lemma apart_sym: "apart b c \<longleftrightarrow> apart c b"
  by (auto simp: apart_def)

lemma all_apart_empty [simp]: "all_apart {}"
  by (simp add: all_apart_def)

lemma all_apart_insert:
  "all_apart B \<Longrightarrow> (\<And>b. b \<in> B \<Longrightarrow> apart c b) \<Longrightarrow> all_apart (insert c B)"
  using apart_sym by (auto simp: all_apart_def)

lemma all_apart_subset: "all_apart B \<Longrightarrow> C \<subseteq> B \<Longrightarrow> all_apart C"
  unfolding all_apart_def by blast

section \<open>Writing a run of array cells\<close>

text \<open>\<open>for (j = 0; j < k; j++) xs[p + j] = v;\<close> with \<open>p\<close> and the number of cells left as state.\<close>

fun set_run :: "'a list \<Rightarrow> nat \<Rightarrow> nat \<Rightarrow> 'a \<Rightarrow> 'a list" where
  "set_run xs p 0 v = xs"
| "set_run xs p (Suc k) v = set_run (xs[p := v]) (Suc p) k v"

lemma length_set_run [simp, run_simps]: "length (set_run xs p k v) = length xs"
  by (induction xs p k v rule: set_run.induct) auto

lemma nth_set_run [run_simps]:
  "j < length xs \<Longrightarrow> set_run xs p k v ! j = (if p \<le> j \<and> j < p + k then v else xs ! j)"
  by (induction xs p k v rule: set_run.induct) (auto simp: nth_list_update)

lemma set_set_run: "set (set_run xs p k v) \<subseteq> insert v (set xs)"
proof (induction xs p k v rule: set_run.induct)
  case (2 xs p k v)
  then show ?case using set_update_subset_insert [of xs p v] by auto
qed auto

lemma set_run_undo:
  assumes "\<And>j. p \<le> j \<Longrightarrow> j < p + k \<Longrightarrow> j < length xs \<Longrightarrow> xs ! j = w"
  shows "set_run (set_run xs p k v) p k w = xs"
  using assms by (auto intro!: nth_equalityI simp: run_simps)

text \<open>A loop that has passed index \<open>i\<close> knows the same of \<open>i\<close> and of all later indices.\<close>

lemma all_from_Suc: "(\<forall>k\<ge>i. P k) \<longleftrightarrow> P i \<and> (\<forall>k\<ge>Suc i. P k)"
  by (metis Suc_leD le_antisym not_less_eq_eq order_refl)

section \<open>Runs of a transition function\<close>

text \<open>
  \<open>step a s\<close> is the state after action \<open>a\<close>, or \<open>None\<close> where \<open>a\<close> is not enabled in \<open>s\<close>.
  \<open>exec step s as\<close> performs the actions of \<open>as\<close> in order.
\<close>

fun exec :: "('a \<Rightarrow> 's \<Rightarrow> 's option) \<Rightarrow> 's \<Rightarrow> 'a list \<Rightarrow> 's option" where
  "exec step s [] = Some s"
| "exec step s (a # as) = (case step a s of None \<Rightarrow> None | Some s' \<Rightarrow> exec step s' as)"

lemma exec_append:
  "exec step s (as @ bs) = (case exec step s as of None \<Rightarrow> None | Some s' \<Rightarrow> exec step s' bs)"
  by (induction as arbitrary: s) (auto split: option.split)

locale step_invariant =
  fixes step :: "'a \<Rightarrow> 's \<Rightarrow> 's option"
    and inv :: "'s \<Rightarrow> bool"
  assumes step_inv: "inv s \<Longrightarrow> step a s = Some s' \<Longrightarrow> inv s'"
begin

lemma exec_inv: "inv s \<Longrightarrow> exec step s as = Some s' \<Longrightarrow> inv s'"
  by (induction as arbitrary: s) (auto split: option.splits dest: step_inv)

end

locale invariant_system = step_invariant +
  fixes init :: 's
  assumes init_inv: "inv init"
begin

lemma run_inv: "exec step init as = Some s \<Longrightarrow> inv s"
  using init_inv by (rule exec_inv)

end

text \<open>A measure that every step decreases bounds the length of the runs.\<close>

locale bounded_runs = step_invariant +
  fixes fuel :: "'s \<Rightarrow> nat"
  assumes step_fuel: "inv s \<Longrightarrow> step a s = Some s' \<Longrightarrow> fuel s' < fuel s"
begin

lemma exec_fuel: "inv s \<Longrightarrow> exec step s as = Some s' \<Longrightarrow> length as + fuel s' \<le> fuel s"
proof (induction as arbitrary: s)
  case (Cons a as)
  then obtain s1 where s1: "step a s = Some s1" "exec step s1 as = Some s'" by (auto split: option.splits)
  show ?case using step_fuel [OF Cons.prems(1) s1(1)] Cons.IH [OF step_inv [OF Cons.prems(1) s1(1)] s1(2)] by simp
qed simp

lemma run_length: "inv s \<Longrightarrow> exec step s as = Some s' \<Longrightarrow> length as \<le> fuel s"
  using exec_fuel by fastforce

end

section \<open>Runs of operations with results, and refinement\<close>

text \<open>
  \<open>run_ops\<close> performs operations that return a result and may have undefined behaviour;
  \<open>run_spec\<close> performs their specifications, which cannot. A component refines its
  specification when every single operation does.
\<close>

fun run_ops :: "('o \<Rightarrow> 's \<Rightarrow> ('s \<times> 'r) outcome) \<Rightarrow> 's \<Rightarrow> 'o list \<Rightarrow> ('s \<times> 'r list) outcome" where
  "run_ops f s [] = Inr (s, [])"
| "run_ops f s (x # xs) =
     (case f x s of
        Inl u \<Rightarrow> Inl u
      | Inr (s', r) \<Rightarrow> (case run_ops f s' xs of Inl u \<Rightarrow> Inl u | Inr (s'', rs) \<Rightarrow> Inr (s'', r # rs)))"

fun run_spec :: "('o \<Rightarrow> 'a \<Rightarrow> 'a \<times> 'r) \<Rightarrow> 'a \<Rightarrow> 'o list \<Rightarrow> 'a \<times> 'r list" where
  "run_spec g a [] = (a, [])"
| "run_spec g a (x # xs) =
     (let (a', r) = g x a; (a'', rs) = run_spec g a' xs in (a'', r # rs))"

lemma run_spec_append:
  "run_spec g a (xs @ ys) = (let (a', rs) = run_spec g a xs; (a'', rs') = run_spec g a' ys in (a'', rs @ rs'))"
  by (induction xs arbitrary: a) (auto simp: case_prod_unfold Let_def)

locale refinement =
  fixes conc :: "'o \<Rightarrow> 's \<Rightarrow> ('s \<times> 'r) outcome"
    and spec :: "'o \<Rightarrow> 'a \<Rightarrow> 'a \<times> 'r"
    and abs_of :: "'s \<Rightarrow> 'a"
    and inv :: "'s \<Rightarrow> bool"
  assumes simulates: "inv s \<Longrightarrow>
      \<exists>s' r. conc x s = Inr (s', r) \<and> inv s' \<and> spec x (abs_of s) = (abs_of s', r)"
begin

lemma run_refines:
  "inv s \<Longrightarrow> \<exists>s' rs. run_ops conc s xs = Inr (s', rs) \<and> inv s' \<and>
     run_spec spec (abs_of s) xs = (abs_of s', rs)"
proof (induction xs arbitrary: s)
  case (Cons x xs)
  from simulates [OF Cons.prems, of x] obtain t r where
    t: "conc x s = Inr (t, r)" "inv t" "spec x (abs_of s) = (abs_of t, r)" by blast
  from Cons.IH [OF t(2)] t show ?case by auto
qed simp

end

end
