(* ===== verification/Chunks.thy ===== *)
theory Chunks
  imports Lab_Prelude
begin

text \<open>
  One page of a chunk allocator: the two parallel arrays \<open>free_chunks\<close> (1 = free, 0 = used)
  and \<open>alloc_sizes\<close> (number of chunks at the first chunk of a block, 0 elsewhere), the search
  loops over them, and the representation invariant that ties them together. \<open>alloc.h\<close> keeps
  one such page of 512 chunks, \<open>ealloc.h\<close> up to four pages of 16 chunks.
\<close>

section \<open>The search loops\<close>

text \<open>The inner loop: are the \<open>k\<close> chunks from \<open>p\<close> on all free? It stops at the first used one.\<close>

fun chunks_free :: "int list \<Rightarrow> nat \<Rightarrow> nat \<Rightarrow> bool" where
  "chunks_free fs p 0 = True"
| "chunks_free fs p (Suc k) = (if fs ! p = 0 then False else chunks_free fs (Suc p) k)"

text \<open>The outer loop: the first \<open>i\<close> with \<open>i \<le> n - r\<close> whose run of \<open>r\<close> chunks is free.\<close>

function find_run :: "int list \<Rightarrow> nat \<Rightarrow> nat \<Rightarrow> nat \<Rightarrow> nat option" where
  "find_run fs n r i =
     (if i + r \<le> n
      then (if chunks_free fs i r then Some i else find_run fs n r (Suc i))
      else None)"
  by pat_completeness auto
termination
  by (relation "measure (\<lambda>(fs, n, r, i). Suc n - i)") auto

declare find_run.simps [simp del]

lemma chunks_free_offset: "chunks_free fs p k \<longleftrightarrow> (\<forall>j<k. fs ! (p + j) \<noteq> 0)"
  by (induction fs p k rule: chunks_free.induct) (auto simp: All_less_Suc2)

lemma chunks_free_iff: "chunks_free fs p k \<longleftrightarrow> (\<forall>j. p \<le> j \<longrightarrow> j < p + k \<longrightarrow> fs ! j \<noteq> 0)"
  unfolding chunks_free_offset by (metis add_less_cancel_left le_add1 le_iff_add)

lemma find_run_Some:
  "find_run fs n r i = Some k \<Longrightarrow>
     i \<le> k \<and> k + r \<le> n \<and> chunks_free fs k r \<and> (\<forall>j. i \<le> j \<longrightarrow> j < k \<longrightarrow> \<not> chunks_free fs j r)"
proof (induction fs n r i rule: find_run.induct)
  case (1 fs n r i)
  show ?case
  proof (cases "i + r \<le> n \<and> \<not> chunks_free fs i r")
    case True
    with 1 have "Suc i \<le> k \<and> k + r \<le> n \<and> chunks_free fs k r
        \<and> (\<forall>j. Suc i \<le> j \<longrightarrow> j < k \<longrightarrow> \<not> chunks_free fs j r)"
      by (simp add: find_run.simps [of fs n r i])
    with True show ?thesis by (metis Suc_leD Suc_leI le_eq_less_or_eq)
  next
    case False
    with "1.prems" show ?thesis by (auto simp: find_run.simps [of fs n r i] split: if_splits)
  qed
qed

lemma find_run_None:
  "find_run fs n r i = None \<longleftrightarrow> (\<forall>j. i \<le> j \<longrightarrow> j + r \<le> n \<longrightarrow> \<not> chunks_free fs j r)"
proof (induction fs n r i rule: find_run.induct)
  case (1 fs n r i)
  show ?case
  proof (cases "i + r \<le> n \<and> \<not> chunks_free fs i r")
    case True
    with 1 have "find_run fs n r i = None \<longleftrightarrow>
        (\<forall>j. Suc i \<le> j \<longrightarrow> j + r \<le> n \<longrightarrow> \<not> chunks_free fs j r)"
      by (simp add: find_run.simps [of fs n r i])
    with True show ?thesis by (metis Suc_leD Suc_leI le_eq_less_or_eq)
  next
    case False
    then show ?thesis by (auto simp: find_run.simps [of fs n r i])
  qed
qed

section \<open>The representation invariant\<close>

text \<open>
  \<open>covered ss j\<close>: chunk \<open>j\<close> lies in a block recorded in \<open>ss\<close>. A page is well formed when the
  recorded blocks lie inside the page, do not overlap, and the used chunks are exactly the
  covered ones.
\<close>

definition covered :: "int list \<Rightarrow> nat \<Rightarrow> bool" where
  "covered ss j \<longleftrightarrow> (\<exists>i\<le>j. int j < int i + ss ! i)"

definition page_ok :: "nat \<Rightarrow> int list \<Rightarrow> int list \<Rightarrow> bool" where
  "page_ok n fs ss \<longleftrightarrow>
     length fs = n \<and> length ss = n \<and> set fs \<subseteq> {0, 1} \<and>
     (\<forall>i<n. 0 \<le> ss ! i \<and> int i + ss ! i \<le> int n) \<and>
     (\<forall>i j. i < j \<longrightarrow> j < n \<longrightarrow> 0 < ss ! j \<longrightarrow> int i + ss ! i \<le> int j) \<and>
     (\<forall>j<n. fs ! j = 0 \<longleftrightarrow> covered ss j)"

text \<open>The blocks of a page: first chunk and number of chunks.\<close>

definition blocks :: "int list \<Rightarrow> (nat \<times> int) set" where
  "blocks ss = {(i, k). i < length ss \<and> ss ! i = k \<and> 0 < k}"

lemma page_okD:
  assumes "page_ok n fs ss"
  shows page_ok_length: "length fs = n" "length ss = n"
    and page_ok_values: "j < n \<Longrightarrow> fs ! j = 0 \<or> fs ! j = 1"
    and page_ok_size: "i < n \<Longrightarrow> 0 \<le> ss ! i" "i < n \<Longrightarrow> int i + ss ! i \<le> int n"
    and page_ok_apart: "i < j \<Longrightarrow> j < n \<Longrightarrow> 0 < ss ! j \<Longrightarrow> int i + ss ! i \<le> int j"
    and page_ok_used: "j < n \<Longrightarrow> fs ! j = 0 \<longleftrightarrow> covered ss j"
  using assms nth_mem unfolding page_ok_def by (blast+)

lemma covered_self: "0 < ss ! i \<Longrightarrow> covered ss i"
  by (auto simp: covered_def intro!: exI [of _ i])

lemma page_ok_free_start:
  assumes "page_ok n fs ss" "i < n" "fs ! i \<noteq> 0"
  shows "ss ! i = 0"
  using assms page_ok_used [OF assms(1,2)] page_ok_size(1) [OF assms(1,2)] covered_self [of ss i]
  by (cases "ss ! i = 0") auto

lemma page_ok_fresh: "page_ok n (replicate n 1) (replicate n 0)"
  by (auto simp: page_ok_def covered_def nth_append split: if_splits)

lemma blocks_fresh [simp]: "blocks (replicate n 0) = {}"
  by (auto simp: blocks_def)

section \<open>Taking and releasing a block\<close>

lemma covered_set:
  assumes "i < length ss" "ss ! i = 0"
  shows "covered (ss[i := v]) j \<longleftrightarrow> i \<le> j \<and> int j < int i + v \<or> covered ss j"
proof
  assume "covered (ss[i := v]) j"
  then obtain a where a: "a \<le> j" "int j < int a + ss[i := v] ! a"
    by (auto simp: covered_def)
  with assms show "i \<le> j \<and> int j < int i + v \<or> covered ss j"
    by (cases "a = i") (auto simp: covered_def)
next
  assume "i \<le> j \<and> int j < int i + v \<or> covered ss j"
  then show "covered (ss[i := v]) j"
  proof
    assume "i \<le> j \<and> int j < int i + v"
    with assms show ?thesis by (auto simp: covered_def intro!: exI [of _ i])
  next
    assume "covered ss j"
    then obtain a where a: "a \<le> j" "int j < int a + ss ! a" by (auto simp: covered_def)
    with assms have "a \<noteq> i" by auto
    with a show ?thesis by (auto simp: covered_def intro!: exI [of _ a])
  qed
qed

lemma covered_clear:
  assumes ok: "page_ok n fs ss" and i: "i < n" "0 < ss ! i" and j: "j < n"
  shows "covered (ss[i := 0]) j \<longleftrightarrow> covered ss j \<and> \<not> (i \<le> j \<and> int j < int i + ss ! i)"
proof
  assume "covered (ss[i := 0]) j"
  then obtain a where a: "a \<le> j" "int j < int a + ss[i := 0] ! a" by (auto simp: covered_def)
  with ok i have ai: "a \<noteq> i" by (auto simp: page_ok_length)
  with a have a': "int j < int a + ss ! a" by simp
  then have "0 < ss ! a" using a by linarith
  then have "i < a \<Longrightarrow> int i + ss ! i \<le> int a" "a < i \<Longrightarrow> int a + ss ! a \<le> int i"
    using page_ok_apart [OF ok] i a j by auto
  then have "\<not> (i \<le> j \<and> int j < int i + ss ! i)"
    using ai a a' by (cases i a rule: linorder_cases) auto
  with a a' show "covered ss j \<and> \<not> (i \<le> j \<and> int j < int i + ss ! i)"
    by (auto simp: covered_def)
next
  assume "covered ss j \<and> \<not> (i \<le> j \<and> int j < int i + ss ! i)"
  then obtain a where "a \<le> j" "int j < int a + ss ! a" "\<not> (i \<le> j \<and> int j < int i + ss ! i)"
    by (auto simp: covered_def)
  then show "covered (ss[i := 0]) j" by (cases "a = i") (auto simp: covered_def)
qed

lemma page_ok_take:
  assumes ok: "page_ok n fs ss" and r: "0 < r" "i + r \<le> n" and free: "chunks_free fs i r"
  shows "page_ok n (set_run fs i r 0) (ss[i := int r])"
proof -
  note len = page_ok_length [OF ok]
  have free_at: "fs ! j \<noteq> 0" if "i \<le> j" "j < i + r" for j
    using free that by (simp add: chunks_free_iff)
  have zero: "ss ! j = 0" if "i \<le> j" "j < i + r" for j
    using page_ok_free_start [OF ok _ free_at [OF that]] r that by simp
  have before: "int a + ss ! a \<le> int i" if "a < i" for a
  proof (rule ccontr)
    assume "\<not> int a + ss ! a \<le> int i"
    with that have "covered ss i" by (auto simp: covered_def intro!: exI [of _ a])
    with free_at [of i] page_ok_used [OF ok, of i] r show False by simp
  qed
  have apart: "int a + ss[i := int r] ! a \<le> int b"
    if "a < b" "b < n" "0 < ss[i := int r] ! b" for a b
  proof (cases "a = i")
    case True
    with that zero [of b] show ?thesis using r len by force
  next
    case False
    with that before page_ok_apart [OF ok, of a b] show ?thesis
      using r len by (cases "b = i") auto
  qed
  have "covered (ss[i := int r]) j \<longleftrightarrow> set_run fs i r 0 ! j = 0" if "j < n" for j
    using covered_set [of i ss "int r" j] zero [of i] page_ok_used [OF ok that] r len that
    by (auto simp: run_simps)
  moreover have "set (set_run fs i r 0) \<subseteq> {0, 1}"
    using set_set_run [of fs i r 0] ok by (auto simp: page_ok_def)
  moreover have "0 \<le> ss[i := int r] ! a \<and> int a + ss[i := int r] ! a \<le> int n" if "a < n" for a
    using page_ok_size [OF ok that] r len that by (cases "a = i") auto
  ultimately show ?thesis
    using apart len by (auto simp: page_ok_def)
qed

lemma page_ok_release:
  assumes ok: "page_ok n fs ss" and i: "i < n" "0 < ss ! i"
  shows "page_ok n (set_run fs i (nat (ss ! i)) 1) (ss[i := 0])"
proof -
  note len = page_ok_length [OF ok]
  have "covered (ss[i := 0]) j \<longleftrightarrow> set_run fs i (nat (ss ! i)) 1 ! j = 0" if "j < n" for j
    using covered_clear [OF ok i that] page_ok_used [OF ok that] len that i
    by (auto simp: run_simps)
  moreover have "set (set_run fs i (nat (ss ! i)) 1) \<subseteq> {0, 1}"
    using set_set_run [of fs i "nat (ss ! i)" 1] ok by (auto simp: page_ok_def)
  moreover have "0 \<le> ss[i := 0] ! a \<and> int a + ss[i := 0] ! a \<le> int n" if "a < n" for a
    using page_ok_size [OF ok that] len that i by (cases "a = i") auto
  moreover have "int a + ss[i := 0] ! a \<le> int b" if "a < b" "b < n" "0 < ss[i := 0] ! b" for a b
    using page_ok_apart [OF ok that(1,2)] that i len by (cases "a = i"; cases "b = i") auto
  ultimately show ?thesis
    using len by (auto simp: page_ok_def)
qed

lemma blocks_take:
  assumes "i < length ss" "ss ! i = 0" "0 < r"
  shows "blocks (ss[i := int r]) = insert (i, int r) (blocks ss)"
  using assms by (force simp: blocks_def nth_list_update split: if_splits)

lemma blocks_release: "blocks (ss[i := 0]) = blocks ss - {(i, ss ! i)}"
proof (rule set_eqI)
  fix x :: "nat \<times> int"
  show "x \<in> blocks (ss[i := 0]) \<longleftrightarrow> x \<in> blocks ss - {(i, ss ! i)}"
    by (cases x; cases "fst x = i") (auto simp: blocks_def)
qed

lemma blocks_apart:
  assumes "page_ok n fs ss" "(i, k) \<in> blocks ss" "(j, l) \<in> blocks ss" "i \<noteq> j"
  shows "int i + k \<le> int j \<or> int j + l \<le> int i"
  using page_ok_apart [OF assms(1), of i j] page_ok_apart [OF assms(1), of j i] assms
  by (cases i j rule: linorder_cases) (auto simp: blocks_def page_ok_length)

lemma blocks_bounds:
  assumes "page_ok n fs ss" "(i, k) \<in> blocks ss"
  shows "0 < k" "i < n" "int i + k \<le> int n"
  using page_ok_size [OF assms(1), of i] assms(2) page_ok_length [OF assms(1)]
  by (auto simp: blocks_def)

text \<open>A run of free chunks meets no recorded block.\<close>

lemma free_run_apart:
  assumes ok: "page_ok n fs ss" and r: "0 < r" "i + r \<le> n" and free: "chunks_free fs i r"
    and b: "(j, k) \<in> blocks ss"
  shows "int i + int r \<le> int j \<or> int j + k \<le> int i"
proof (rule ccontr)
  assume "\<not> ?thesis"
  then have o: "int j < int i + int r" "int i < int j + k" by auto
  let ?c = "max i j"
  have "?c < i + r" "?c < n" using o r by auto
  then have "fs ! ?c \<noteq> 0" using free by (simp add: chunks_free_iff)
  moreover have "covered ss ?c"
    using o b by (auto simp: covered_def blocks_def intro!: exI [of _ j])
  ultimately show False using page_ok_used [OF ok \<open>?c < n\<close>] by simp
qed

text \<open>Taking a block and releasing it restores both arrays exactly.\<close>

lemma take_release:
  assumes ok: "page_ok n fs ss" and r: "0 < r" "i + r \<le> n" and free: "chunks_free fs i r"
  shows "set_run (set_run fs i r 0) i r 1 = fs" "(ss[i := int r])[i := 0] = ss"
proof -
  have "fs ! j = 1" if "i \<le> j" "j < i + r" for j
    using free that r page_ok_values [OF ok, of j] by (auto simp: chunks_free_iff)
  then show "set_run (set_run fs i r 0) i r 1 = fs" by (intro set_run_undo)
  have "ss ! i = 0"
    using page_ok_free_start [OF ok, of i] free r by (simp add: chunks_free_iff)
  then show "(ss[i := int r])[i := 0] = ss" by (metis list_update_id list_update_overwrite)
qed

section \<open>The blocks as memory\<close>

text \<open>
  A page mapped at \<open>base\<close> with chunks of \<open>g\<close> bytes: the address and the length in bytes of
  every recorded block.
\<close>

definition span :: "addr \<Rightarrow> int \<Rightarrow> int list \<Rightarrow> (addr \<times> int) set" where
  "span base g ss = (\<lambda>(i, k). (base + int i * g, k * g)) ` blocks ss"

lemma spanI: "(i, k) \<in> blocks ss \<Longrightarrow> (base + int i * g, k * g) \<in> span base g ss"
  by (auto simp: span_def)

lemma spanE:
  assumes "b \<in> span base g ss"
  obtains i k where "(i, k) \<in> blocks ss" "b = (base + int i * g, k * g)"
  using assms by (auto simp: span_def)

lemma span_fresh [simp]: "span base g (replicate n 0) = {}"
  by (simp add: span_def)

lemma apart_chunks:
  assumes "0 < g"
  shows "apart (base + i * g, r * g) (base + j * g, k * g) \<longleftrightarrow> i + r \<le> j \<or> j + k \<le> i"
proof -
  have "base + i * g + r * g \<le> base + j * g \<longleftrightarrow> (i + r) * g \<le> j * g" for i r j
    by (simp add: distrib_right)
  then show ?thesis using assms by (simp add: apart_def)
qed

lemma chunk_hit:
  fixes i p base g :: int
  assumes "0 < g"
  shows "base + i * g \<le> p \<and> p < base + i * g + g \<longleftrightarrow> i = (p - base) div g"
proof
  assume "base + i * g \<le> p \<and> p < base + i * g + g"
  then show "i = (p - base) div g"
    using int_div_pos_eq [of "p - base" g i "p - base - g * i"] by (simp add: mult.commute)
next
  assume i: "i = (p - base) div g"
  have "p - base = i * g + (p - base) mod g" using i by simp
  with assms pos_mod_bound [of g "p - base"] pos_mod_sign [of g "p - base"]
  show "base + i * g \<le> p \<and> p < base + i * g + g" by linarith
qed

lemma span_apart:
  assumes "0 < g" "page_ok n fs ss" "b \<in> span base g ss" "c \<in> span base g ss" "b \<noteq> c"
  shows "apart b c"
proof -
  obtain i k where b: "(i, k) \<in> blocks ss" "b = (base + int i * g, k * g)"
    using assms(3) by (rule spanE)
  obtain j l where c: "(j, l) \<in> blocks ss" "c = (base + int j * g, l * g)"
    using assms(4) by (rule spanE)
  have "i \<noteq> j" using b c assms(5) by (auto simp: blocks_def)
  with blocks_apart [OF assms(2) b(1) c(1)] b(2) c(2) assms(1) show ?thesis
    by (simp add: apart_chunks)
qed

lemma span_bounds:
  assumes "0 < g" "page_ok n fs ss" "b \<in> span base g ss"
  shows "base \<le> fst b" "fst b + snd b \<le> base + int n * g" "g \<le> snd b"
proof -
  obtain i k where b: "(i, k) \<in> blocks ss" "b = (base + int i * g, k * g)"
    using assms(3) by (rule spanE)
  note k = blocks_bounds [OF assms(2) b(1)]
  have "(int i + k) * g \<le> int n * g" "1 * g \<le> k * g"
    using k assms(1) by (auto intro!: mult_right_mono)
  with b assms(1) show "base \<le> fst b" "fst b + snd b \<le> base + int n * g" "g \<le> snd b"
    by (auto simp: distrib_right)
qed

lemma chunks_free_span:
  assumes g: "0 < g" and ok: "page_ok n fs ss" and r: "0 < r" "i + r \<le> n"
  shows "chunks_free fs i r \<longleftrightarrow> (\<forall>b\<in>span base g ss. apart (base + int i * g, int r * g) b)"
proof
  assume "chunks_free fs i r"
  from free_run_apart [OF ok r this] g
  show "\<forall>b\<in>span base g ss. apart (base + int i * g, int r * g) b"
    by (auto elim!: spanE simp: apart_chunks)
next
  assume room: "\<forall>b\<in>span base g ss. apart (base + int i * g, int r * g) b"
  have "fs ! j \<noteq> 0" if j: "i \<le> j" "j < i + r" for j
  proof
    assume "fs ! j = 0"
    then have "covered ss j" using page_ok_used [OF ok, of j] j r by simp
    then obtain a where a: "a \<le> j" "int j < int a + ss ! a" by (auto simp: covered_def)
    with j r page_ok_length [OF ok] have "(a, ss ! a) \<in> blocks ss" by (auto simp: blocks_def)
    with room g have "int i + int r \<le> int a \<or> int a + ss ! a \<le> int i"
      by (metis apart_chunks spanI)
    with a j show False by auto
  qed
  then show "chunks_free fs i r" by (simp add: chunks_free_iff)
qed

lemma span_take:
  assumes "i < length ss" "ss ! i = 0" "0 < r"
  shows "span base g (ss[i := int r]) = insert (base + int i * g, int r * g) (span base g ss)"
  by (simp add: span_def blocks_take [OF assms])

text \<open>Which pointers \<open>p\<close> into the page a \<open>dealloc\<close> recognises: the chunk of \<open>p\<close> starts a block.\<close>

lemma span_hit:
  assumes g: "0 < g" and p: "base \<le> p" and b: "b \<in> span base g ss"
  shows "fst b \<le> p \<and> p < fst b + g \<longleftrightarrow>
    b = (base + int (nat ((p - base) div g)) * g, ss ! nat ((p - base) div g) * g)"
proof -
  obtain i k where i: "(i, k) \<in> blocks ss" "b = (base + int i * g, k * g)" using b by (rule spanE)
  have "fst b \<le> p \<and> p < fst b + g \<longleftrightarrow> int i = (p - base) div g"
    using chunk_hit [OF g, of base "int i" p] i(2) by simp
  also have "\<dots> \<longleftrightarrow> i = nat ((p - base) div g)"
    using g p pos_imp_zdiv_nonneg_iff [of g "p - base"] by auto
  finally show ?thesis using i g by (auto simp: blocks_def)
qed

lemma span_release:
  assumes g: "0 < g" and p: "base \<le> p"
  shows "span base g (ss[nat ((p - base) div g) := 0]) =
         {b \<in> span base g ss. \<not> (fst b \<le> p \<and> p < fst b + g)}"
proof -
  let ?i = "nat ((p - base) div g)"
  have "inj (\<lambda>(i, k). (base + int i * g, k * g))" using g by (auto simp: inj_def)
  then have "span base g (ss[?i := 0]) = span base g ss - {(base + int ?i * g, ss ! ?i * g)}"
    by (simp add: span_def blocks_release image_set_diff)
  also have "\<dots> = {b \<in> span base g ss. \<not> (fst b \<le> p \<and> p < fst b + g)}"
    using span_hit [OF g p, of _ ss] by blast
  finally show ?thesis .
qed

lemma span_hit_ex:
  assumes g: "0 < g" and p: "base \<le> p"
  shows "(\<exists>b\<in>span base g ss. fst b \<le> p \<and> p < fst b + g) \<longleftrightarrow>
         nat ((p - base) div g) < length ss \<and> 0 < ss ! nat ((p - base) div g)"
    (is "?L \<longleftrightarrow> ?i < _ \<and> _")
proof
  assume ?L
  then obtain b where b: "b \<in> span base g ss" "b = (base + int ?i * g, ss ! ?i * g)"
    using span_hit [OF g p] by blast
  obtain i k where i: "(i, k) \<in> blocks ss" "b = (base + int i * g, k * g)" using b(1) by (rule spanE)
  with b(2) g have "int i = int ?i" by simp
  then have "i = ?i" by (simp only: of_nat_eq_iff)
  with i(1) show "?i < length ss \<and> 0 < ss ! ?i" by (simp add: blocks_def)
next
  assume "?i < length ss \<and> 0 < ss ! ?i"
  then have "(base + int ?i * g, ss ! ?i * g) \<in> span base g ss"
    by (intro spanI) (auto simp: blocks_def)
  with span_hit [OF g p] show ?L by blast
qed

end
