(* ===== verification/Allocator.thy ===== *)
theory Allocator
  imports Lab_Prelude
begin

text \<open>
  What a client of \<open>alloc\<close> and \<open>dealloc\<close> may rely on, stated once as an interface and
  interpreted on the models of \<open>alloc.h\<close> and \<open>ealloc.h\<close>: the memory handed out is disjoint
  from every block still in use, a block stays in use until it is deallocated, and no call
  made under the stated conditions has undefined behaviour.
\<close>

datatype 'e heap_op = Alloc 'e int | Dealloc addr

text \<open>
  One call of a client. \<open>'e\<close> is what the operating system answers during the call;
  \<open>env_ok\<close> is the documented behaviour of that answer in the current state.
\<close>

fun heap_step ::
  "('e \<Rightarrow> int \<Rightarrow> 's \<Rightarrow> ('s \<times> addr) outcome) \<Rightarrow> (addr \<Rightarrow> 's \<Rightarrow> 's outcome) \<Rightarrow> ('e \<Rightarrow> 's \<Rightarrow> bool)
     \<Rightarrow> 'e heap_op \<Rightarrow> 's \<Rightarrow> 's option" where
  "heap_step al de ok (Alloc e n) s =
     (if ok e s then (case al e n s of Inl _ \<Rightarrow> None | Inr (s', p) \<Rightarrow> Some s') else None)"
| "heap_step al de ok (Dealloc p) s = (case de p s of Inl _ \<Rightarrow> None | Inr s' \<Rightarrow> Some s')"

text \<open>Does the operation hand the block that starts at \<open>q\<close> back? \<open>g\<close> is the chunk size.\<close>

fun releases :: "int \<Rightarrow> addr \<Rightarrow> 'e heap_op \<Rightarrow> bool" where
  "releases g q (Alloc e n) = False"
| "releases g q (Dealloc p) = (q \<le> p \<and> p < q + g)"

locale allocator =
  fixes alloc_op :: "'e \<Rightarrow> int \<Rightarrow> 's \<Rightarrow> ('s \<times> addr) outcome"
    and dealloc_op :: "addr \<Rightarrow> 's \<Rightarrow> 's outcome"
    and env_ok :: "'e \<Rightarrow> 's \<Rightarrow> bool"
    and inv :: "'s \<Rightarrow> bool"
    and live :: "'s \<Rightarrow> (addr \<times> int) set"
    and gran :: int
  assumes alloc_safe: "inv s \<Longrightarrow> env_ok e s \<Longrightarrow> \<exists>s' p. alloc_op e n s = Inr (s', p)"
    and alloc_inv: "inv s \<Longrightarrow> env_ok e s \<Longrightarrow> alloc_op e n s = Inr (s', p) \<Longrightarrow> inv s'"
    and alloc_live: "inv s \<Longrightarrow> env_ok e s \<Longrightarrow> alloc_op e n s = Inr (s', p) \<Longrightarrow>
          live s' = (if p = NULL then live s else insert (p, n) (live s))"
    and alloc_fresh: "inv s \<Longrightarrow> env_ok e s \<Longrightarrow> alloc_op e n s = Inr (s', p) \<Longrightarrow> p \<noteq> NULL \<Longrightarrow>
          b \<in> live s \<Longrightarrow> apart (p, n) b"
    and dealloc_safe: "inv s \<Longrightarrow> \<exists>s'. dealloc_op p s = Inr s'"
    and dealloc_inv: "inv s \<Longrightarrow> dealloc_op p s = Inr s' \<Longrightarrow> inv s'"
    and dealloc_live: "inv s \<Longrightarrow> dealloc_op p s = Inr s' \<Longrightarrow>
          live s' = {b \<in> live s. \<not> (fst b \<le> p \<and> p < fst b + gran)}"

sublocale allocator \<subseteq> step_invariant "heap_step alloc_op dealloc_op env_ok" inv
proof
  fix s a s'
  assume "inv s" "heap_step alloc_op dealloc_op env_ok a s = Some s'"
  then show "inv s'"
    by (cases a) (auto intro: alloc_inv dealloc_inv split: if_splits sum.splits)
qed

context allocator
begin

abbreviation call where "call \<equiv> heap_step alloc_op dealloc_op env_ok"

lemma call_apart:
  assumes "inv s" "all_apart (live s)" "call a s = Some s'"
  shows "all_apart (live s')"
proof (cases a)
  case (Alloc e n)
  with assms obtain p where p: "env_ok e s" "alloc_op e n s = Inr (s', p)"
    by (auto split: if_splits sum.splits)
  with assms show ?thesis
    using alloc_live [OF assms(1) p] alloc_fresh [OF assms(1) p] by (auto intro: all_apart_insert)
next
  case (Dealloc p)
  with assms dealloc_live show ?thesis by (force intro: all_apart_subset split: sum.splits)
qed

lemma run_apart:
  "inv s \<Longrightarrow> all_apart (live s) \<Longrightarrow> exec call s as = Some s' \<Longrightarrow> all_apart (live s')"
proof (induction as arbitrary: s)
  case (Cons a as)
  then obtain t where "call a s = Some t" "exec call t as = Some s'" by (auto split: option.splits)
  with Cons show ?case by (meson call_apart step_inv)
qed simp

lemma call_keeps:
  assumes "inv s" "(q, n) \<in> live s" "\<not> releases gran q a" "call a s = Some s'"
  shows "(q, n) \<in> live s'"
proof (cases a)
  case (Alloc e m)
  with assms obtain p where p: "env_ok e s" "alloc_op e m s = Inr (s', p)"
    by (auto split: if_splits sum.splits)
  with assms(2) show ?thesis using alloc_live [OF assms(1) p] by auto
next
  case (Dealloc p)
  with assms dealloc_live show ?thesis by (force split: sum.splits)
qed

lemma run_keeps:
  "inv s \<Longrightarrow> (q, n) \<in> live s \<Longrightarrow> \<forall>a\<in>set as. \<not> releases gran q a \<Longrightarrow>
     exec call s as = Some s' \<Longrightarrow> (q, n) \<in> live s'"
proof (induction as arbitrary: s)
  case (Cons a as)
  then obtain t where t: "call a s = Some t" "exec call t as = Some s'" by (auto split: option.splits)
  moreover have "inv t" using Cons.prems(1) t(1) by (rule step_inv)
  moreover have "(q, n) \<in> live t" using Cons.prems t(1) by (auto intro: call_keeps [of s q n a])
  ultimately show ?case using Cons by simp
qed simp

text \<open>No call is stuck: undefined behaviour is not reachable while the system behaves.\<close>

lemma call_safe:
  assumes "inv s" "\<And>e n. a = Alloc e n \<Longrightarrow> env_ok e s"
  shows "\<exists>s'. call a s = Some s'"
proof (cases a)
  case (Alloc e n)
  with assms alloc_safe [of s e n] show ?thesis by auto
next
  case (Dealloc p)
  with assms dealloc_safe [of s p] show ?thesis by auto
qed

end

end
