(* ===== verification/Alloc.thy ===== *)
theory Alloc
  imports Chunks Allocator
begin

text \<open>
  \<open>malloc-code/alloc.h\<close>: an allocator over one page obtained from \<open>mmap\<close>, in chunks of 8
  bytes. \<open>alloc_state\<close> holds the three globals; \<open>init_alloc\<close>, \<open>cleanup\<close>, \<open>alloc\<close> and
  \<open>dealloc\<close> are the four functions. The result of \<open>mmap\<close> and \<open>munmap\<close> is an argument of the
  functions that call them.
\<close>

section \<open>State and operations\<close>

definition PAGESIZE :: int where "PAGESIZE = 4096"
definition MINALLOC :: int where "MINALLOC = 8"
definition NUMCHUNKS :: nat where "NUMCHUNKS = 512"

record alloc_state =
  mapped_page :: addr
  free_chunks :: "int list"
  alloc_sizes :: "int list"

text \<open>The state before \<open>main\<close>: C zero-initialises the globals.\<close>

definition alloc_globals :: alloc_state where
  "alloc_globals = \<lparr>mapped_page = NULL, free_chunks = replicate NUMCHUNKS 0,
     alloc_sizes = replicate NUMCHUNKS 0\<rparr>"

definition init_alloc :: "addr \<Rightarrow> alloc_state \<Rightarrow> alloc_state \<times> int" where
  "init_alloc mmap_ret s =
     (let s1 = s\<lparr>mapped_page := mmap_ret\<rparr> in
      if mapped_page s1 = MAP_FAILED then (s1, -1)
      else (s1\<lparr>free_chunks := replicate NUMCHUNKS 1, alloc_sizes := replicate NUMCHUNKS 0\<rparr>, 0))"

definition cleanup :: "int \<Rightarrow> alloc_state \<Rightarrow> alloc_state \<times> int" where
  "cleanup munmap_ret s =
     (if mapped_page s \<noteq> NULL \<and> munmap_ret = -1 then (s, -1)
      else (s\<lparr>mapped_page := NULL\<rparr>, 0))"

definition alloc :: "int \<Rightarrow> alloc_state \<Rightarrow> alloc_state \<times> addr" where
  "alloc sz s =
     (if sz \<le> 0 \<or> sz > PAGESIZE \<or> sz mod MINALLOC \<noteq> 0 then (s, NULL)
      else let required_chunks = nat (sz div MINALLOC) in
        case find_run (free_chunks s) NUMCHUNKS required_chunks 0 of
          None \<Rightarrow> (s, NULL)
        | Some i \<Rightarrow>
            (s\<lparr>free_chunks := set_run (free_chunks s) i required_chunks 0,
               alloc_sizes := (alloc_sizes s)[i := int required_chunks]\<rparr>,
             mapped_page s + int i * MINALLOC))"

text \<open>What \<open>dealloc\<close> prints on \<open>stderr\<close>, if anything.\<close>

datatype dealloc_msg = InvalidPointer addr | NotAllocatedBlock

text \<open>
  The loop of \<open>dealloc\<close>: \<open>for (i = index; i < index + size && i < NUMCHUNKS; i++)\<close>, with the
  number of chunks left.
\<close>

fun release_loop :: "int list \<Rightarrow> nat \<Rightarrow> nat \<Rightarrow> int list" where
  "release_loop fs i 0 = fs"
| "release_loop fs i (Suc k) =
     (if i < NUMCHUNKS then release_loop (fs[i := 1]) (Suc i) k else fs)"

definition dealloc :: "addr \<Rightarrow> alloc_state \<Rightarrow> alloc_state \<times> dealloc_msg option" where
  "dealloc ptr s =
     (if ptr = NULL \<or> ptr < mapped_page s \<or> ptr \<ge> mapped_page s + PAGESIZE
      then (s, Some (InvalidPointer ptr))
      else let index = nat ((ptr - mapped_page s) div MINALLOC);
               sz = alloc_sizes s ! index in
        if sz \<le> 0 \<or> index \<ge> NUMCHUNKS then (s, Some NotAllocatedBlock)
        else (s\<lparr>free_chunks := release_loop (free_chunks s) index (nat sz),
                alloc_sizes := (alloc_sizes s)[index := 0]\<rparr>, None))"

section \<open>Well-formed states and the live blocks\<close>

definition alloc_wf :: "alloc_state \<Rightarrow> bool" where
  "alloc_wf s \<longleftrightarrow> 0 < mapped_page s \<and> page_ok NUMCHUNKS (free_chunks s) (alloc_sizes s)"

definition alloc_live :: "alloc_state \<Rightarrow> (addr \<times> int) set" where
  "alloc_live s = span (mapped_page s) MINALLOC (alloc_sizes s)"

lemmas alloc_consts = PAGESIZE_def MINALLOC_def NUMCHUNKS_def

lemma release_loop_eq: "i + k \<le> NUMCHUNKS \<Longrightarrow> release_loop fs i k = set_run fs i k 1"
  by (induction fs i k rule: release_loop.induct) auto

lemma MINALLOC_pos: "0 < MINALLOC"
  by (simp add: MINALLOC_def)

lemma alloc_wf_page: "alloc_wf s \<Longrightarrow> page_ok NUMCHUNKS (free_chunks s) (alloc_sizes s)"
  by (simp add: alloc_wf_def)

text \<open>The two outcomes of \<open>alloc\<close>.\<close>

definition bad_size :: "int \<Rightarrow> bool" where
  "bad_size sz \<longleftrightarrow> sz \<le> 0 \<or> sz > PAGESIZE \<or> sz mod MINALLOC \<noteq> 0"

lemma good_size:
  assumes "\<not> bad_size sz"
  shows "0 < nat (sz div MINALLOC)" "nat (sz div MINALLOC) \<le> NUMCHUNKS"
    "int (nat (sz div MINALLOC)) * MINALLOC = sz"
  using assms by (auto simp: bad_size_def alloc_consts)

lemma alloc_cases:
  assumes wf: "alloc_wf s" and run: "alloc sz s = (s', p)"
  obtains (null) "p = NULL" "s' = s"
      "bad_size sz \<or> find_run (free_chunks s) NUMCHUNKS (nat (sz div MINALLOC)) 0 = None"
  | (block) i r where "\<not> bad_size sz" "r = nat (sz div MINALLOC)" "0 < r"
      "int r * MINALLOC = sz" "p = mapped_page s + int i * MINALLOC" "p \<noteq> NULL"
      "find_run (free_chunks s) NUMCHUNKS r 0 = Some i" "i + r \<le> NUMCHUNKS"
      "chunks_free (free_chunks s) i r"
      "s' = s\<lparr>free_chunks := set_run (free_chunks s) i r 0,
              alloc_sizes := (alloc_sizes s)[i := int r]\<rparr>"
proof (cases "bad_size sz")
  case True
  with run null show ?thesis by (auto simp: alloc_def bad_size_def)
next
  case False
  let ?r = "nat (sz div MINALLOC)"
  show ?thesis
  proof (cases "find_run (free_chunks s) NUMCHUNKS ?r 0")
    case None
    with False run null show ?thesis by (auto simp: alloc_def bad_size_def)
  next
    case (Some i)
    moreover from Some False run have
      "p = mapped_page s + int i * MINALLOC"
      "s' = s\<lparr>free_chunks := set_run (free_chunks s) i ?r 0,
              alloc_sizes := (alloc_sizes s)[i := int ?r]\<rparr>"
      by (auto simp: alloc_def bad_size_def)
    ultimately show ?thesis
      using block [of ?r i] False good_size [OF False] find_run_Some [OF Some] wf
      by (auto simp: alloc_wf_def MINALLOC_def)
  qed
qed

text \<open>The outcomes of \<open>dealloc\<close>: \<open>hit\<close> says that \<open>p\<close> points into the first chunk of a live block.\<close>

definition hit :: "alloc_state \<Rightarrow> addr \<Rightarrow> bool" where
  "hit s p \<longleftrightarrow> (\<exists>b\<in>alloc_live s. fst b \<le> p \<and> p < fst b + MINALLOC)"

lemma dealloc_cases:
  assumes wf: "alloc_wf s" and run: "dealloc p s = (s', m)"
  obtains (refused) "s' = s" "m \<noteq> None" "\<not> hit s p"
  | (freed) i where "m = None" "hit s p" "mapped_page s \<le> p"
      "i = nat ((p - mapped_page s) div MINALLOC)" "i < NUMCHUNKS" "0 < alloc_sizes s ! i"
      "s' = s\<lparr>free_chunks := set_run (free_chunks s) i (nat (alloc_sizes s ! i)) 1,
              alloc_sizes := (alloc_sizes s)[i := 0]\<rparr>"
proof (cases "p = NULL \<or> p < mapped_page s \<or> p \<ge> mapped_page s + PAGESIZE")
  case True
  have "\<not> (fst b \<le> p \<and> p < fst b + MINALLOC)" if "b \<in> alloc_live s" for b
    using span_bounds [OF MINALLOC_pos alloc_wf_page [OF wf], of b "mapped_page s"] that True wf
    by (auto simp: alloc_live_def alloc_wf_def alloc_consts)
  then have "\<not> hit s p" by (auto simp: hit_def)
  with True run refused show ?thesis by (auto simp: dealloc_def)
next
  case False
  let ?i = "nat ((p - mapped_page s) div MINALLOC)"
  have i: "?i < NUMCHUNKS" "mapped_page s \<le> p" using False by (auto simp: alloc_consts)
  note page = alloc_wf_page [OF wf]
  have hit: "hit s p \<longleftrightarrow> 0 < alloc_sizes s ! ?i"
    using span_hit_ex [OF MINALLOC_pos i(2), of "alloc_sizes s"] i(1) page_ok_length [OF page]
    by (simp add: hit_def alloc_live_def)
  show ?thesis
  proof (cases "hit s p")
    case True
    then have "?i + nat (alloc_sizes s ! ?i) \<le> NUMCHUNKS"
      using hit page_ok_size [OF page i(1)] by linarith
    with hit True i False run freed [of ?i] show ?thesis
      by (auto simp: dealloc_def Let_def release_loop_eq)
  next
    case miss: False
    with hit False run refused show ?thesis by (auto simp: dealloc_def Let_def)
  qed
qed

text \<open>
  The contract of \<open>alloc\<close> speaks of addresses only: \<open>room s q n\<close> says that the \<open>n\<close> bytes at \<open>q\<close>
  start on a chunk, lie inside the page and meet no live block.
\<close>

definition room :: "alloc_state \<Rightarrow> addr \<Rightarrow> int \<Rightarrow> bool" where
  "room s q n \<longleftrightarrow> mapped_page s \<le> q \<and> q + n \<le> mapped_page s + PAGESIZE \<and>
     (q - mapped_page s) mod MINALLOC = 0 \<and> (\<forall>b\<in>alloc_live s. apart (q, n) b)"

lemma chunks_free_room:
  assumes wf: "alloc_wf s" and r: "0 < r" "i + r \<le> NUMCHUNKS"
  shows "chunks_free (free_chunks s) i r \<longleftrightarrow>
           room s (mapped_page s + int i * MINALLOC) (int r * MINALLOC)"
  using chunks_free_span [OF MINALLOC_pos alloc_wf_page [OF wf] r, of "mapped_page s"] r
  by (auto simp: room_def alloc_live_def alloc_consts)

lemma room_chunk:
  assumes "room s q n" "\<not> bad_size n"
  obtains i where "q = mapped_page s + int i * MINALLOC" "i + nat (n div MINALLOC) \<le> NUMCHUNKS"
proof
  from assms show "q = mapped_page s + int (nat ((q - mapped_page s) div MINALLOC)) * MINALLOC"
    by (auto simp: room_def alloc_consts)
  from assms show "nat ((q - mapped_page s) div MINALLOC) + nat (n div MINALLOC) \<le> NUMCHUNKS"
    by (auto simp: room_def bad_size_def alloc_consts)
qed

lemma alloc_wf_alloc:
  assumes wf: "alloc_wf s" and run: "alloc n s = (s', p)"
  shows "alloc_wf s'"
proof (rule alloc_cases [OF wf run])
  fix i r
  assume "0 < r" "i + r \<le> NUMCHUNKS" "chunks_free (free_chunks s) i r"
    and s': "s' = s\<lparr>free_chunks := set_run (free_chunks s) i r 0,
                   alloc_sizes := (alloc_sizes s)[i := int r]\<rparr>"
  with wf show ?thesis by (auto simp: alloc_wf_def intro: page_ok_take)
qed (use wf in simp)

lemma alloc_wf_dealloc:
  assumes wf: "alloc_wf s" and run: "dealloc p s = (s', m)"
  shows "alloc_wf s'"
  by (rule dealloc_cases [OF wf run]) (use wf in \<open>auto simp: alloc_wf_def intro: page_ok_release\<close>)

lemma alloc_live_alloc:
  assumes "alloc_wf s" "alloc n s = (s', p)"
  shows "alloc_live s' = (if p = NULL then alloc_live s else insert (p, n) (alloc_live s))"
  using assms
proof (cases rule: alloc_cases)
  case (block i r)
  have page: "page_ok NUMCHUNKS (free_chunks s) (alloc_sizes s)"
    using assms(1) by (simp add: alloc_wf_def)
  have "alloc_sizes s ! i = 0"
    using block by (intro page_ok_free_start [OF page]) (auto simp: chunks_free_iff)
  with block(3,8) page_ok_length [OF page]
  have "alloc_live s' = insert (mapped_page s + int i * MINALLOC, int r * MINALLOC) (alloc_live s)"
    unfolding alloc_live_def by (simp add: block(10) span_take)
  with block(4-6) show ?thesis by simp
qed auto

lemma alloc_room:
  assumes "alloc_wf s" "alloc n s = (s', p)" "p \<noteq> NULL"
  shows "room s p n"
  using assms(1,2)
proof (cases rule: alloc_cases)
  case (block i r)
  with chunks_free_room [OF assms(1), of r i] show ?thesis by simp
qed (use assms in simp)

lemma alloc_live_dealloc:
  assumes "alloc_wf s" "dealloc p s = (s', m)"
  shows "alloc_live s' = {b \<in> alloc_live s. \<not> (fst b \<le> p \<and> p < fst b + MINALLOC)}"
  using assms
proof (cases rule: dealloc_cases)
  case refused
  then show ?thesis by (auto simp: hit_def)
next
  case (freed i)
  then show ?thesis
    using span_release [OF MINALLOC_pos freed(3), of "alloc_sizes s"] by (simp add: alloc_live_def)
qed

lemma alloc_page:
  assumes "alloc_wf s" "alloc n s = (s', p)"
  shows "mapped_page s' = mapped_page s"
  using assms by (cases rule: alloc_cases) auto

lemma alloc_lowest:
  assumes "alloc_wf s" "alloc n s = (s', p)" "p \<noteq> NULL" "room s q n"
  shows "p \<le> q"
  using assms(1,2)
proof (cases rule: alloc_cases)
  case (block i r)
  obtain j where j: "q = mapped_page s + int j * MINALLOC" "j + r \<le> NUMCHUNKS"
    using room_chunk [OF assms(4) block(1)] block(2) by metis
  then have "chunks_free (free_chunks s) j r"
    using chunks_free_room [OF assms(1) block(3) j(2)] assms(4) block(4) by simp
  then have "i \<le> j" using find_run_Some [OF block(7)] by (meson leI zero_le)
  with block(5) j(1) show ?thesis by (simp add: MINALLOC_def)
qed (use assms in simp)

lemma alloc_null_room:
  assumes wf: "alloc_wf s" and run: "alloc n s = (s', NULL)" and good: "\<not> bad_size n"
  shows "\<not> room s q n"
  using wf run
proof (cases rule: alloc_cases)
  case null
  show ?thesis
  proof
    assume q: "room s q n"
    let ?r = "nat (n div MINALLOC)"
    obtain j where j: "q = mapped_page s + int j * MINALLOC" "j + ?r \<le> NUMCHUNKS"
      using room_chunk [OF q good] by metis
    then have "chunks_free (free_chunks s) j ?r"
      using chunks_free_room [OF wf good_size(1) [OF good] j(2)] q good_size(3) [OF good] by simp
    with null(3) good j(2) show False by (auto simp: find_run_None)
  qed
qed simp

text \<open>Where a caller who knows the live blocks finds the next one.\<close>

lemma alloc_at:
  assumes wf: "alloc_wf s" and good: "\<not> bad_size n" and room: "room s q n"
    and low: "\<And>q'. room s q' n \<Longrightarrow> q \<le> q'"
  obtains s' where "alloc n s = (s', q)" "alloc_wf s'" "alloc_live s' = insert (q, n) (alloc_live s)"
    "mapped_page s' = mapped_page s" "q \<noteq> NULL"
proof -
  obtain s' p where run: "alloc n s = (s', p)" by (cases "alloc n s")
  have p: "p \<noteq> NULL" using alloc_null_room [OF wf _ good] room run by auto
  have "p = q" using alloc_lowest [OF wf run p room] low [OF alloc_room [OF wf run p]] by simp
  then show ?thesis using that run p alloc_wf_alloc [OF wf run] alloc_live_alloc [OF wf run] alloc_page [OF wf run] by simp
qed

lemma dealloc_at:
  assumes wf: "alloc_wf s" and b: "(q, n) \<in> alloc_live s"
  obtains s' where "dealloc q s = (s', None)" "alloc_wf s'" "mapped_page s' = mapped_page s"
    "alloc_live s' = {b \<in> alloc_live s. \<not> (fst b \<le> q \<and> q < fst b + MINALLOC)}"
proof -
  obtain s' m where run: "dealloc q s = (s', m)" by (cases "dealloc q s")
  have "hit s q" using b by (force simp: hit_def MINALLOC_def)
  with wf run have "m = None \<and> mapped_page s' = mapped_page s" by (cases rule: dealloc_cases) auto
  then show ?thesis using that run alloc_wf_dealloc [OF wf run] alloc_live_dealloc [OF wf run] by simp
qed

text \<open>\<open>alloc.h\<close> keeps the allocator contract: every law holds of the code's model.\<close>

interpretation page_heap: allocator "\<lambda>_ n s. Inr (alloc n s)" "\<lambda>p s. Inr (fst (dealloc p s))"
  "\<lambda>_ _. True" alloc_wf alloc_live MINALLOC
proof
  fix s s' :: alloc_state and n p b
  show "\<exists>s' p. Inr (alloc n s) = Inr (s', p)" by (cases "alloc n s") simp
  show "\<exists>s'. Inr (fst (dealloc p s)) = Inr s'" by simp
  show "alloc_wf s'" "alloc_live s' = {b \<in> alloc_live s. \<not> (fst b \<le> p \<and> p < fst b + MINALLOC)}"
    if "alloc_wf s" "Inr (fst (dealloc p s)) = Inr s'"
    using that alloc_wf_dealloc [of s p] alloc_live_dealloc [of s p] by (cases "dealloc p s"; simp)+
  assume run: "Inr (alloc n s) = Inr (s', p)" and wf: "alloc_wf s"
  then show "alloc_wf s'" "alloc_live s' = (if p = NULL then alloc_live s else insert (p, n) (alloc_live s))"
    using alloc_wf_alloc alloc_live_alloc by simp_all
  show "p \<noteq> NULL \<Longrightarrow> b \<in> alloc_live s \<Longrightarrow> apart (p, n) b"
    using alloc_room [OF wf, of n s' p] run by (simp add: room_def)
qed

definition alloc_client :: "unit heap_op \<Rightarrow> alloc_state \<Rightarrow> alloc_state option" where
  "alloc_client = heap_step (\<lambda>_ n s. Inr (alloc n s)) (\<lambda>p s. Inr (fst (dealloc p s))) (\<lambda>_ _. True)"

lemma init_alloc_ok:
  assumes "0 < b"
  shows "alloc_wf (fst (init_alloc b s))" "alloc_live (fst (init_alloc b s)) = {}"
    "mapped_page (fst (init_alloc b s)) = b"
  using assms page_ok_fresh [of NUMCHUNKS]
  by (auto simp: init_alloc_def alloc_wf_def alloc_live_def MAP_FAILED_def Let_def)

text \<open>The states the witnesses start from: a page mapped at address 4096.\<close>

definition page4k :: alloc_state where
  "page4k = fst (init_alloc 4096 alloc_globals)"

lemma page4k [simp]: "alloc_wf page4k" "alloc_live page4k = {}" "mapped_page page4k = 4096"
  by (simp_all add: page4k_def init_alloc_ok)

section \<open>Properties\<close>

text \<open>
  C3: A successful \<open>alloc\<close> returns the lowest place in the page that has room for the request:
  it starts on a chunk, lies inside the page, meets no live block, and every other address
  with room is higher. The request becomes a live block and the state stays well formed.
\<close>

theorem alloc_first_fit:
  assumes "alloc_wf s" and "alloc n s = (s', p)" and "p \<noteq> NULL"
  shows "room s p n \<and> (\<forall>q. room s q n \<longrightarrow> p \<le> q) \<and> alloc_wf s' \<and>
         alloc_live s' = insert (p, n) (alloc_live s) \<and> mapped_page s' = mapped_page s"
proof -
  have "p \<le> q" if "room s q n" for q using alloc_lowest [OF assms that] .
  then show ?thesis
    using assms alloc_room alloc_wf_alloc alloc_live_alloc alloc_page by simp
qed

text \<open>
  \<open>alloc\<close> returns \<open>NULL\<close> exactly when the request is not a positive multiple of 8 of at
  most a page, or no place in the page has room for it; it then changes nothing.
\<close>

theorem alloc_null_iff:
  assumes "alloc_wf s"
  shows "(snd (alloc n s) = NULL \<longleftrightarrow> bad_size n \<or> \<not> (\<exists>q. room s q n)) \<and>
         (snd (alloc n s) = NULL \<longrightarrow> fst (alloc n s) = s)"
proof -
  obtain s' p where run: "alloc n s = (s', p)" by (cases "alloc n s")
  note wf = assms
  have "snd (alloc n s) = NULL \<longleftrightarrow> bad_size n \<or> \<not> (\<exists>q. room s q n)"
    using wf run
  proof (cases rule: alloc_cases)
    case null
    with alloc_null_room [OF wf] run show ?thesis by auto
  next
    case (block i r)
    with alloc_room [OF wf run] run show ?thesis by auto
  qed
  moreover have "fst (alloc n s) = s" if "snd (alloc n s) = NULL"
    using wf run by (cases rule: alloc_cases) (use that run in auto)
  ultimately show ?thesis by blast
qed

text \<open>
  \<open>dealloc\<close> accepts a pointer exactly when it points into the first chunk of a live block,
  and then that block, and no other, stops being live; it refuses every other pointer
  (\<open>NULL\<close>, outside the page, inside a block past its first chunk, already freed) and leaves
  the state as it was.
\<close>

theorem dealloc_frees_block:
  assumes "alloc_wf s" and "dealloc p s = (s', m)"
  shows "alloc_wf s' \<and> (m = None \<longleftrightarrow> (\<exists>b\<in>alloc_live s. fst b \<le> p \<and> p < fst b + MINALLOC)) \<and>
         alloc_live s' = {b \<in> alloc_live s. \<not> (fst b \<le> p \<and> p < fst b + MINALLOC)} \<and>
         (m \<noteq> None \<longrightarrow> s' = s)"
proof -
  have "(m = None \<longleftrightarrow> hit s p) \<and> (m \<noteq> None \<longrightarrow> s' = s)"
    using assms by (cases rule: dealloc_cases) auto
  with alloc_wf_dealloc [OF assms] alloc_live_dealloc [OF assms] show ?thesis
    unfolding hit_def by blast
qed

text \<open>
  C29: Deallocating what \<open>alloc\<close> has just returned restores the allocator's whole state, both
  arrays included.
\<close>

theorem alloc_dealloc_roundtrip:
  assumes "alloc_wf s" and "alloc n s = (s', p)" and "p \<noteq> NULL"
  shows "dealloc p s' = (s, None)"
  using assms(1,2)
proof (cases rule: alloc_cases)
  case (block i r)
  have page: "page_ok NUMCHUNKS (free_chunks s) (alloc_sizes s)"
    using assms(1) by (simp add: alloc_wf_def)
  have i: "i < NUMCHUNKS" using block(3,8) by simp
  then have idx: "nat ((p - mapped_page s) div MINALLOC) = i" "p < mapped_page s + PAGESIZE"
    "mapped_page s \<le> p" using block(5) by (simp_all add: alloc_consts)
  have "alloc_sizes s' ! i = int r"
    using block(10) i page_ok_length [OF page] by simp
  then have "dealloc p s' = (s'\<lparr>free_chunks := set_run (free_chunks s') i r 1,
      alloc_sizes := (alloc_sizes s')[i := 0]\<rparr>, None)"
    using assms(3) idx block(3,8,10) i by (simp add: dealloc_def release_loop_eq)
  also have "\<dots> = (s, None)"
    using block(10) take_release [OF page block(3,8,9)] by simp
  finally show ?thesis .
qed (use assms in simp)

text \<open>
  C10: However a client mixes calls of \<open>alloc\<close> and \<open>dealloc\<close>, with any sizes and any pointers,
  two different live blocks never share a byte.
\<close>

theorem alloc_client_blocks_apart:
  assumes "0 < b" and "exec alloc_client (fst (init_alloc b g)) ops = Some s"
  shows "all_apart (alloc_live s) \<and> alloc_wf s"
  using page_heap.run_apart [of _ ops s] page_heap.exec_inv [of _ ops s] init_alloc_ok [OF assms(1)] assms(2)
  unfolding alloc_client_def by (metis all_apart_empty)

text \<open>
  A live block stays live through any sequence of calls in which no \<open>dealloc\<close> is given a
  pointer into its first chunk: \<open>alloc\<close> never hands out memory that is still in use.
\<close>

theorem alloc_client_keeps_block:
  assumes "alloc_wf s" and "(q, n) \<in> alloc_live s" and "\<forall>a\<in>set ops. \<not> releases MINALLOC q a"
    and "exec alloc_client s ops = Some s'"
  shows "(q, n) \<in> alloc_live s'"
  using page_heap.run_keeps assms unfolding alloc_client_def by metis

text \<open>
  \<open>cleanup\<close> forgets the page but not the two arrays, so an \<open>alloc\<close> after it still succeeds
  and returns the old offset counted from address 0: a pointer into no mapping.
\<close>

theorem alloc_after_cleanup:
  assumes "alloc_wf s" and "alloc n s = (s', p)" and "p \<noteq> NULL"
  shows "alloc n (fst (cleanup 0 s)) = (s'\<lparr>mapped_page := NULL\<rparr>, p - mapped_page s)"
  using assms by (auto simp: alloc_def cleanup_def Let_def split: if_splits option.splits)

section \<open>Witnesses\<close>

lemma alloc_page4k: "alloc 16 page4k =
    (page4k\<lparr>free_chunks := set_run (free_chunks page4k) 0 2 0,
            alloc_sizes := (alloc_sizes page4k)[0 := 2]\<rparr>, 4096)"
proof -
  have "chunks_free (free_chunks page4k) 0 2"
    by (auto simp: page4k_def init_alloc_def MAP_FAILED_def NUMCHUNKS_def chunks_free_offset)
  then have "find_run (free_chunks page4k) NUMCHUNKS 2 0 = Some 0"
    by (simp add: find_run.simps NUMCHUNKS_def)
  then show ?thesis by (simp add: alloc_def alloc_consts)
qed

definition page16 :: alloc_state where "page16 = fst (alloc 16 page4k)"

lemma page16: "alloc 16 page4k = (page16, 4096)" "alloc_wf page16" "(4096, 16) \<in> alloc_live page16"
proof -
  show run: "alloc 16 page4k = (page16, 4096)" by (simp add: page16_def alloc_page4k)
  show "alloc_wf page16" using alloc_wf_alloc [OF _ run] by simp
  show "(4096, 16) \<in> alloc_live page16" using alloc_live_alloc [OF _ run] by simp
qed

theorem alloc_first_fit_witness: "room page4k 4096 16 \<and> alloc_wf page16"
  using alloc_first_fit [OF _ page16(1)] by simp

theorem alloc_null_iff_witness: "snd (alloc 12 page4k) = NULL \<and> fst (alloc 12 page4k) = page4k"
  using alloc_null_iff [of page4k 12] by (simp add: bad_size_def alloc_consts)

theorem dealloc_frees_block_witness: "snd (dealloc 4099 page16) = None"
  using dealloc_frees_block [of page16 4099 "fst (dealloc 4099 page16)" "snd (dealloc 4099 page16)"]
    page16(2,3) by (force simp: MINALLOC_def)

theorem alloc_dealloc_roundtrip_witness: "dealloc 4096 page16 = (page4k, None)"
  using alloc_dealloc_roundtrip [OF _ page16(1)] by simp

theorem alloc_client_blocks_apart_witness:
  "\<exists>s. exec alloc_client (fst (init_alloc 4096 alloc_globals)) [Alloc () 16, Dealloc 4104] = Some s \<and>
       all_apart (alloc_live s)"
proof -
  have "exec alloc_client (fst (init_alloc 4096 alloc_globals)) [Alloc () 16, Dealloc 4104] =
      Some (fst (dealloc 4104 page16))"
    using page16(1) by (simp add: alloc_client_def page4k_def)
  with alloc_client_blocks_apart [OF _ this] show ?thesis by simp
qed

theorem alloc_client_keeps_block_witness:
  "\<exists>s. exec alloc_client page16 [Alloc () 8] = Some s \<and> (4096, 16) \<in> alloc_live s"
proof -
  have "exec alloc_client page16 [Alloc () 8] = Some (fst (alloc 8 page16))"
    by (cases "alloc 8 page16") (simp add: alloc_client_def)
  with alloc_client_keeps_block [OF page16(2,3) _ this] show ?thesis by simp
qed

theorem alloc_after_cleanup_witness: "snd (alloc 16 (fst (cleanup 0 page4k))) = NULL"
  using alloc_after_cleanup [OF _ page16(1)] by simp

end
