(* ===== verification/Ealloc.thy ===== *)
theory Ealloc
  imports Chunks Allocator
begin

text \<open>
  \<open>malloc-code/ealloc.h\<close>: the elastic allocator. It starts with no memory and maps up to four
  pages on demand, each cut into 16 chunks of 256 bytes with its own pair of arrays on the
  heap. \<open>ealloc_state\<close> holds the four globals (an array pointer is \<open>None\<close> where C has
  \<open>NULL\<close>); \<open>e_init_alloc\<close>, \<open>e_alloc\<close>, \<open>e_dealloc\<close>, \<open>e_cleanup\<close> are the four functions.
  What the operating system answers during one \<open>alloc\<close> is an argument.
\<close>

section \<open>State and operations\<close>

definition E_PAGESIZE :: int where "E_PAGESIZE = 4096"
definition E_MINALLOC :: int where "E_MINALLOC = 256"
definition E_NUMCHUNKS :: nat where "E_NUMCHUNKS = 16"
definition MAXPAGES :: nat where "MAXPAGES = 4"

record ealloc_state =
  pages :: "addr list"
  e_free_chunks :: "int list option list"
  e_alloc_sizes :: "int list option list"
  num_pages :: nat

record os_reply =
  mmap_ret :: addr
  malloc_free_ok :: bool
  malloc_sizes_ok :: bool

definition e_init_alloc :: "ealloc_state \<Rightarrow> ealloc_state" where
  "e_init_alloc s = \<lparr>pages = replicate MAXPAGES NULL, e_free_chunks = replicate MAXPAGES None,
     e_alloc_sizes = replicate MAXPAGES None, num_pages = 0\<rparr>"

text \<open>The two outer loops of \<open>alloc\<close>: the first page and chunk where the request fits.\<close>

function e_search :: "ealloc_state \<Rightarrow> nat \<Rightarrow> nat \<Rightarrow> (nat \<times> nat) option outcome" where
  "e_search s r i =
     (if i < num_pages s then
        (case e_free_chunks s ! i of
           None \<Rightarrow> Inl NullDeref
         | Some fs \<Rightarrow>
             (case find_run fs E_NUMCHUNKS r 0 of
                Some j \<Rightarrow> Inr (Some (i, j))
              | None \<Rightarrow> e_search s r (Suc i)))
      else Inr None)"
  by pat_completeness auto
termination
  by (relation "measure (\<lambda>(s, r, i). num_pages s - i)") auto

declare e_search.simps [simp del]

text \<open>The rest of \<open>alloc\<close>: map another page and place the block at its start.\<close>

definition e_new_page :: "os_reply \<Rightarrow> nat \<Rightarrow> ealloc_state \<Rightarrow> (ealloc_state \<times> addr) outcome" where
  "e_new_page e r s =
     (if num_pages s \<ge> MAXPAGES then Inr (s, NULL)
      else if mmap_ret e = MAP_FAILED then Inr (s, NULL)
      else if \<not> malloc_free_ok e \<or> \<not> malloc_sizes_ok e then Inl NullDeref
      else let k = num_pages s in
        Inr (s\<lparr>pages := (pages s)[k := mmap_ret e],
               e_free_chunks := (e_free_chunks s)[k := Some (set_run (replicate E_NUMCHUNKS 1) 0 r 0)],
               e_alloc_sizes := (e_alloc_sizes s)[k := Some ((replicate E_NUMCHUNKS 0)[0 := int r])],
               num_pages := Suc k\<rparr>, mmap_ret e))"

definition e_alloc :: "os_reply \<Rightarrow> int \<Rightarrow> ealloc_state \<Rightarrow> (ealloc_state \<times> addr) outcome" where
  "e_alloc e sz s =
     (if sz \<le> 0 \<or> sz > E_PAGESIZE \<or> sz mod E_MINALLOC \<noteq> 0 then Inr (s, NULL)
      else let r = nat (sz div E_MINALLOC) in
        case e_search s r 0 of
          Inl u \<Rightarrow> Inl u
        | Inr None \<Rightarrow> e_new_page e r s
        | Inr (Some (i, j)) \<Rightarrow>
            (case (e_free_chunks s ! i, e_alloc_sizes s ! i) of
               (Some fs, Some ss) \<Rightarrow>
                 Inr (s\<lparr>e_free_chunks := (e_free_chunks s)[i := Some (set_run fs j r 0)],
                        e_alloc_sizes := (e_alloc_sizes s)[i := Some (ss[j := int r])]\<rparr>,
                      pages s ! i + int j * E_MINALLOC)
             | _ \<Rightarrow> Inl NullDeref))"

datatype e_dealloc_msg = InvalidOrDoubleFree | PointerNotFound

text \<open>The loop of \<open>dealloc\<close>: the page that contains the pointer.\<close>

function e_find_page :: "ealloc_state \<Rightarrow> addr \<Rightarrow> nat \<Rightarrow> nat option" where
  "e_find_page s ptr i =
     (if i < num_pages s then
        (if pages s ! i \<le> ptr \<and> ptr < pages s ! i + E_PAGESIZE then Some i
         else e_find_page s ptr (Suc i))
      else None)"
  by pat_completeness auto
termination
  by (relation "measure (\<lambda>(s, ptr, i). num_pages s - i)") auto

declare e_find_page.simps [simp del]

definition e_dealloc :: "addr \<Rightarrow> ealloc_state \<Rightarrow> (ealloc_state \<times> e_dealloc_msg option) outcome" where
  "e_dealloc ptr s =
     (case e_find_page s ptr 0 of
        None \<Rightarrow> Inr (s, Some PointerNotFound)
      | Some i \<Rightarrow>
          (let chunk = nat ((ptr - pages s ! i) div E_MINALLOC) in
           case e_alloc_sizes s ! i of
             None \<Rightarrow> Inl NullDeref
           | Some ss \<Rightarrow>
               (let sz = ss ! chunk in
                if sz \<le> 0 then Inr (s, Some InvalidOrDoubleFree)
                else (case e_free_chunks s ! i of
                        None \<Rightarrow> Inl NullDeref
                      | Some fs \<Rightarrow>
                          if chunk + nat sz > length fs then Inl OutOfBounds
                          else Inr (s\<lparr>e_free_chunks := (e_free_chunks s)[i := Some (set_run fs chunk (nat sz) 1)],
                                      e_alloc_sizes := (e_alloc_sizes s)[i := Some (ss[chunk := 0])]\<rparr>, None)))))"

text \<open>\<open>cleanup\<close> frees the arrays and forgets the pages, which stay mapped.\<close>

definition e_cleanup :: "ealloc_state \<Rightarrow> ealloc_state" where
  "e_cleanup s = \<lparr>pages = replicate MAXPAGES NULL, e_free_chunks = replicate MAXPAGES None,
     e_alloc_sizes = replicate MAXPAGES None, num_pages = 0\<rparr>"

section \<open>Well-formed states and the live blocks\<close>

lemmas ealloc_consts = E_PAGESIZE_def E_MINALLOC_def E_NUMCHUNKS_def MAXPAGES_def

abbreviation page_mem :: "ealloc_state \<Rightarrow> nat \<Rightarrow> addr \<times> int" where
  "page_mem s i \<equiv> (pages s ! i, E_PAGESIZE)"

definition ealloc_wf :: "ealloc_state \<Rightarrow> bool" where
  "ealloc_wf s \<longleftrightarrow>
     length (pages s) = MAXPAGES \<and> length (e_free_chunks s) = MAXPAGES \<and>
     length (e_alloc_sizes s) = MAXPAGES \<and> num_pages s \<le> MAXPAGES \<and>
     (\<forall>i<num_pages s. 0 < pages s ! i \<and>
        (\<exists>fs ss. e_free_chunks s ! i = Some fs \<and> e_alloc_sizes s ! i = Some ss \<and>
                 page_ok E_NUMCHUNKS fs ss)) \<and>
     (\<forall>i<num_pages s. \<forall>j<num_pages s. i \<noteq> j \<longrightarrow> apart (page_mem s i) (page_mem s j))"

definition page_live :: "ealloc_state \<Rightarrow> nat \<Rightarrow> (addr \<times> int) set" where
  "page_live s i = span (pages s ! i) E_MINALLOC (the (e_alloc_sizes s ! i))"

definition ealloc_live :: "ealloc_state \<Rightarrow> (addr \<times> int) set" where
  "ealloc_live s = (\<Union>i<num_pages s. page_live s i)"

text \<open>
  The documented behaviour of the system calls: \<open>malloc\<close> does not fail (the code does not
  check it), and a successful \<open>mmap\<close> returns memory that overlaps no page mapped before.
\<close>

definition reply_ok :: "os_reply \<Rightarrow> ealloc_state \<Rightarrow> bool" where
  "reply_ok e s \<longleftrightarrow> malloc_free_ok e \<and> malloc_sizes_ok e \<and>
     (mmap_ret e \<noteq> MAP_FAILED \<longrightarrow> 0 < mmap_ret e \<and>
        (\<forall>i<num_pages s. apart (mmap_ret e, E_PAGESIZE) (page_mem s i)))"

definition e_bad_size :: "int \<Rightarrow> bool" where
  "e_bad_size sz \<longleftrightarrow> sz \<le> 0 \<or> sz > E_PAGESIZE \<or> sz mod E_MINALLOC \<noteq> 0"

text \<open>Room for \<open>n\<close> bytes at \<open>q\<close> in the mapped page \<open>i\<close>.\<close>

definition e_room :: "ealloc_state \<Rightarrow> nat \<Rightarrow> addr \<Rightarrow> int \<Rightarrow> bool" where
  "e_room s i q n \<longleftrightarrow> i < num_pages s \<and> pages s ! i \<le> q \<and> q + n \<le> pages s ! i + E_PAGESIZE \<and>
     (q - pages s ! i) mod E_MINALLOC = 0 \<and> (\<forall>b\<in>ealloc_live s. apart (q, n) b)"

lemma E_MINALLOC_pos: "0 < E_MINALLOC"
  by (simp add: E_MINALLOC_def)

lemma ealloc_page:
  assumes "ealloc_wf s" "i < num_pages s"
  obtains fs ss where "e_free_chunks s ! i = Some fs" "e_alloc_sizes s ! i = Some ss"
    "page_ok E_NUMCHUNKS fs ss"
  using assms by (auto simp: ealloc_wf_def)

lemma ealloc_wfD:
  assumes "ealloc_wf s"
  shows "length (pages s) = MAXPAGES" "length (e_free_chunks s) = MAXPAGES"
    "length (e_alloc_sizes s) = MAXPAGES" "num_pages s \<le> MAXPAGES"
    and ealloc_page_pos: "i < num_pages s \<Longrightarrow> 0 < pages s ! i"
    and ealloc_pages_apart:
      "i < num_pages s \<Longrightarrow> j < num_pages s \<Longrightarrow> i \<noteq> j \<Longrightarrow> apart (page_mem s i) (page_mem s j)"
  using assms by (auto simp: ealloc_wf_def)

lemma e_good_size:
  assumes "\<not> e_bad_size n"
  shows "0 < nat (n div E_MINALLOC)" "nat (n div E_MINALLOC) \<le> E_NUMCHUNKS"
    "int (nat (n div E_MINALLOC)) * E_MINALLOC = n"
  using assms by (auto simp: e_bad_size_def ealloc_consts)

text \<open>What the search returns when every mapped page has its arrays.\<close>

lemma e_search_spec:
  assumes "ealloc_wf s"
  shows "(e_search s r i = Inr None \<and>
           (\<forall>k. i \<le> k \<longrightarrow> k < num_pages s \<longrightarrow>
              find_run (the (e_free_chunks s ! k)) E_NUMCHUNKS r 0 = None)) \<or>
         (\<exists>k j. e_search s r i = Inr (Some (k, j)) \<and> k < num_pages s \<and>
            find_run (the (e_free_chunks s ! k)) E_NUMCHUNKS r 0 = Some j \<and>
            (\<forall>l\<ge>i. l < k \<longrightarrow> find_run (the (e_free_chunks s ! l)) E_NUMCHUNKS r 0 = None))"
  using assms
proof (induction s r i rule: e_search.induct)
  case (1 s r i)
  show ?case
  proof (cases "i < num_pages s")
    case True
    then obtain fs where fs: "e_free_chunks s ! i = Some fs" using ealloc_page [OF "1.prems"] by metis
    show ?thesis
    proof (cases "find_run fs E_NUMCHUNKS r 0")
      case None
      from True fs None have "e_search s r i = e_search s r (Suc i)"
        by (simp add: e_search.simps [of s r i])
      with "1.IH" [OF True fs None "1.prems"] True fs None show ?thesis
        by (simp add: all_from_Suc [of i])
    next
      case (Some j)
      with True fs show ?thesis by (auto simp: e_search.simps [of s r i])
    qed
  next
    case False
    then show ?thesis by (simp add: e_search.simps)
  qed
qed

lemma e_alloc_cases:
  assumes wf: "ealloc_wf s" and ok: "reply_ok e s" and run: "e_alloc e n s = Inr (s', p)"
  obtains (null) "p = NULL" "s' = s" "e_bad_size n \<or>
        (\<forall>k<num_pages s. find_run (the (e_free_chunks s ! k)) E_NUMCHUNKS (nat (n div E_MINALLOC)) 0 = None)
        \<and> (num_pages s = MAXPAGES \<or> mmap_ret e = MAP_FAILED)"
  | (old) i j r fs ss where "\<not> e_bad_size n" "r = nat (n div E_MINALLOC)" "0 < r"
      "int r * E_MINALLOC = n" "i < num_pages s"
      "e_free_chunks s ! i = Some fs" "e_alloc_sizes s ! i = Some ss" "page_ok E_NUMCHUNKS fs ss"
      "j + r \<le> E_NUMCHUNKS" "chunks_free fs j r" "p = pages s ! i + int j * E_MINALLOC"
      "s' = s\<lparr>e_free_chunks := (e_free_chunks s)[i := Some (set_run fs j r 0)],
              e_alloc_sizes := (e_alloc_sizes s)[i := Some (ss[j := int r])]\<rparr>"
      "find_run fs E_NUMCHUNKS r 0 = Some j"
      "\<forall>l<i. find_run (the (e_free_chunks s ! l)) E_NUMCHUNKS r 0 = None"
  | (new) r where "\<not> e_bad_size n" "r = nat (n div E_MINALLOC)" "0 < r" "r \<le> E_NUMCHUNKS"
      "int r * E_MINALLOC = n" "num_pages s < MAXPAGES" "mmap_ret e \<noteq> MAP_FAILED" "p = mmap_ret e"
      "\<forall>k<num_pages s. find_run (the (e_free_chunks s ! k)) E_NUMCHUNKS r 0 = None"
      "e_new_page e r s = Inr (s', p)"
proof (cases "e_bad_size n")
  case True
  with run null show ?thesis by (auto simp: e_alloc_def e_bad_size_def)
next
  case good: False
  let ?r = "nat (n div E_MINALLOC)"
  from e_search_spec [OF wf, of ?r 0] show ?thesis
  proof (elim disjE exE conjE)
    assume none: "e_search s ?r 0 = Inr None"
      and all: "\<forall>k\<ge>0. k < num_pages s \<longrightarrow> find_run (the (e_free_chunks s ! k)) E_NUMCHUNKS ?r 0 = None"
    from none good run have np: "e_new_page e ?r s = Inr (s', p)"
      by (auto simp: e_alloc_def e_bad_size_def Let_def)
    show ?thesis
    proof (cases "num_pages s \<ge> MAXPAGES \<or> mmap_ret e = MAP_FAILED")
      case True
      with np all null ealloc_wfD(4) [OF wf] show ?thesis
        by (auto simp: e_new_page_def split: if_splits)
    next
      case False
      with np ok have "p = mmap_ret e" by (auto simp: e_new_page_def reply_ok_def Let_def)
      with False new [OF good refl e_good_size(1,2,3) [OF good]] np all good show ?thesis by auto
    qed
  next
    fix k j
    assume some: "e_search s ?r 0 = Inr (Some (k, j))" and k: "k < num_pages s"
      and j: "find_run (the (e_free_chunks s ! k)) E_NUMCHUNKS ?r 0 = Some j"
      and less: "\<forall>l\<ge>0. l < k \<longrightarrow> find_run (the (e_free_chunks s ! l)) E_NUMCHUNKS ?r 0 = None"
    obtain fs ss where fs: "e_free_chunks s ! k = Some fs" "e_alloc_sizes s ! k = Some ss"
      "page_ok E_NUMCHUNKS fs ss" using ealloc_page [OF wf k] .
    with j find_run_Some [of fs E_NUMCHUNKS ?r 0 j]
    have "j + ?r \<le> E_NUMCHUNKS" "chunks_free fs j ?r" by auto
    moreover from some good run fs
    have "p = pages s ! k + int j * E_MINALLOC"
      "s' = s\<lparr>e_free_chunks := (e_free_chunks s)[k := Some (set_run fs j ?r 0)],
              e_alloc_sizes := (e_alloc_sizes s)[k := Some (ss[j := int ?r])]\<rparr>"
      by (auto simp: e_alloc_def e_bad_size_def Let_def)
    ultimately show ?thesis
      using old [OF good refl e_good_size(1,3) [OF good] k fs] j fs(1) less by simp
  qed
qed

lemma e_alloc_safe:
  assumes wf: "ealloc_wf s" and ok: "reply_ok e s"
  shows "\<exists>s' p. e_alloc e n s = Inr (s', p)"
proof (cases "e_bad_size n")
  case True
  then show ?thesis by (auto simp: e_alloc_def e_bad_size_def)
next
  case False
  with e_search_spec [OF wf, of "nat (n div E_MINALLOC)" 0] ok show ?thesis
    by (auto simp: e_alloc_def e_bad_size_def e_new_page_def reply_ok_def Let_def
        elim: ealloc_page [OF wf])
qed

lemma UN_update:
  fixes i n :: nat
  assumes "i < n" "\<And>k. g k = (if k = i then insert x (f k) else f k)"
  shows "(\<Union>k<n. g k) = insert x (\<Union>k<n. f k)"
  using assms by (auto split: if_splits)

lemma ealloc_wf_alloc:
  assumes wf: "ealloc_wf s" and ok: "reply_ok e s" and run: "e_alloc e n s = Inr (s', p)"
  shows "ealloc_wf s'"
  using wf ok run
proof (cases rule: e_alloc_cases)
  case (old i j r fs ss)
  then have "page_ok E_NUMCHUNKS (set_run fs j r 0) (ss[j := int r])" by (intro page_ok_take)
  with wf old(5,12) show ?thesis by (auto simp: ealloc_wf_def nth_list_update)
next
  case (new r)
  have "chunks_free (replicate E_NUMCHUNKS 1) 0 r"
    using new(4) by (simp add: chunks_free_offset)
  then have "page_ok E_NUMCHUNKS (set_run (replicate E_NUMCHUNKS 1) 0 r 0) ((replicate E_NUMCHUNKS 0)[0 := int r])"
    using page_ok_take [OF page_ok_fresh new(3), of 0 E_NUMCHUNKS] new(4) by simp
  with new(10) ok wf new(6,7) show ?thesis
    by (auto simp: ealloc_wf_def e_new_page_def reply_ok_def Let_def nth_list_update less_Suc_eq apart_sym)
qed (use wf in simp)

lemma ealloc_live_alloc:
  assumes wf: "ealloc_wf s" and ok: "reply_ok e s" and run: "e_alloc e n s = Inr (s', p)"
  shows "ealloc_live s' = (if p = NULL then ealloc_live s else insert (p, n) (ealloc_live s))"
  using wf ok run
proof (cases rule: e_alloc_cases)
  case (old i j r fs ss)
  have "ss ! j = 0"
    using old by (intro page_ok_free_start [OF old(8)]) (auto simp: chunks_free_iff)
  then have "span (pages s ! i) E_MINALLOC (ss[j := int r]) = insert (p, n) (page_live s i)"
    using span_take [of j ss r "pages s ! i" E_MINALLOC] old(3,4,7,9,11) page_ok_length [OF old(8)]
    by (simp add: page_live_def)
  then have "page_live s' k = (if k = i then insert (p, n) (page_live s k) else page_live s k)" for k
    using old(5,7,12) ealloc_wfD(3,4) [OF wf] by (auto simp: page_live_def)
  moreover have "num_pages s' = num_pages s" using old(12) by simp
  ultimately have "ealloc_live s' = insert (p, n) (ealloc_live s)"
    unfolding ealloc_live_def using UN_update [OF old(5)] by metis
  moreover have "p \<noteq> NULL" using ealloc_page_pos [OF wf old(5)] old(11) by (simp add: E_MINALLOC_def)
  ultimately show ?thesis by simp
next
  case (new r)
  from new(10) ok new(6,7) have s': "s' = s\<lparr>pages := (pages s)[num_pages s := p],
      e_free_chunks := (e_free_chunks s)[num_pages s := Some (set_run (replicate E_NUMCHUNKS 1) 0 r 0)],
      e_alloc_sizes := (e_alloc_sizes s)[num_pages s := Some ((replicate E_NUMCHUNKS 0)[0 := int r])],
      num_pages := Suc (num_pages s)\<rparr>"
    by (auto simp: e_new_page_def reply_ok_def Let_def)
  have "page_live s' k = (if k = num_pages s then {(p, n)} else page_live s k)" for k
    using s' ealloc_wfD(1,3) [OF wf] new(3,5,6)
      span_take [of 0 "replicate E_NUMCHUNKS 0" r p E_MINALLOC]
    by (auto simp: page_live_def E_NUMCHUNKS_def)
  then have "ealloc_live s' = insert (p, n) (ealloc_live s)"
    using s' by (auto simp: ealloc_live_def lessThan_Suc)
  moreover have "p \<noteq> NULL" using ok new(7,8) by (simp add: reply_ok_def)
  ultimately show ?thesis by simp
qed simp

lemma page_live_bounds:
  assumes wf: "ealloc_wf s" and i: "i < num_pages s" and b: "b \<in> page_live s i"
  shows "pages s ! i \<le> fst b" "fst b + snd b \<le> pages s ! i + E_PAGESIZE" "E_MINALLOC \<le> snd b"
proof -
  obtain fs ss where "e_alloc_sizes s ! i = Some ss" "page_ok E_NUMCHUNKS fs ss"
    using ealloc_page [OF wf i] by metis
  with span_bounds [OF E_MINALLOC_pos, of E_NUMCHUNKS fs ss b "pages s ! i"] b
  show "pages s ! i \<le> fst b" "fst b + snd b \<le> pages s ! i + E_PAGESIZE" "E_MINALLOC \<le> snd b"
    by (auto simp: page_live_def ealloc_consts)
qed

text \<open>Blocks of different pages are apart; room is a matter of one page's chunks.\<close>

lemma pages_cross_apart:
  assumes wf: "ealloc_wf s" and i: "i < num_pages s" and j: "j < num_pages s" and "i \<noteq> j"
    and b: "b \<in> page_live s j" and q: "pages s ! i \<le> q" "q + n \<le> pages s ! i + E_PAGESIZE"
  shows "apart (q, n) b"
  using ealloc_pages_apart [OF wf i j \<open>i \<noteq> j\<close>] page_live_bounds [OF wf j b] q
  by (auto simp: apart_def)

lemma chunks_free_e_room:
  assumes wf: "ealloc_wf s" and i: "i < num_pages s" and fs: "e_free_chunks s ! i = Some fs"
    and r: "0 < r" "j + r \<le> E_NUMCHUNKS"
  shows "chunks_free fs j r \<longleftrightarrow> e_room s i (pages s ! i + int j * E_MINALLOC) (int r * E_MINALLOC)"
proof -
  let ?q = "pages s ! i + int j * E_MINALLOC" and ?n = "int r * E_MINALLOC"
  have q: "pages s ! i \<le> ?q" "?q + ?n \<le> pages s ! i + E_PAGESIZE"
    using r by (auto simp: ealloc_consts)
  obtain ss where ss: "e_alloc_sizes s ! i = Some ss" "page_ok E_NUMCHUNKS fs ss"
    using ealloc_page [OF wf i] fs by (metis option.inject)
  have "chunks_free fs j r \<longleftrightarrow> (\<forall>b\<in>page_live s i. apart (?q, ?n) b)"
    using chunks_free_span [OF E_MINALLOC_pos ss(2) r] ss(1) by (simp add: page_live_def)
  also have "\<dots> \<longleftrightarrow> (\<forall>b\<in>ealloc_live s. apart (?q, ?n) b)"
    using i pages_cross_apart [OF wf i _ _ _ q] by (auto simp: ealloc_live_def)
  finally show ?thesis using i q by (simp add: e_room_def)
qed

lemma e_find_page_spec:
  "(e_find_page s p i = None \<and>
      (\<forall>k. i \<le> k \<longrightarrow> k < num_pages s \<longrightarrow> \<not> (pages s ! k \<le> p \<and> p < pages s ! k + E_PAGESIZE))) \<or>
   (\<exists>k. e_find_page s p i = Some k \<and> k < num_pages s \<and>
      pages s ! k \<le> p \<and> p < pages s ! k + E_PAGESIZE)"
proof (induction s p i rule: e_find_page.induct)
  case (1 s p i)
  show ?case
  proof (cases "i < num_pages s \<and> \<not> (pages s ! i \<le> p \<and> p < pages s ! i + E_PAGESIZE)")
    case True
    then have "e_find_page s p i = e_find_page s p (Suc i)"
      by (subst e_find_page.simps) auto
    with "1.IH" [OF conjunct1 [OF True] conjunct2 [OF True]] True show ?thesis
      by (simp add: all_from_Suc [of i])
  next
    case False
    then show ?thesis by (auto simp: e_find_page.simps [of s p i])
  qed
qed

text \<open>\<open>e_hit s p\<close>: the pointer \<open>p\<close> points into the first chunk of a live block.\<close>

definition e_hit :: "ealloc_state \<Rightarrow> addr \<Rightarrow> bool" where
  "e_hit s p \<longleftrightarrow> (\<exists>b\<in>ealloc_live s. fst b \<le> p \<and> p < fst b + E_MINALLOC)"

lemma hit_in_page:
  assumes wf: "ealloc_wf s" and k: "k < num_pages s" and b: "b \<in> page_live s k"
    and p: "fst b \<le> p" "p < fst b + E_MINALLOC"
  shows "pages s ! k \<le> p \<and> p < pages s ! k + E_PAGESIZE"
  using page_live_bounds [OF wf k b] p by auto

lemma page_unique:
  assumes wf: "ealloc_wf s" and "i < num_pages s" "k < num_pages s"
    and "pages s ! i \<le> p" "p < pages s ! i + E_PAGESIZE"
    and "pages s ! k \<le> p" "p < pages s ! k + E_PAGESIZE"
  shows "i = k"
  using ealloc_pages_apart [OF wf assms(2,3)] assms by (auto simp: apart_def)

lemma e_hit_page:
  assumes wf: "ealloc_wf s" and i: "i < num_pages s"
    and p: "pages s ! i \<le> p" "p < pages s ! i + E_PAGESIZE"
  shows "e_hit s p \<longleftrightarrow> (\<exists>b\<in>page_live s i. fst b \<le> p \<and> p < fst b + E_MINALLOC)"
proof
  assume "e_hit s p"
  then obtain k b where k: "k < num_pages s" and b: "b \<in> page_live s k"
    and hit: "fst b \<le> p" "p < fst b + E_MINALLOC"
    by (auto simp: e_hit_def ealloc_live_def)
  then have "i = k" using hit_in_page [OF wf k b hit] page_unique [OF wf i k p] by simp
  with b hit show "\<exists>b\<in>page_live s i. fst b \<le> p \<and> p < fst b + E_MINALLOC" by blast
next
  assume "\<exists>b\<in>page_live s i. fst b \<le> p \<and> p < fst b + E_MINALLOC"
  with i show "e_hit s p" by (auto simp: e_hit_def ealloc_live_def)
qed

lemma e_dealloc_cases:
  assumes wf: "ealloc_wf s"
  obtains (refused) m where "e_dealloc p s = Inr (s, Some m)" "\<not> e_hit s p"
  | (freed) i c fs ss where "e_hit s p" "i < num_pages s"
      "pages s ! i \<le> p" "p < pages s ! i + E_PAGESIZE"
      "e_free_chunks s ! i = Some fs" "e_alloc_sizes s ! i = Some ss" "page_ok E_NUMCHUNKS fs ss"
      "c = nat ((p - pages s ! i) div E_MINALLOC)" "c < E_NUMCHUNKS" "0 < ss ! c"
      "e_dealloc p s = Inr (s\<lparr>e_free_chunks := (e_free_chunks s)[i := Some (set_run fs c (nat (ss ! c)) 1)],
         e_alloc_sizes := (e_alloc_sizes s)[i := Some (ss[c := 0])]\<rparr>, None)"
  using e_find_page_spec [of s p 0]
proof (elim disjE exE conjE)
  assume none: "e_find_page s p 0 = None"
    and all: "\<forall>k\<ge>0. k < num_pages s \<longrightarrow> \<not> (pages s ! k \<le> p \<and> p < pages s ! k + E_PAGESIZE)"
  have "\<not> e_hit s p" using hit_in_page [OF wf, of _ _ p] all by (auto simp: e_hit_def ealloc_live_def)
  with none refused show thesis by (auto simp: e_dealloc_def)
next
  fix i
  assume find: "e_find_page s p 0 = Some i" and i: "i < num_pages s"
    and p: "pages s ! i \<le> p" "p < pages s ! i + E_PAGESIZE"
  obtain fs ss where fs: "e_free_chunks s ! i = Some fs" "e_alloc_sizes s ! i = Some ss"
    "page_ok E_NUMCHUNKS fs ss" using ealloc_page [OF wf i] .
  let ?c = "nat ((p - pages s ! i) div E_MINALLOC)"
  have c: "?c < E_NUMCHUNKS" using p by (auto simp: ealloc_consts)
  have hit: "e_hit s p \<longleftrightarrow> 0 < ss ! ?c"
    using e_hit_page [OF wf i p] span_hit_ex [OF E_MINALLOC_pos p(1), of ss] c fs page_ok_length [OF fs(3)]
    by (simp add: page_live_def)
  show thesis
  proof (cases "0 < ss ! ?c")
    case True
    then have "?c + nat (ss ! ?c) \<le> length fs"
      using page_ok_size [OF fs(3) c] page_ok_length [OF fs(3)] by linarith
    with True find fs have "e_dealloc p s = Inr (s\<lparr>e_free_chunks := (e_free_chunks s)[i := Some (set_run fs ?c (nat (ss ! ?c)) 1)],
         e_alloc_sizes := (e_alloc_sizes s)[i := Some (ss[?c := 0])]\<rparr>, None)"
      by (simp add: e_dealloc_def Let_def)
    with freed [of i fs ss ?c] True hit i p fs c show thesis by simp
  next
    case False
    with find fs hit refused show thesis by (auto simp: e_dealloc_def Let_def)
  qed
qed

lemma ealloc_wf_dealloc:
  assumes wf: "ealloc_wf s" and run: "e_dealloc p s = Inr (s', m)"
  shows "ealloc_wf s'"
  using wf
proof (cases rule: e_dealloc_cases [where p = p])
  case (freed i c fs ss)
  then have "page_ok E_NUMCHUNKS (set_run fs c (nat (ss ! c)) 1) (ss[c := 0])"
    by (intro page_ok_release)
  with wf run freed(2,11) show ?thesis by (auto simp: ealloc_wf_def nth_list_update)
qed (use wf run in simp)

lemma ealloc_live_dealloc:
  assumes wf: "ealloc_wf s" and run: "e_dealloc p s = Inr (s', m)"
  shows "ealloc_live s' = {b \<in> ealloc_live s. \<not> (fst b \<le> p \<and> p < fst b + E_MINALLOC)}"
  using wf
proof (cases rule: e_dealloc_cases [where p = p])
  case (freed i c fs ss)
  let ?P = "\<lambda>b. fst b \<le> p \<and> p < fst b + E_MINALLOC"
  have "page_live s' k = {b \<in> page_live s k. \<not> ?P b}" if k: "k < num_pages s" for k
  proof (cases "k = i")
    case True
    have "s' = s\<lparr>e_free_chunks := (e_free_chunks s)[i := Some (set_run fs c (nat (ss ! c)) 1)],
         e_alloc_sizes := (e_alloc_sizes s)[i := Some (ss[c := 0])]\<rparr>" using run freed(11) by simp
    with True span_release [OF E_MINALLOC_pos freed(3), of ss] freed(2,6,8) ealloc_wfD(3,4) [OF wf]
    show ?thesis by (simp add: page_live_def)
  next
    case False
    then have "page_live s' k = page_live s k" using run freed(11) by (auto simp: page_live_def)
    moreover have "\<not> ?P b" if "b \<in> page_live s k" for b
      using hit_in_page [OF wf k that] page_unique [OF wf freed(2) k freed(3,4)] False by auto
    ultimately show ?thesis by blast
  qed
  moreover have "num_pages s' = num_pages s" using run freed(11) by auto
  ultimately show ?thesis by (auto simp: ealloc_live_def)
qed (use run in \<open>auto simp: e_hit_def\<close>)

text \<open>\<open>ealloc.h\<close> keeps the allocator contract as long as the system keeps its own.\<close>

definition e_dealloc_state :: "addr \<Rightarrow> ealloc_state \<Rightarrow> ealloc_state outcome" where
  "e_dealloc_state p s = map_sum id fst (e_dealloc p s)"

interpretation elastic_heap: allocator e_alloc e_dealloc_state reply_ok ealloc_wf ealloc_live E_MINALLOC
proof
  fix s s' :: ealloc_state and e n p b
  assume wf: "ealloc_wf s"
  show "\<exists>s'. e_dealloc_state p s = Inr s'"
    by (rule e_dealloc_cases [OF wf, of p]) (auto simp: e_dealloc_state_def)
  show "ealloc_wf s'" "ealloc_live s' = {b \<in> ealloc_live s. \<not> (fst b \<le> p \<and> p < fst b + E_MINALLOC)}"
    if "e_dealloc_state p s = Inr s'"
    using that ealloc_wf_dealloc [OF wf, of p s'] ealloc_live_dealloc [OF wf, of p s']
    by (cases "e_dealloc p s"; auto simp: e_dealloc_state_def)+
  assume ok: "reply_ok e s"
  then show "\<exists>s' p. e_alloc e n s = Inr (s', p)" by (rule e_alloc_safe [OF wf])
  assume run: "e_alloc e n s = Inr (s', p)"
  show "ealloc_wf s'" "ealloc_live s' = (if p = NULL then ealloc_live s else insert (p, n) (ealloc_live s))"
    using ealloc_wf_alloc [OF wf ok run] ealloc_live_alloc [OF wf ok run] by simp_all
  assume "p \<noteq> NULL" "b \<in> ealloc_live s"
  with wf ok run show "apart (p, n) b"
  proof (cases rule: e_alloc_cases)
    case (old i j r fs ss)
    with chunks_free_e_room [OF wf old(5,6,3,9)] \<open>b \<in> ealloc_live s\<close>
    show ?thesis by (simp add: e_room_def)
  next
    case (new r)
    obtain k where k: "k < num_pages s" "b \<in> page_live s k"
      using \<open>b \<in> ealloc_live s\<close> by (auto simp: ealloc_live_def)
    with ok new(7,8) have "apart (p, E_PAGESIZE) (page_mem s k)" by (simp add: reply_ok_def)
    with page_live_bounds [OF wf k] new(4,5) show ?thesis
      by (auto simp: apart_def ealloc_consts)
  qed simp
qed

definition e_client :: "os_reply heap_op \<Rightarrow> ealloc_state \<Rightarrow> ealloc_state option" where
  "e_client = heap_step e_alloc e_dealloc_state reply_ok"

lemma e_init_ok: "ealloc_wf (e_init_alloc s)" "ealloc_live (e_init_alloc s) = {}"
  by (simp_all add: e_init_alloc_def ealloc_wf_def ealloc_live_def)

text \<open>Searching in chunks is searching for room.\<close>

lemma e_room_chunk:
  assumes wf: "ealloc_wf s" and room: "e_room s i q n" and good: "\<not> e_bad_size n"
  obtains j where "q = pages s ! i + int j * E_MINALLOC"
    "j + nat (n div E_MINALLOC) \<le> E_NUMCHUNKS"
    "chunks_free (the (e_free_chunks s ! i)) j (nat (n div E_MINALLOC))"
proof -
  let ?j = "nat ((q - pages s ! i) div E_MINALLOC)" and ?r = "nat (n div E_MINALLOC)"
  have q: "q = pages s ! i + int ?j * E_MINALLOC" and r: "?j + ?r \<le> E_NUMCHUNKS"
    using room good by (auto simp: e_room_def e_bad_size_def ealloc_consts)
  have i: "i < num_pages s" using room by (simp add: e_room_def)
  obtain fs where fs: "e_free_chunks s ! i = Some fs" using ealloc_page [OF wf i] by metis
  have "chunks_free fs ?j ?r"
    using chunks_free_e_room [OF wf i fs e_good_size(1) [OF good] r] room q e_good_size(3) [OF good]
    by simp
  with that [OF q r] fs show thesis by simp
qed

lemma no_run_no_room:
  assumes wf: "ealloc_wf s" and good: "\<not> e_bad_size n"
    and none: "find_run (the (e_free_chunks s ! i)) E_NUMCHUNKS (nat (n div E_MINALLOC)) 0 = None"
  shows "\<not> e_room s i q n"
proof
  assume "e_room s i q n"
  from e_room_chunk [OF wf this good] none show False by (metis find_run_None le0)
qed

lemma e_alloc_null_room:
  assumes "ealloc_wf s" "reply_ok e s" "e_alloc e n s = Inr (s', NULL)" "\<not> e_bad_size n"
  shows "\<not> e_room s k q n"
  using assms(1-3)
proof (cases rule: e_alloc_cases)
  case null
  then show ?thesis using no_run_no_room [OF assms(1,4)] assms(4) by (auto simp: e_room_def)
next
  case (old i j r fs ss)
  then show ?thesis using ealloc_page_pos [OF assms(1) old(5)] by (simp add: E_MINALLOC_def)
qed (use assms in \<open>simp add: reply_ok_def\<close>)

lemma e_alloc_null_more:
  assumes "ealloc_wf s" "reply_ok e s" "e_alloc e n s = Inr (s', NULL)" "\<not> e_bad_size n"
  shows "num_pages s = MAXPAGES \<or> mmap_ret e = MAP_FAILED"
  using assms(1-3)
proof (cases rule: e_alloc_cases)
  case (old i j r fs ss)
  then show ?thesis using ealloc_page_pos [OF assms(1) old(5)] by (simp add: E_MINALLOC_def)
qed (use assms in \<open>auto simp: reply_ok_def\<close>)

text \<open>Where a successful \<open>alloc\<close> puts the block.\<close>

lemma e_alloc_place:
  assumes wf: "ealloc_wf s" and "reply_ok e s" "e_alloc e n s = Inr (s', p)" "p \<noteq> NULL"
  shows "(\<exists>i. e_room s i p n \<and> num_pages s' = num_pages s \<and> pages s' = pages s \<and>
               (\<forall>k q. e_room s k q n \<longrightarrow> i < k \<or> i = k \<and> p \<le> q)) \<or>
        (\<forall>k q. \<not> e_room s k q n) \<and> p = mmap_ret e \<and> num_pages s' = Suc (num_pages s) \<and>
        pages s' = (pages s)[num_pages s := p]"
using assms(1-3)
proof (cases rule: e_alloc_cases)
  case (old i j r fs ss)
  have "i < k \<or> i = k \<and> p \<le> q" if room: "e_room s k q n" for k q
  proof -
    have "\<not> k < i" using no_run_no_room [OF wf old(1)] room old(2,14) by auto
    moreover have "p \<le> q" if "k = i"
    proof -
      from e_room_chunk [OF wf room old(1)] that obtain l where
        "q = pages s ! i + int l * E_MINALLOC" "chunks_free fs l r"
        using old(2,6) by auto
      with find_run_Some [OF old(13)] old(11) show ?thesis
        by (meson E_MINALLOC_pos add_left_mono leI le0 mult_right_mono of_nat_le_iff order_less_imp_le)
    qed
    ultimately show ?thesis by force
  qed
  moreover have "e_room s i p n"
    using chunks_free_e_room [OF wf old(5,6,3,9)] old(4,10,11) by simp
  moreover have "num_pages s' = num_pages s" "pages s' = pages s" using old(12) by simp_all
  ultimately show ?thesis by blast
next
  case (new r)
  have "\<not> e_room s k q n" for k q
    using no_run_no_room [OF wf new(1)] new(2,9) by (auto simp: e_room_def)
  moreover have "num_pages s' = Suc (num_pages s)" "pages s' = (pages s)[num_pages s := p]"
    using new(6,7,10) assms(2) by (auto simp: e_new_page_def reply_ok_def Let_def)
  ultimately show ?thesis using new(8) by blast
qed (use assms in simp)

text \<open>Where a caller who knows the live blocks finds the next one.\<close>

lemma e_alloc_at:
  assumes wf: "ealloc_wf s" and ok: "reply_ok e s" and good: "\<not> e_bad_size n" and room: "e_room s i q n"
    and low: "\<And>k q'. e_room s k q' n \<Longrightarrow> i < k \<or> i = k \<and> q \<le> q'"
  obtains s' where "e_alloc e n s = Inr (s', q)" "ealloc_wf s'" "ealloc_live s' = insert (q, n) (ealloc_live s)"
    "pages s' = pages s" "num_pages s' = num_pages s"
proof -
  obtain s' p where run: "e_alloc e n s = Inr (s', p)" using e_alloc_safe [OF wf ok] by blast
  have p: "p \<noteq> NULL" using e_alloc_null_room [OF wf ok _ good] room run by blast
  from e_alloc_place [OF wf ok run p] room obtain j where
    j: "e_room s j p n" "num_pages s' = num_pages s" "pages s' = pages s" "j < i \<or> j = i \<and> p \<le> q" by blast
  then have "p = q" using low [OF j(1)] by auto
  then show ?thesis using that [of s'] run j(2,3) p ealloc_wf_alloc [OF wf ok run] ealloc_live_alloc [OF wf ok run] by simp
qed

lemma e_alloc_new_at:
  assumes wf: "ealloc_wf s" and ok: "reply_ok e s" and good: "\<not> e_bad_size n" and none: "\<And>k q. \<not> e_room s k q n"
    and more: "num_pages s < MAXPAGES" "mmap_ret e \<noteq> MAP_FAILED"
  obtains s' where "e_alloc e n s = Inr (s', mmap_ret e)" "ealloc_wf s'"
    "ealloc_live s' = insert (mmap_ret e, n) (ealloc_live s)"
    "pages s' = (pages s)[num_pages s := mmap_ret e]" "num_pages s' = Suc (num_pages s)"
proof -
  obtain s' p where run: "e_alloc e n s = Inr (s', p)" using e_alloc_safe [OF wf ok] by blast
  have p: "p \<noteq> NULL"
  proof
    assume "p = NULL"
    with run have "e_alloc e n s = Inr (s', NULL)" by simp
    from e_alloc_null_more [OF wf ok this good] more show False by simp
  qed
  have place: "p = mmap_ret e \<and> num_pages s' = Suc (num_pages s) \<and> pages s' = (pages s)[num_pages s := p]"
    using e_alloc_place [OF wf ok run p] by (elim disjE) (use none in simp_all)
  then show ?thesis using that [of s'] run p ealloc_wf_alloc [OF wf ok run] ealloc_live_alloc [OF wf ok run] by simp
qed

lemma e_dealloc_at:
  assumes wf: "ealloc_wf s" and b: "(q, n) \<in> ealloc_live s"
  obtains s' where "e_dealloc q s = Inr (s', None)" "ealloc_wf s'" "pages s' = pages s" "num_pages s' = num_pages s"
    "ealloc_live s' = {b \<in> ealloc_live s. \<not> (fst b \<le> q \<and> q < fst b + E_MINALLOC)}"
proof -
  have hit: "e_hit s q" using b by (force simp: e_hit_def E_MINALLOC_def)
  obtain s' m where run: "e_dealloc q s = Inr (s', m)" "m = None" "pages s' = pages s \<and> num_pages s' = num_pages s"
    by (rule e_dealloc_cases [OF wf, of q]) (use hit in auto)
  then show ?thesis using that [of s'] ealloc_wf_dealloc [OF wf run(1)] ealloc_live_dealloc [OF wf run(1)] by simp
qed

section \<open>Properties\<close>

text \<open>
  C7: A successful elastic \<open>alloc\<close> places the block first-fit: in the lowest-numbered page with
  room, at the lowest address of that page with room, and it maps a new page (and uses its
  start) only when no mapped page has room. The block meets no live block, lies inside one
  page, and is the only change to the live blocks; the state stays well formed.
\<close>

theorem e_alloc_first_fit:
  assumes "ealloc_wf s" and "reply_ok e s" and "e_alloc e n s = Inr (s', p)" and "p \<noteq> NULL"
  shows "ealloc_wf s' \<and> ealloc_live s' = insert (p, n) (ealloc_live s) \<and>
         (\<forall>b\<in>ealloc_live s. apart (p, n) b) \<and>
         ((\<exists>i. e_room s i p n \<and> num_pages s' = num_pages s \<and>
               (\<forall>k q. e_room s k q n \<longrightarrow> i < k \<or> i = k \<and> p \<le> q)) \<or>
          (\<forall>k q. \<not> e_room s k q n) \<and> p = mmap_ret e \<and> num_pages s' = Suc (num_pages s))"
proof -
  have "ealloc_live s' = insert (p, n) (ealloc_live s)" using ealloc_live_alloc [OF assms(1-3)] assms(4) by simp
  moreover have "\<forall>b\<in>ealloc_live s. apart (p, n) b" using elastic_heap.alloc_fresh [OF assms] by blast
  ultimately show ?thesis using e_alloc_place [OF assms] ealloc_wf_alloc [OF assms(1-3)] by blast
qed

text \<open>
  The elastic \<open>alloc\<close> returns \<open>NULL\<close> exactly when the request is not a positive multiple of
  256 of at most a page, or no mapped page has room and no further page can be had (four are
  in use, or \<open>mmap\<close> fails); it then changes nothing.
\<close>

theorem e_alloc_null_iff:
  assumes "ealloc_wf s" and "reply_ok e s" and "e_alloc e n s = Inr (s', p)"
  shows "(p = NULL \<longleftrightarrow> e_bad_size n \<or> (\<forall>k q. \<not> e_room s k q n) \<and>
            (num_pages s = MAXPAGES \<or> mmap_ret e = MAP_FAILED)) \<and> (p = NULL \<longrightarrow> s' = s)"
  using assms
proof (cases rule: e_alloc_cases)
  case null
  then show ?thesis
    using no_run_no_room [OF assms(1)] by (auto simp: e_room_def)
next
  case (old i j r fs ss)
  have "e_room s i p n" using chunks_free_e_room [OF assms(1) old(5,6,3,9)] old(4,10,11) by simp
  moreover have "p \<noteq> NULL" using ealloc_page_pos [OF assms(1) old(5)] old(11) by (simp add: E_MINALLOC_def)
  ultimately show ?thesis using old(1) by blast
next
  case (new r)
  with assms(2) have "p \<noteq> NULL" by (simp add: reply_ok_def)
  with new(1,6,7) show ?thesis by simp
qed

text \<open>
  The elastic \<open>dealloc\<close> never reads a missing array or writes past one. It frees the block
  whose first chunk the pointer is in, and that block only; every other pointer is refused
  and changes nothing.
\<close>

theorem e_dealloc_frees_block:
  assumes "ealloc_wf s"
  shows "\<exists>s' m. e_dealloc p s = Inr (s', m) \<and> ealloc_wf s' \<and>
           (m = None \<longleftrightarrow> (\<exists>b\<in>ealloc_live s. fst b \<le> p \<and> p < fst b + E_MINALLOC)) \<and>
           ealloc_live s' = {b \<in> ealloc_live s. \<not> (fst b \<le> p \<and> p < fst b + E_MINALLOC)} \<and>
           (m \<noteq> None \<longrightarrow> s' = s)"
proof -
  obtain s' m where run: "e_dealloc p s = Inr (s', m)" "(m = None \<longleftrightarrow> e_hit s p) \<and> (m \<noteq> None \<longrightarrow> s' = s)"
    by (rule e_dealloc_cases [OF assms, of p]) auto
  with ealloc_wf_dealloc [OF assms run(1)] ealloc_live_dealloc [OF assms run(1)] show ?thesis
    unfolding e_hit_def by blast
qed


text \<open>
  A block of the elastic allocator stays live through every sequence of calls that passes
  no \<open>dealloc\<close> a pointer into its first chunk, page growth included.
\<close>

theorem e_client_keeps_block:
  assumes "ealloc_wf s" and "(q, n) \<in> ealloc_live s" and "\<forall>a\<in>set ops. \<not> releases E_MINALLOC q a"
    and "exec e_client s ops = Some s'"
  shows "(q, n) \<in> ealloc_live s'"
  using elastic_heap.run_keeps assms unfolding e_client_def by metis

section \<open>Witnesses\<close>

definition reply1 :: os_reply where
  "reply1 = \<lparr>mmap_ret = 4096, malloc_free_ok = True, malloc_sizes_ok = True\<rparr>"

definition heap0 :: ealloc_state where
  "heap0 = e_init_alloc \<lparr>pages = [], e_free_chunks = [], e_alloc_sizes = [], num_pages = 0\<rparr>"

lemma heap0: "ealloc_wf heap0" "ealloc_live heap0 = {}" "num_pages heap0 = 0" "reply_ok reply1 heap0"
  by (simp_all add: heap0_def e_init_ok reply_ok_def reply1_def) (simp_all add: e_init_alloc_def)

definition heap1 :: ealloc_state where
  "heap1 = (case e_alloc reply1 512 heap0 of Inr (s, p) \<Rightarrow> s | Inl u \<Rightarrow> heap0)"

lemma heap1_run: "e_alloc reply1 512 heap0 = Inr (heap1, 4096)"
  using heap0(3)
  by (simp add: heap1_def e_alloc_def e_search.simps e_new_page_def ealloc_consts reply1_def MAP_FAILED_def Let_def)

lemma heap1: "ealloc_wf heap1" "(4096, 512) \<in> ealloc_live heap1"
  using ealloc_wf_alloc [OF heap0(1,4) heap1_run] ealloc_live_alloc [OF heap0(1,4) heap1_run] by simp_all

theorem e_alloc_first_fit_witness: "ealloc_live heap1 = {(4096, 512)} \<and> num_pages heap1 = 1"
  using e_alloc_first_fit [OF heap0(1,4) heap1_run] heap0(2,3) by (auto simp: e_room_def)

theorem e_alloc_null_iff_witness: "e_alloc reply1 100 heap0 = Inr (heap0, NULL) \<and> e_bad_size 100"
proof -
  have run: "e_alloc reply1 100 heap0 = Inr (heap0, NULL)" by (simp add: e_alloc_def ealloc_consts)
  show ?thesis
    using e_alloc_null_iff [OF heap0(1,4) run] run heap0(3)
    by (auto simp: ealloc_consts reply1_def MAP_FAILED_def)
qed

theorem e_dealloc_frees_block_witness:
  "\<exists>s'. e_dealloc 4100 heap1 = Inr (s', None) \<and> (4096, 512) \<notin> ealloc_live s'"
  using e_dealloc_frees_block [OF heap1(1), of 4100] heap1(2) by (force simp: E_MINALLOC_def)


theorem e_client_keeps_block_witness:
  "\<exists>s. exec e_client heap1 [Dealloc 4608] = Some s \<and> (4096, 512) \<in> ealloc_live s"
proof -
  obtain s where run: "exec e_client heap1 [Dealloc 4608] = Some s"
    using elastic_heap.call_safe [OF heap1(1), of "Dealloc 4608"] by (auto simp: e_client_def)
  with e_client_keeps_block [OF heap1 _ run] show ?thesis by (simp add: E_MINALLOC_def)
qed

end
