(* ===== verification/CString.thy ===== *)
theory CString
  imports Lab_Prelude
begin

text \<open>
  The part of the C string library that the key-value programs and the shell use, on strings
  as character lists without a terminating NUL: reading a string out of a byte buffer,
  \<open>strncmp\<close>, the \<open>sscanf\<close> conversions \<open>%d\<close>, \<open>%s\<close> and \<open>%[^\n]\<close>, and decimal numerals.
\<close>

section \<open>Characters and buffers\<close>

abbreviation (input) NUL :: char where "NUL \<equiv> CHR 0x00"
abbreviation (input) nl :: char where "nl \<equiv> CHR 0x0A"
abbreviation (input) blank :: char where "blank \<equiv> CHR 0x20"

definition c_isspace :: "char \<Rightarrow> bool" where
  "c_isspace c \<longleftrightarrow> c \<in> {CHR 0x20, CHR 0x09, CHR 0x0A, CHR 0x0B, CHR 0x0C, CHR 0x0D}"

definition c_isdigit :: "char \<Rightarrow> bool" where
  "c_isdigit c \<longleftrightarrow> 48 \<le> (of_char c :: nat) \<and> (of_char c :: nat) \<le> 57"

text \<open>A buffer of \<open>n\<close> bytes cleared with \<open>memset\<close> and then filled from the front.\<close>

definition fill_buffer :: "nat \<Rightarrow> string \<Rightarrow> string" where
  "fill_buffer n data = take n data @ replicate (n - length data) NUL"

text \<open>The C string that starts at offset \<open>off\<close> of a buffer.\<close>

definition cstr :: "string \<Rightarrow> nat \<Rightarrow> string" where
  "cstr buf off = takeWhile (\<lambda>c. c \<noteq> NUL) (drop off buf)"

text \<open>The same where reading past the buffer is noticed: some byte from \<open>off\<close> on has to be NUL.\<close>

definition c_string :: "string \<Rightarrow> nat \<Rightarrow> string outcome" where
  "c_string buf off = (if NUL \<in> set (drop off buf) then Inr (cstr buf off) else Inl OutOfBounds)"

text \<open>\<open>strcpy\<close> into a heap block of \<open>n\<close> bytes, or through the null pointer that a failed \<open>malloc\<close> returned.\<close>

fun c_strcpy :: "nat option \<Rightarrow> string \<Rightarrow> string outcome" where
  "c_strcpy None v = Inl NullDeref"
| "c_strcpy (Some n) v = (if length v < n then Inr v else Inl OutOfBounds)"

definition c_malloc :: "bool \<Rightarrow> nat \<Rightarrow> nat option" where
  "c_malloc ok n = (if ok then Some n else None)"

fun strncmp_eq :: "string \<Rightarrow> string \<Rightarrow> nat \<Rightarrow> bool" where
  "strncmp_eq a b 0 = True"
| "strncmp_eq [] [] (Suc n) = True"
| "strncmp_eq (x # xs) (y # ys) (Suc n) = (x = y \<and> strncmp_eq xs ys n)"
| "strncmp_eq [] (y # ys) (Suc n) = False"
| "strncmp_eq (x # xs) [] (Suc n) = False"

lemma strncmp_eq_take: "strncmp_eq a b n \<longleftrightarrow> take n a = take n b"
  by (induction a b n rule: strncmp_eq.induct) auto

lemma length_fill_buffer [simp]: "length (fill_buffer n data) = n"
  by (simp add: fill_buffer_def)

lemma length_cstr: "length (cstr buf off) \<le> length buf - off"
  unfolding cstr_def by (metis length_drop length_takeWhile_le)

lemma takeWhile_append_stop: "(\<And>y. y \<in> set ys \<Longrightarrow> \<not> P y) \<Longrightarrow> takeWhile P (xs @ ys) = takeWhile P xs"
  by (induction xs) (auto simp: takeWhile_eq_Nil_iff neq_Nil_conv)

lemma cstr_fill:
  assumes "length data \<le> n"
  shows "cstr (fill_buffer n data) off = takeWhile (\<lambda>c. c \<noteq> NUL) (drop off data)"
  unfolding cstr_def fill_buffer_def using assms by (simp, intro takeWhile_append_stop) simp

lemma cstr_fill_buffer:
  assumes "NUL \<notin> set data" "length data \<le> n"
  shows "cstr (fill_buffer n data) off = drop off data"
  using assms in_set_dropD [of NUL off data] by (auto simp: cstr_fill takeWhile_eq_all_conv)

lemma c_string_fill:
  assumes "length data < n" "off < n"
  shows "c_string (fill_buffer n data) off = Inr (cstr (fill_buffer n data) off)"
proof -
  have "\<not> n - 1 < length data" "n - 1 - length data < n - length data" using assms(1) by arith+
  then have "fill_buffer n data ! (n - 1) = NUL" using assms(1) by (simp add: fill_buffer_def nth_append del: One_nat_def)
  moreover have "drop off (fill_buffer n data) ! (n - 1 - off) = fill_buffer n data ! (n - 1)"
    "n - 1 - off < length (drop off (fill_buffer n data))" using assms(2) by simp_all
  ultimately have "NUL \<in> set (drop off (fill_buffer n data))" by (metis nth_mem)
  then show ?thesis by (simp add: c_string_def)
qed

lemma c_strcpy_malloc: "c_strcpy (c_malloc ok (length v + 1)) v = (if ok then Inr v else Inl NullDeref)"
  by (simp add: c_malloc_def)

lemma length_cstr_fill: "length data \<le> n \<Longrightarrow> length (cstr (fill_buffer n data) off) \<le> length data - off"
  by (metis cstr_fill length_drop length_takeWhile_le)

section \<open>Conversions of \<open>sscanf\<close>\<close>

definition skip_space :: "string \<Rightarrow> string" where
  "skip_space = dropWhile c_isspace"

definition digit_val :: "char \<Rightarrow> int" where
  "digit_val c = int (of_char c) - 48"

definition digits_val :: "string \<Rightarrow> int" where
  "digits_val ds = foldl (\<lambda>v c. 10 * v + digit_val c) 0 ds"

text \<open>
  \<open>%d\<close>: white space, an optional sign, at least one digit. \<open>Inr None\<close> is a matching failure;
  a number outside \<open>int\<close> is undefined behaviour (C11 7.21.6.2).
\<close>

definition scan_d :: "string \<Rightarrow> (int \<times> string) option outcome" where
  "scan_d s =
     (let t = skip_space s;
          neg = (t \<noteq> [] \<and> hd t = CHR ''-'');
          u = (if t \<noteq> [] \<and> hd t \<in> {CHR ''-'', CHR ''+''} then tl t else t);
          ds = takeWhile c_isdigit u;
          v = (if neg then - digits_val ds else digits_val ds) in
      if ds = [] then Inr None
      else if fits_int v then Inr (Some (v, dropWhile c_isdigit u))
      else Inl IntOverflow)"

text \<open>\<open>atoi\<close>: what \<open>%d\<close> would read, 0 where that is nothing, and undefined outside \<open>int\<close>.\<close>

definition atoi :: "string \<Rightarrow> int outcome" where
  "atoi s = seq (scan_d s) (\<lambda>r. Inr (case r of None \<Rightarrow> 0 | Some (v, _) \<Rightarrow> v))"

text \<open>\<open>%s\<close>: white space, then at least one character that is not white space.\<close>

definition scan_s :: "string \<Rightarrow> (string \<times> string) option" where
  "scan_s s =
     (let t = skip_space s; w = takeWhile (\<lambda>c. \<not> c_isspace c) t in
      if w = [] then None else Some (w, dropWhile (\<lambda>c. \<not> c_isspace c) t))"

text \<open>\<open>" %[^\n]"\<close>: white space, then at least one character up to the end of the line.\<close>

definition scan_rest_of_line :: "string \<Rightarrow> string option" where
  "scan_rest_of_line s =
     (let w = takeWhile (\<lambda>c. c \<noteq> nl) (skip_space s) in if w = [] then None else Some w)"

lemma length_scan_rest_of_line: "scan_rest_of_line s = Some v \<Longrightarrow> length v \<le> length s"
  by (auto simp: scan_rest_of_line_def skip_space_def Let_def split: if_splits
      intro: order_trans [OF length_takeWhile_le] length_dropWhile_le)

lemma length_scan_d: "scan_d s = Inr (Some (k, rest)) \<Longrightarrow> length rest < length s"
proof -
  assume "scan_d s = Inr (Some (k, rest))"
  then obtain u where u: "u = skip_space s \<or> u = tl (skip_space s)" "takeWhile c_isdigit u \<noteq> []"
    "rest = dropWhile c_isdigit u"
    by (auto simp: scan_d_def Let_def split: if_splits)
  have "length (takeWhile c_isdigit u) + length (dropWhile c_isdigit u) = length u"
    by (metis length_append takeWhile_dropWhile_id)
  moreover have "length (skip_space s) \<le> length s"
    unfolding skip_space_def by (rule length_dropWhile_le)
  moreover have "0 < length (takeWhile c_isdigit u)" using u(2) by simp
  moreover have "length u \<le> length (skip_space s)" using u(1) by auto
  moreover have "length rest = length (dropWhile c_isdigit u)" using u(3) by simp
  ultimately show ?thesis by linarith
qed

section \<open>Decimal numerals\<close>

definition digit_char :: "nat \<Rightarrow> char" where
  "digit_char d = char_of (48 + d)"

fun show_nat :: "nat \<Rightarrow> string" where
  "show_nat n = (if n < 10 then [digit_char n] else show_nat (n div 10) @ [digit_char (n mod 10)])"

declare show_nat.simps [simp del]

definition show_int :: "int \<Rightarrow> string" where
  "show_int k = (if k < 0 then CHR ''-'' # show_nat (nat (- k)) else show_nat (nat k))"

lemma digit_char:
  assumes "d < 10"
  shows "c_isdigit (digit_char d)" "digit_val (digit_char d) = int d"
  using assms by (auto simp: c_isdigit_def digit_val_def digit_char_def of_char_of)

lemma digits_val_snoc: "digits_val (ds @ [c]) = 10 * digits_val ds + digit_val c"
  by (simp add: digits_val_def)

lemma show_nat:
  "show_nat n \<noteq> [] \<and> (\<forall>c\<in>set (show_nat n). c_isdigit c) \<and> digits_val (show_nat n) = int n"
proof (induction n rule: show_nat.induct)
  case (1 n)
  show ?case
  proof (cases "n < 10")
    case True
    then show ?thesis
      using digit_char [OF True] by (subst (1 2 3) show_nat.simps) (simp add: digits_val_def)
  next
    case False
    have "n mod 10 < 10" by simp
    note d = digit_char [OF this]
    have "show_nat n = show_nat (n div 10) @ [digit_char (n mod 10)]"
      using False by (subst show_nat.simps) simp
    moreover have "10 * int (n div 10) + int (n mod 10) = int n"
      by (metis mult_div_mod_eq of_nat_add of_nat_mult of_nat_numeral)
    ultimately show ?thesis using "1.IH" [OF False] d by (simp add: digits_val_snoc)
  qed
qed

lemma isdigit_not:
  assumes "c_isdigit c"
  shows "\<not> c_isspace c" "c \<noteq> NUL" "c \<noteq> nl" "c \<noteq> CHR ''-''" "c \<noteq> CHR ''+''"
  using assms by (auto simp: c_isdigit_def c_isspace_def)

text \<open>\<open>%d\<close> reads back what was printed, up to the first character that is no digit.\<close>

lemma scan_d_show_int:
  assumes k: "fits_int k" and rest: "rest = [] \<or> \<not> c_isdigit (hd rest)"
  shows "scan_d (show_int k @ rest) = Inr (Some (k, rest))"
proof -
  have split: "takeWhile c_isdigit (show_nat n @ rest) = show_nat n"
    "dropWhile c_isdigit (show_nat n @ rest) = rest" for n
    using show_nat [of n] rest by (cases rest; auto simp: takeWhile_append dropWhile_append)+
  obtain d ds where d: "show_nat (nat k) = d # ds" using show_nat [of "nat k"] by (cases "show_nat (nat k)") auto
  then have "c_isdigit d" using show_nat [of "nat k"] by simp
  note d_not = isdigit_not [OF this]
  show ?thesis
  proof (cases "k < 0")
    case True
    with split [of "nat (- k)"] show_nat [of "nat (- k)"] k show ?thesis
      by (simp add: scan_d_def show_int_def skip_space_def c_isspace_def Let_def)
  next
    case False
    with split [of "nat k"] show_nat [of "nat k"] k d d_not show ?thesis
      by (simp add: scan_d_def show_int_def skip_space_def Let_def)
  qed
qed

lemma show_int_chars: "c \<in> set (show_int k) \<Longrightarrow> c_isdigit c \<or> c = CHR ''-''"
  using show_nat by (auto simp: show_int_def split: if_splits)

lemma show_int_no_NUL: "NUL \<notin> set (show_int k)"
  using show_int_chars [of NUL k] isdigit_not(2) [of NUL] by auto

lemma scan_rest_of_line_word:
  assumes "v \<noteq> []" "\<not> c_isspace (hd v)" "nl \<notin> set v"
  shows "scan_rest_of_line (blank # v) = Some v"
proof -
  have "skip_space (blank # v) = v"
    using assms(1,2) by (cases v) (simp_all add: skip_space_def c_isspace_def)
  moreover have "takeWhile (\<lambda>c. c \<noteq> nl) v = v" using assms(3) by (auto simp: takeWhile_eq_all_conv)
  ultimately show ?thesis using assms(1) by (simp only: scan_rest_of_line_def Let_def if_False)
qed

lemma length_show_nat: "n < 10 ^ Suc d \<Longrightarrow> length (show_nat n) \<le> Suc d"
proof (induction d arbitrary: n)
  case 0
  then show ?case by (subst show_nat.simps) simp
next
  case (Suc d)
  show ?case
  proof (cases "n < 10")
    case True
    then show ?thesis by (subst show_nat.simps) simp
  next
    case False
    from Suc.prems have "n div 10 < 10 ^ Suc d" by (simp add: less_mult_imp_div_less mult.commute)
    from Suc.IH [OF this] False show ?thesis by (subst show_nat.simps) simp
  qed
qed

lemma length_show_int:
  assumes "fits_int k"
  shows "length (show_int k) \<le> 11"
proof -
  have b: "nat k < 10 ^ Suc 9" "nat (- k) < 10 ^ Suc 9"
    using assms by (auto simp: fits_int_def INT_MIN_def INT_MAX_def nat_less_iff)
  from length_show_nat [OF b(1)] length_show_nat [OF b(2)] show ?thesis
    by (simp add: show_int_def)
qed

section \<open>Lines of input\<close>

text \<open>\<open>fgets\<close> with room for \<open>n\<close> characters: up to and including the first newline.\<close>

fun fgets :: "nat \<Rightarrow> string \<Rightarrow> string \<times> string" where
  "fgets 0 s = ([], s)"
| "fgets (Suc n) [] = ([], [])"
| "fgets (Suc n) (c # s) = (if c = nl then ([c], s) else let (a, b) = fgets n s in (c # a, b))"

text \<open>A line that fits is read whole, up to its newline.\<close>

lemma fgets_line:
  assumes "nl \<notin> set s" "length s < n"
  shows "fgets n (s @ nl # rest) = (s @ [nl], rest)"
  using assms by (induction s arbitrary: n) (case_tac n, auto)+

lemma fgets_split: "fst (fgets n s) @ snd (fgets n s) = s"
  by (induction n s rule: fgets.induct) (auto simp: case_prod_beta Let_def)

lemma length_fgets: "length (fst (fgets n s)) \<le> n"
  by (induction n s rule: fgets.induct) (auto simp: case_prod_beta Let_def)

lemma fgets_progress: "s \<noteq> [] \<Longrightarrow> 0 < n \<Longrightarrow> length (snd (fgets n s)) < length s \<and> fst (fgets n s) \<noteq> []"
proof -
  assume a: "s \<noteq> []" "0 < n"
  then obtain m c r where "n = Suc m" "s = c # r" by (cases n; cases s) auto
  then have ne: "fst (fgets n s) \<noteq> []" by (simp add: case_prod_beta Let_def)
  have "length (fst (fgets n s)) + length (snd (fgets n s)) = length s" using fgets_split [of n s] by (metis length_append)
  then show ?thesis using ne by (cases "fst (fgets n s)") auto
qed

end
