(* ===== verification/KvStore.thy ===== *)
theory KvStore
  imports CString
begin

text \<open>
  The table of \<open>kv-server/kv-server.c\<close>: an array of 100 key-value pairs of which the first
  \<open>kv_count\<close> are in use, and its four operations. A value is the string in the heap block its
  pointer names. Whether a \<open>malloc\<close> succeeds is an argument: the code does not check it.
\<close>

section \<open>State and operations\<close>

definition MAX_PAIRS :: nat where "MAX_PAIRS = 100"

record kv_pair =
  kv_key :: int
  kv_value :: string

record kv_state =
  store :: "kv_pair list"
  kv_count :: nat

definition kv_init :: kv_state where
  "kv_init = \<lparr>store = replicate MAX_PAIRS \<lparr>kv_key = 0, kv_value = []\<rparr>, kv_count = 0\<rparr>"

definition msg_ok :: string where "msg_ok = ''OK'' @ [nl]"
definition msg_exists :: string where "msg_exists = ''Error: Key already exists'' @ [nl]"
definition msg_full :: string where "msg_full = ''Error: Store full'' @ [nl]"
definition msg_not_found :: string where "msg_not_found = ''Error: Key not found'' @ [nl]"

text \<open>Access to a cell of \<open>store\<close>, which notices an index outside the array.\<close>

definition get_pair :: "nat \<Rightarrow> kv_state \<Rightarrow> kv_pair outcome" where
  "get_pair i st = (if i < length (store st) then Inr (store st ! i) else Inl OutOfBounds)"

definition put_pair :: "nat \<Rightarrow> (kv_pair \<Rightarrow> kv_pair) \<Rightarrow> kv_state \<Rightarrow> kv_state outcome" where
  "put_pair i f st = seq (get_pair i st) (\<lambda>p. Inr (st\<lparr>store := (store st)[i := f p]\<rparr>))"

text \<open>The search loop all four operations start with.\<close>

function kv_find :: "kv_state \<Rightarrow> int \<Rightarrow> nat \<Rightarrow> nat option outcome" where
  "kv_find st k i =
     (if i < kv_count st then
        seq (get_pair i st) (\<lambda>p. if kv_key p = k then Inr (Some i) else kv_find st k (Suc i))
      else Inr None)"
  by pat_completeness auto
termination
  by (relation "measure (\<lambda>(st, k, i). kv_count st - i)") auto

declare kv_find.simps [simp del]

definition handle_create :: "bool \<Rightarrow> int \<Rightarrow> string \<Rightarrow> kv_state \<Rightarrow> (kv_state \<times> string) outcome" where
  "handle_create malloc_ok k v st =
     seq (kv_find st k 0) (\<lambda>r.
       if r \<noteq> None then Inr (st, msg_exists)
       else if kv_count st \<ge> MAX_PAIRS then Inr (st, msg_full)
       else
         seq (put_pair (kv_count st) (\<lambda>p. p\<lparr>kv_key := k\<rparr>) st) (\<lambda>st.
         seq (c_strcpy (c_malloc malloc_ok (length v + 1)) v) (\<lambda>value.
         seq (put_pair (kv_count st) (\<lambda>p. p\<lparr>kv_value := value\<rparr>) st) (\<lambda>st.
           Inr (st\<lparr>kv_count := Suc (kv_count st)\<rparr>, msg_ok)))))"

definition read_value :: "int \<Rightarrow> kv_state \<Rightarrow> string option outcome" where
  "read_value k st =
     seq (kv_find st k 0) (\<lambda>r. case r of
         None \<Rightarrow> Inr None
       | Some i \<Rightarrow> seq (get_pair i st) (\<lambda>p. Inr (Some (kv_value p))))"

definition update_value :: "bool \<Rightarrow> int \<Rightarrow> string \<Rightarrow> kv_state \<Rightarrow> (kv_state \<times> string) outcome" where
  "update_value malloc_ok k v st =
     seq (kv_find st k 0) (\<lambda>r. case r of
         None \<Rightarrow> Inr (st, msg_not_found)
       | Some i \<Rightarrow>
           seq (c_strcpy (c_malloc malloc_ok (length v + 1)) v) (\<lambda>value.
           seq (put_pair i (\<lambda>p. p\<lparr>kv_value := value\<rparr>) st) (\<lambda>st. Inr (st, msg_ok))))"

definition delete_value :: "int \<Rightarrow> kv_state \<Rightarrow> (kv_state \<times> string) outcome" where
  "delete_value k st =
     seq (kv_find st k 0) (\<lambda>r. case r of
         None \<Rightarrow> Inr (st, msg_not_found)
       | Some i \<Rightarrow>
           seq (get_pair (kv_count st - 1) st) (\<lambda>p.
           seq (put_pair i (\<lambda>_. p) st) (\<lambda>st. Inr (st\<lparr>kv_count := kv_count st - 1\<rparr>, msg_ok))))"

section \<open>The specification: a finite map of bounded size\<close>

datatype kv_op = Create int string | Read int | Update int string | Delete int

datatype kv_result = Msg string | Value string | Missing

text \<open>One operation as the server's \<open>main\<close> calls it.\<close>

fun kv_exec :: "bool \<Rightarrow> kv_op \<Rightarrow> kv_state \<Rightarrow> (kv_state \<times> kv_result) outcome" where
  "kv_exec mok (Create k v) st = map_sum id (apsnd Msg) (handle_create mok k v st)"
| "kv_exec mok (Read k) st =
     seq (read_value k st) (\<lambda>r. Inr (st, case r of None \<Rightarrow> Missing | Some v \<Rightarrow> Value v))"
| "kv_exec mok (Update k v) st = map_sum id (apsnd Msg) (update_value mok k v st)"
| "kv_exec mok (Delete k) st = map_sum id (apsnd Msg) (delete_value k st)"

fun kv_spec :: "kv_op \<Rightarrow> (int \<rightharpoonup> string) \<Rightarrow> (int \<rightharpoonup> string) \<times> kv_result" where
  "kv_spec (Create k v) m =
     (if k \<in> dom m then (m, Msg msg_exists)
      else if card (dom m) \<ge> MAX_PAIRS then (m, Msg msg_full)
      else (m(k \<mapsto> v), Msg msg_ok))"
| "kv_spec (Read k) m = (m, case m k of None \<Rightarrow> Missing | Some v \<Rightarrow> Value v)"
| "kv_spec (Update k v) m =
     (if k \<in> dom m then (m(k \<mapsto> v), Msg msg_ok) else (m, Msg msg_not_found))"
| "kv_spec (Delete k) m =
     (if k \<in> dom m then (m(k := None), Msg msg_ok) else (m, Msg msg_not_found))"

section \<open>Invariant and abstraction\<close>

definition kv_used :: "kv_state \<Rightarrow> (int \<times> string) list" where
  "kv_used st = map (\<lambda>p. (kv_key p, kv_value p)) (take (kv_count st) (store st))"

definition kv_map :: "kv_state \<Rightarrow> (int \<rightharpoonup> string)" where
  "kv_map st = map_of (kv_used st)"

definition kv_wf :: "kv_state \<Rightarrow> bool" where
  "kv_wf st \<longleftrightarrow> length (store st) = MAX_PAIRS \<and> kv_count st \<le> MAX_PAIRS \<and>
     (\<forall>i<kv_count st. \<forall>j<kv_count st. kv_key (store st ! i) = kv_key (store st ! j) \<longrightarrow> i = j)"

lemma kv_init [simp]: "kv_wf kv_init" "kv_map kv_init = Map.empty"
  by (simp_all add: kv_wf_def kv_init_def kv_map_def kv_used_def)

section \<open>On a well-formed table every access is within the array\<close>

function kv_search :: "kv_state \<Rightarrow> int \<Rightarrow> nat \<Rightarrow> nat option" where
  "kv_search st k i =
     (if i < kv_count st then
        (if kv_key (store st ! i) = k then Some i else kv_search st k (Suc i))
      else None)"
  by pat_completeness auto
termination
  by (relation "measure (\<lambda>(st, k, i). kv_count st - i)") auto

declare kv_search.simps [simp del]

lemma kv_search_Some: "kv_search st k i = Some j \<Longrightarrow> j < kv_count st \<and> kv_key (store st ! j) = k"
  by (induction st k i rule: kv_search.induct) (subst (asm) (2) kv_search.simps, auto split: if_splits)

lemma kv_search_None: "kv_search st k i = None \<longleftrightarrow> (\<forall>j\<ge>i. j < kv_count st \<longrightarrow> kv_key (store st ! j) \<noteq> k)"
proof (induction st k i rule: kv_search.induct)
  case (1 st k i)
  then show ?case by (subst kv_search.simps) (auto simp: all_from_Suc [of i])
qed

lemma kv_find_ok: "kv_wf st \<Longrightarrow> kv_find st k i = Inr (kv_search st k i)"
proof (induction st k i rule: kv_search.induct)
  case (1 st k i)
  have "i < length (store st)" if "i < kv_count st" using that "1.prems" by (simp add: kv_wf_def)
  then show ?case using 1 by (subst kv_find.simps, subst kv_search.simps) (simp add: get_pair_def)
qed

lemma table_ok_defs:
  assumes "kv_wf st"
  shows "handle_create mok k v st =
     (if kv_search st k 0 \<noteq> None then Inr (st, msg_exists)
      else if kv_count st \<ge> MAX_PAIRS then Inr (st, msg_full)
      else if \<not> mok then Inl NullDeref
      else Inr (st\<lparr>store := (store st)[kv_count st := \<lparr>kv_key = k, kv_value = v\<rparr>],
                  kv_count := Suc (kv_count st)\<rparr>, msg_ok))"
    "read_value k st = Inr (case kv_search st k 0 of None \<Rightarrow> None | Some i \<Rightarrow> Some (kv_value (store st ! i)))"
    "update_value mok k v st =
     (case kv_search st k 0 of
        None \<Rightarrow> Inr (st, msg_not_found)
      | Some i \<Rightarrow>
          if \<not> mok then Inl NullDeref
          else Inr (st\<lparr>store := (store st)[i := (store st ! i)\<lparr>kv_value := v\<rparr>]\<rparr>, msg_ok))"
    "delete_value k st =
     (case kv_search st k 0 of
        None \<Rightarrow> Inr (st, msg_not_found)
      | Some i \<Rightarrow> Inr (st\<lparr>store := (store st)[i := store st ! (kv_count st - 1)], kv_count := kv_count st - 1\<rparr>, msg_ok))"
proof -
  have len: "length (store st) = MAX_PAIRS" "kv_count st \<le> MAX_PAIRS" using assms by (simp_all add: kv_wf_def)
  have i: "i < length (store st)" if "kv_search st k 0 = Some i" for i using kv_search_Some [OF that] len by simp
  have last: "kv_count st - 1 < length (store st)" using len by (simp add: MAX_PAIRS_def)
  have p: "p\<lparr>kv_key := k, kv_value := v\<rparr> = \<lparr>kv_key = k, kv_value = v\<rparr>" for p :: kv_pair by (cases p) simp
  note defs = kv_find_ok [OF assms] put_pair_def get_pair_def c_malloc_def
  show "handle_create mok k v st =
     (if kv_search st k 0 \<noteq> None then Inr (st, msg_exists)
      else if kv_count st \<ge> MAX_PAIRS then Inr (st, msg_full)
      else if \<not> mok then Inl NullDeref
      else Inr (st\<lparr>store := (store st)[kv_count st := \<lparr>kv_key = k, kv_value = v\<rparr>],
                  kv_count := Suc (kv_count st)\<rparr>, msg_ok))"
    using len by (simp add: handle_create_def defs p)
  show "read_value k st = Inr (case kv_search st k 0 of None \<Rightarrow> None | Some i \<Rightarrow> Some (kv_value (store st ! i)))"
    using i by (auto simp: read_value_def defs split: option.split)
  show "update_value mok k v st =
     (case kv_search st k 0 of
        None \<Rightarrow> Inr (st, msg_not_found)
      | Some i \<Rightarrow>
          if \<not> mok then Inl NullDeref
          else Inr (st\<lparr>store := (store st)[i := (store st ! i)\<lparr>kv_value := v\<rparr>]\<rparr>, msg_ok))"
    using i by (auto simp: update_value_def defs split: option.split)
  show "delete_value k st =
     (case kv_search st k 0 of
        None \<Rightarrow> Inr (st, msg_not_found)
      | Some i \<Rightarrow> Inr (st\<lparr>store := (store st)[i := store st ! (kv_count st - 1)], kv_count := kv_count st - 1\<rparr>, msg_ok))"
    using i last by (auto simp: delete_value_def defs split: option.split)
qed

lemma kv_map_Some:
  assumes "kv_wf st"
  shows "kv_map st k = Some v \<longleftrightarrow>
    (\<exists>i<kv_count st. kv_key (store st ! i) = k \<and> kv_value (store st ! i) = v)"
proof -
  have len: "length (kv_used st) = kv_count st" using assms by (simp add: kv_used_def kv_wf_def)
  have nth: "kv_used st ! i = (kv_key (store st ! i), kv_value (store st ! i))" if "i < kv_count st" for i
    using that assms by (simp add: kv_used_def kv_wf_def)
  have "distinct (map fst (kv_used st))"
    using assms len nth by (auto simp: distinct_conv_nth kv_wf_def)
  then have "kv_map st k = Some v \<longleftrightarrow> (k, v) \<in> set (kv_used st)"
    by (simp add: kv_map_def map_of_eq_Some_iff)
  also have "\<dots> \<longleftrightarrow> (\<exists>i<kv_count st. kv_key (store st ! i) = k \<and> kv_value (store st ! i) = v)"
    using len nth by (auto simp: in_set_conv_nth)
  finally show ?thesis .
qed

lemma kv_map_eqI:
  assumes "kv_wf st"
    and "\<And>k v. (\<exists>i<kv_count st. kv_key (store st ! i) = k \<and> kv_value (store st ! i) = v) \<longleftrightarrow> m k = Some v"
  shows "kv_map st = m"
proof
  fix k
  have "kv_map st k = Some v \<longleftrightarrow> m k = Some v" for v
    using kv_map_Some [OF assms(1), of k v] assms(2) [of k v] by (rule trans)
  then show "kv_map st k = m k" by (metis not_Some_eq)
qed

lemma kv_dom:
  assumes "kv_wf st"
  shows "k \<in> dom (kv_map st) \<longleftrightarrow> kv_search st k 0 \<noteq> None"
  using kv_map_Some [OF assms] by (auto simp: kv_search_None)

lemma kv_card:
  assumes "kv_wf st"
  shows "card (dom (kv_map st)) = kv_count st"
proof -
  have "dom (kv_map st) = (\<lambda>i. kv_key (store st ! i)) ` {..<kv_count st}"
    using kv_map_Some [OF assms] by (auto simp: image_iff)
  moreover have "inj_on (\<lambda>i. kv_key (store st ! i)) {..<kv_count st}"
    using assms by (auto simp: inj_on_def kv_wf_def)
  ultimately show ?thesis by (simp add: card_image)
qed

lemma kv_search_map:
  assumes "kv_wf st" "kv_search st k 0 = Some i"
  shows "i < kv_count st" "kv_key (store st ! i) = k" "kv_map st k = Some (kv_value (store st ! i))"
  using kv_search_Some [OF assms(2)] kv_map_Some [OF assms(1)] by auto

section \<open>Every operation keeps the invariant and does what the map specification says\<close>

lemma handle_create_new:
  assumes wf: "kv_wf st" and k: "kv_search st k 0 = None" and room: "kv_count st < MAX_PAIRS"
    and st': "st' = st\<lparr>store := (store st)[kv_count st := \<lparr>kv_key = k, kv_value = v\<rparr>],
                     kv_count := Suc (kv_count st)\<rparr>"
  shows "kv_wf st'" "kv_map st' = (kv_map st)(k \<mapsto> v)"
proof -
  have len: "length (store st) = MAX_PAIRS" using wf by (simp add: kv_wf_def)
  have at: "store st' ! i = (if i = kv_count st then \<lparr>kv_key = k, kv_value = v\<rparr> else store st ! i)"
    if "i < kv_count st'" for i
    using that len room st' by simp
  have at_new: "store st' ! kv_count st = \<lparr>kv_key = k, kv_value = v\<rparr>"
    and at_old: "\<And>i. i < kv_count st \<Longrightarrow> store st' ! i = store st ! i"
    using at st' by auto
  have new: "\<forall>j<kv_count st. kv_key (store st ! j) \<noteq> k" using k by (simp add: kv_search_None)
  show wf': "kv_wf st'"
    using wf room new at st' unfolding kv_wf_def
    by (auto simp: less_Suc_eq nth_list_update split: if_splits) 
  show "kv_map st' = (kv_map st)(k \<mapsto> v)"
  proof (rule kv_map_eqI [OF wf'])
    fix k' v'
    have "(\<exists>i<kv_count st'. kv_key (store st' ! i) = k' \<and> kv_value (store st' ! i) = v') \<longleftrightarrow>
          (\<exists>i<Suc (kv_count st). kv_key (store st' ! i) = k' \<and> kv_value (store st' ! i) = v')"
      using st' by simp
    also have "\<dots> \<longleftrightarrow> k = k' \<and> v = v' \<or>
        (\<exists>i<kv_count st. kv_key (store st ! i) = k' \<and> kv_value (store st ! i) = v')"
      unfolding Ex_less_Suc using at_new at_old by auto
    also have "\<dots> \<longleftrightarrow> ((kv_map st)(k \<mapsto> v)) k' = Some v'"
      using new kv_map_Some [OF wf, of k' v'] by auto
    finally show "(\<exists>i<kv_count st'. kv_key (store st' ! i) = k' \<and> kv_value (store st' ! i) = v') \<longleftrightarrow>
          ((kv_map st)(k \<mapsto> v)) k' = Some v'" .
  qed
qed

lemma update_value_found:
  assumes wf: "kv_wf st" and i: "kv_search st k 0 = Some i"
    and st': "st' = st\<lparr>store := (store st)[i := (store st ! i)\<lparr>kv_value := v\<rparr>]\<rparr>"
  shows "kv_wf st'" "kv_map st' = (kv_map st)(k \<mapsto> v)"
proof -
  note f = kv_search_map [OF wf i]
  have len: "length (store st) = MAX_PAIRS" "kv_count st \<le> MAX_PAIRS" using wf by (simp_all add: kv_wf_def)
  have key: "kv_key (store st' ! j) = kv_key (store st ! j)"
    and val: "kv_value (store st' ! j) = (if j = i then v else kv_value (store st ! j))"
    if "j < kv_count st" for j
  proof -
    have "j < length (store st)" using that len by simp
    with st' show "kv_key (store st' ! j) = kv_key (store st ! j)"
      "kv_value (store st' ! j) = (if j = i then v else kv_value (store st ! j))"
      by (cases "j = i"; simp)+
  qed
  show wf': "kv_wf st'" using wf key st' by (simp add: kv_wf_def)
  have uniq: "j = i" if "j < kv_count st" "kv_key (store st ! j) = k" for j
    using wf that f(1,2) by (auto simp: kv_wf_def)
  show "kv_map st' = (kv_map st)(k \<mapsto> v)"
  proof (rule kv_map_eqI [OF wf'])
    fix k' v'
    have "(\<exists>j<kv_count st'. kv_key (store st' ! j) = k' \<and> kv_value (store st' ! j) = v') \<longleftrightarrow>
      (\<exists>j<kv_count st. kv_key (store st ! j) = k' \<and> (if j = i then v else kv_value (store st ! j)) = v')"
      using key val st' by auto
    also have "\<dots> \<longleftrightarrow> ((kv_map st)(k \<mapsto> v)) k' = Some v'"
    proof (cases "k' = k")
      case True
      have "(\<exists>j<kv_count st. kv_key (store st ! j) = k \<and> (if j = i then v else kv_value (store st ! j)) = v') \<longleftrightarrow> v = v'"
        using f(1,2) uniq by metis
      with True show ?thesis by simp
    next
      case False
      with f(2) have "kv_key (store st ! j) = k' \<and> (if j = i then v else kv_value (store st ! j)) = v' \<longleftrightarrow>
          kv_key (store st ! j) = k' \<and> kv_value (store st ! j) = v'" for j by auto
      with False show ?thesis by (simp add: kv_map_Some [OF wf, of k' v'])
    qed
    finally show "(\<exists>j<kv_count st'. kv_key (store st' ! j) = k' \<and> kv_value (store st' ! j) = v') \<longleftrightarrow>
      ((kv_map st)(k \<mapsto> v)) k' = Some v'" .
  qed
qed

lemma delete_value_found:
  assumes wf: "kv_wf st" and i: "kv_search st k 0 = Some i"
    and st': "st' = st\<lparr>store := (store st)[i := store st ! (kv_count st - 1)],
                     kv_count := kv_count st - 1\<rparr>"
  shows "kv_wf st'" "kv_map st' = (kv_map st)(k := None)"
proof -
  note f = kv_search_map [OF wf i]
  let ?n = "kv_count st - 1"
  have len: "length (store st) = MAX_PAIRS" "kv_count st \<le> MAX_PAIRS" using wf by (simp_all add: kv_wf_def)
  have at: "store st' ! j = store st ! (if j = i then ?n else j)" if "j < ?n" for j
    using that len st' by (auto simp: nth_list_update)
  have inj: "j = l" if "j < kv_count st" "l < kv_count st" "kv_key (store st ! j) = kv_key (store st ! l)" for j l
    using wf that by (auto simp: kv_wf_def)
  have pick: "j < ?n \<Longrightarrow> (if j = i then ?n else j) < kv_count st" for j by auto
  have "j = l" if "j < ?n" "l < ?n" "kv_key (store st' ! j) = kv_key (store st' ! l)" for j l
  proof -
    have "(if j = i then ?n else j) = (if l = i then ?n else l)"
      using inj [OF pick [OF that(1)] pick [OF that(2)]] that(3) at [OF that(1)] at [OF that(2)] by simp
    with that(1,2) show ?thesis by (auto split: if_splits)
  qed
  then show wf': "kv_wf st'" using len st' by (auto simp: kv_wf_def)
  show "kv_map st' = (kv_map st)(k := None)"
  proof (rule kv_map_eqI [OF wf'])
    fix k' v'
    have "(\<exists>j<?n. kv_key (store st' ! j) = k' \<and> kv_value (store st' ! j) = v') \<longleftrightarrow>
          (\<exists>j<kv_count st. j \<noteq> i \<and> kv_key (store st ! j) = k' \<and> kv_value (store st ! j) = v')"
    proof
      assume "\<exists>j<?n. kv_key (store st' ! j) = k' \<and> kv_value (store st' ! j) = v'"
      then obtain j where j: "j < ?n" "kv_key (store st' ! j) = k'" "kv_value (store st' ! j) = v'" by blast
      with at [OF j(1)] pick [OF j(1)] show "\<exists>j<kv_count st. j \<noteq> i \<and> kv_key (store st ! j) = k' \<and> kv_value (store st ! j) = v'"
        by (intro exI [of _ "if j = i then ?n else j"]) auto
    next
      assume "\<exists>j<kv_count st. j \<noteq> i \<and> kv_key (store st ! j) = k' \<and> kv_value (store st ! j) = v'"
      then obtain j where j: "j < kv_count st" "j \<noteq> i" "kv_key (store st ! j) = k'" "kv_value (store st ! j) = v'"
        by blast
      then have "(if j = ?n then i else j) < ?n" using f(1) by auto
      with at [OF this] j show "\<exists>j<?n. kv_key (store st' ! j) = k' \<and> kv_value (store st' ! j) = v'"
        by (intro exI [of _ "if j = ?n then i else j"]) auto
    qed
    also have "\<dots> \<longleftrightarrow> ((kv_map st)(k := None)) k' = Some v'"
      using inj f(1,2) kv_map_Some [OF wf, of k' v'] by auto
    finally show "(\<exists>j<kv_count st'. kv_key (store st' ! j) = k' \<and> kv_value (store st' ! j) = v') \<longleftrightarrow>
        ((kv_map st)(k := None)) k' = Some v'" using st' by simp
  qed
qed

lemma kv_exec_refines:
  assumes wf: "kv_wf st"
  shows "\<exists>st' r. kv_exec True x st = Inr (st', r) \<and> kv_wf st' \<and> kv_spec x (kv_map st) = (kv_map st', r)"
proof (cases x)
  case (Create k v)
  show ?thesis
  proof (cases "kv_search st k 0 = None \<and> kv_count st < MAX_PAIRS")
    case True
    from handle_create_new [OF wf conjunct1 [OF True] conjunct2 [OF True] refl, of v] True Create show ?thesis
      by (auto simp: table_ok_defs [OF wf] kv_dom [OF wf] kv_card [OF wf])
  next
    case False
    with Create wf show ?thesis by (auto simp: table_ok_defs [OF wf] kv_dom [OF wf] kv_card [OF wf])
  qed
next
  case (Read k)
  show ?thesis
  proof (cases "kv_search st k 0")
    case None
    then have "kv_map st k = None" using kv_dom [OF wf, of k] by auto
    with None Read wf show ?thesis by (simp add: table_ok_defs [OF wf])
  next
    case (Some i)
    with kv_search_map [OF wf Some] Read wf show ?thesis by (simp add: table_ok_defs [OF wf])
  qed
next
  case (Update k v)
  show ?thesis
  proof (cases "kv_search st k 0")
    case None
    with Update wf show ?thesis by (simp add: table_ok_defs [OF wf] kv_dom [OF wf])
  next
    case (Some i)
    from update_value_found [OF wf Some refl, of v] Some Update show ?thesis
      by (simp add: table_ok_defs [OF wf] kv_dom [OF wf])
  qed
next
  case (Delete k)
  show ?thesis
  proof (cases "kv_search st k 0")
    case None
    with Delete wf show ?thesis by (simp add: table_ok_defs [OF wf] kv_dom [OF wf])
  next
    case (Some i)
    from delete_value_found [OF wf Some refl] Some Delete show ?thesis
      by (simp add: table_ok_defs [OF wf] kv_dom [OF wf])
  qed
qed

interpretation table: refinement "kv_exec True" kv_spec kv_map kv_wf
  by unfold_locales (rule kv_exec_refines)

section \<open>Properties\<close>

text \<open>
  C1: Whatever sequence of create, read, update and delete calls is made on a well-formed table,
  every answer is the one the specification gives, where the table is a finite map that holds
  at most 100 keys: the moves of the last array cell on delete, the stale cells and the
  duplicate check are invisible. No call has undefined behaviour while \<open>malloc\<close> succeeds, and
  no two used cells ever hold the same key.
\<close>

theorem kv_table_refines_map:
  assumes "kv_wf st"
  shows "\<exists>st' rs. run_ops (kv_exec True) st ops = Inr (st', rs) \<and> kv_wf st' \<and>
           run_spec kv_spec (kv_map st) ops = (kv_map st', rs)"
  using assms by (rule table.run_refines)

theorem kv_table_refines_map_witness:
  "\<exists>st'. run_ops (kv_exec True) kv_init [Create 1 ''a'', Create 2 ''b'', Delete 1, Read 2, Read 1] =
      Inr (st', [Msg msg_ok, Msg msg_ok, Msg msg_ok, Value ''b'', Missing])"
  using kv_table_refines_map [of kv_init "[Create 1 ''a'', Create 2 ''b'', Delete 1, Read 2, Read 1]"]
  by (auto simp: MAX_PAIRS_def)

end
