(* ===== verification/KvServer.thy ===== *)
theory KvServer
  imports KvStore
begin

text \<open>
  The request loop of \<open>kv-server/kv-server.c\<close> (\<open>main\<close>): one client at a time, one \<open>read\<close> per
  request, the command recognised by its prefix, its arguments by \<open>sscanf\<close>. The bytes each
  \<open>read\<close> returns are arguments; the bytes each \<open>write\<close> sends are results.
\<close>

section \<open>One request\<close>

definition BUFFER_SIZE :: nat where "BUFFER_SIZE = 1024"

definition err_create :: string where "err_create = ''Error: Invalid create command'' @ [nl]"
definition err_find :: string where "err_find = ''Error: Invalid find command'' @ [nl]"
definition err_update :: string where "err_update = ''Error: Invalid update command'' @ [nl]"
definition err_delete :: string where "err_delete = ''Error: Invalid delete command'' @ [nl]"
definition err_unknown :: string where "err_unknown = ''Error: Unknown command'' @ [nl]"

text \<open>
  \<open>sscanf(s, "%d %[^\n]", &key, value) == 2\<close> with \<open>value\<close> an array of \<open>BUFFER_SIZE\<close> bytes: a
  longer line would be written past it.
\<close>

definition scan_key_value :: "string \<Rightarrow> (int \<times> string) option outcome" where
  "scan_key_value s =
     seq (scan_d s) (\<lambda>r. case r of
         None \<Rightarrow> Inr None
       | Some (k, rest) \<Rightarrow>
           (case scan_rest_of_line rest of
              None \<Rightarrow> Inr None
            | Some v \<Rightarrow> if length v \<ge> BUFFER_SIZE then Inl OutOfBounds else Inr (Some (k, v))))"

definition value_reply :: "string \<Rightarrow> string" where
  "value_reply v = take (BUFFER_SIZE - 1) (''Value: '' @ v @ [nl])"

text \<open>
  The buffer as the \<open>strncmp\<close> calls see it, which look at ten bytes at most; \<open>sscanf\<close> reads on to a NUL.
\<close>

definition command_of :: "string \<Rightarrow> string outcome" where
  "command_of buf = (if length buf < 10 \<and> NUL \<notin> set buf then Inl OutOfBounds else Inr (cstr buf 0))"

text \<open>The body of the inner loop: new table, reply, and whether the connection is closed.\<close>

definition handle_request :: "bool \<Rightarrow> string \<Rightarrow> kv_state \<Rightarrow> (kv_state \<times> string \<times> bool) outcome" where
  "handle_request malloc_ok buf st =
     seq (command_of buf) (\<lambda>cmd.
      if strncmp_eq cmd ''create'' 6 then
        seq (c_string buf 7) (\<lambda>s. seq (scan_key_value s) (\<lambda>r. case r of
            Some (k, v) \<Rightarrow> seq (handle_create malloc_ok k v st) (\<lambda>(st', m). Inr (st', m, False))
          | None \<Rightarrow> Inr (st, err_create, False)))
      else if strncmp_eq cmd ''read'' 3 then
        seq (c_string buf 4) (\<lambda>s. seq (scan_d s) (\<lambda>r. case r of
            Some (k, _) \<Rightarrow>
              seq (read_value k st) (\<lambda>value. case value of
                 Some v \<Rightarrow> Inr (st, value_reply v, False)
               | None \<Rightarrow> Inr (st, msg_not_found, False))
          | None \<Rightarrow> Inr (st, err_find, False)))
      else if strncmp_eq cmd ''update'' 6 then
        seq (c_string buf 7) (\<lambda>s. seq (scan_key_value s) (\<lambda>r. case r of
            Some (k, v) \<Rightarrow> seq (update_value malloc_ok k v st) (\<lambda>(st', m). Inr (st', m, False))
          | None \<Rightarrow> Inr (st, err_update, False)))
      else if strncmp_eq cmd ''delete'' 6 then
        seq (c_string buf 7) (\<lambda>s. seq (scan_d s) (\<lambda>r. case r of
            Some (k, _) \<Rightarrow> seq (delete_value k st) (\<lambda>(st', m). Inr (st', m, False))
          | None \<Rightarrow> Inr (st, err_delete, False)))
      else if strncmp_eq cmd ''disconnect'' 10 then Inr (st, msg_ok, True)
      else Inr (st, err_unknown, False))"

section \<open>One connection, all connections\<close>

text \<open>
  A connection is the list of its successful reads, each with the outcome of the \<open>malloc\<close> its
  request may make; the list ends where \<open>read\<close> returns 0 or fails.
\<close>

type_synonym reads = "(bool \<times> string) list"

fun serve_conn :: "reads \<Rightarrow> kv_state \<Rightarrow> (kv_state \<times> string list) outcome" where
  "serve_conn [] st = Inr (st, [])"
| "serve_conn ((mok, data) # rs) st =
     seq (handle_request mok (fill_buffer BUFFER_SIZE data) st) (\<lambda>(st', reply, closed).
       if closed then Inr (st', [reply])
       else seq (serve_conn rs st') (\<lambda>(st'', replies). Inr (st'', reply # replies)))"

fun serve_clients :: "reads list \<Rightarrow> kv_state \<Rightarrow> (kv_state \<times> string list list) outcome" where
  "serve_clients [] st = Inr (st, [])"
| "serve_clients (c # cs) st =
     seq (serve_conn c st) (\<lambda>(st', replies).
       seq (serve_clients cs st') (\<lambda>(st'', rest). Inr (st'', replies # rest)))"

text \<open>What \<open>read(fd, buffer, BUFFER_SIZE - 1)\<close> can return when it returns a positive count.\<close>

definition read_ok :: "string \<Rightarrow> bool" where
  "read_ok data \<longleftrightarrow> 0 < length data \<and> length data \<le> BUFFER_SIZE - 1"

section \<open>Requests as operations on the table\<close>

datatype request = Do kv_op | Refuse string | Disconnect

definition request_of :: "string \<Rightarrow> request outcome" where
  "request_of buf =
     seq (command_of buf) (\<lambda>cmd.
      if strncmp_eq cmd ''create'' 6 then
        seq (seq (c_string buf 7) scan_key_value) (\<lambda>r. Inr (case r of Some (k, v) \<Rightarrow> Do (Create k v) | None \<Rightarrow> Refuse err_create))
      else if strncmp_eq cmd ''read'' 3 then
        seq (seq (c_string buf 4) scan_d) (\<lambda>r. Inr (case r of Some (k, _) \<Rightarrow> Do (Read k) | None \<Rightarrow> Refuse err_find))
      else if strncmp_eq cmd ''update'' 6 then
        seq (seq (c_string buf 7) scan_key_value) (\<lambda>r. Inr (case r of Some (k, v) \<Rightarrow> Do (Update k v) | None \<Rightarrow> Refuse err_update))
      else if strncmp_eq cmd ''delete'' 6 then
        seq (seq (c_string buf 7) scan_d) (\<lambda>r. Inr (case r of Some (k, _) \<Rightarrow> Do (Delete k) | None \<Rightarrow> Refuse err_delete))
      else if strncmp_eq cmd ''disconnect'' 10 then Inr Disconnect
      else Inr (Refuse err_unknown))"

fun reply_of :: "kv_result \<Rightarrow> string" where
  "reply_of (Msg m) = m"
| "reply_of (Value v) = value_reply v"
| "reply_of Missing = msg_not_found"

fun perform :: "bool \<Rightarrow> request \<Rightarrow> kv_state \<Rightarrow> (kv_state \<times> string \<times> bool) outcome" where
  "perform mok (Do x) st = seq (kv_exec mok x st) (\<lambda>(st', r). Inr (st', reply_of r, False))"
| "perform mok (Refuse m) st = Inr (st, m, False)"
| "perform mok Disconnect st = Inr (st, msg_ok, True)"

lemma seq_map_sum: "seq (map_sum id f m) g = seq m (\<lambda>x. g (f x))"
  by (cases m) auto

lemma seq_assoc: "seq (seq m f) g = seq m (\<lambda>x. seq (f x) g)"
  by (cases m) auto

lemma seq_if: "seq (if b then x else y) f = (if b then seq x f else seq y f)"
  by simp

lemma seq_request:
  "seq (seq m (\<lambda>r. Inr (f r))) g = seq m (\<lambda>r. g (f r))"
  by (cases m) auto

lemma handle_request_perform: "handle_request mok buf st = seq (request_of buf) (\<lambda>q. perform mok q st)"
proof -
  let ?kv = "seq (c_string buf 7) scan_key_value" and ?d4 = "seq (c_string buf 4) scan_d" and ?d7 = "seq (c_string buf 7) scan_d"
  have create: "seq ?kv (\<lambda>r. perform mok (case r of Some (k, v) \<Rightarrow> Do (Create k v) | None \<Rightarrow> Refuse e) st) =
      seq ?kv (\<lambda>r. case r of
            Some (k, v) \<Rightarrow> seq (handle_create mok k v st) (\<lambda>(st', m). Inr (st', m, False))
          | None \<Rightarrow> Inr (st, e, False))" for e
    by (rule seq_cong) (auto simp: seq_map_sum case_prod_unfold split: option.split)
  have update: "seq ?kv (\<lambda>r. perform mok (case r of Some (k, v) \<Rightarrow> Do (Update k v) | None \<Rightarrow> Refuse e) st) =
      seq ?kv (\<lambda>r. case r of
            Some (k, v) \<Rightarrow> seq (update_value mok k v st) (\<lambda>(st', m). Inr (st', m, False))
          | None \<Rightarrow> Inr (st, e, False))" for e
    by (rule seq_cong) (auto simp: seq_map_sum case_prod_unfold split: option.split)
  have read: "seq ?d4 (\<lambda>r. perform mok (case r of Some (k, _) \<Rightarrow> Do (Read k) | None \<Rightarrow> Refuse e) st) =
      seq ?d4 (\<lambda>r. case r of
            Some (k, _) \<Rightarrow> seq (read_value k st) (\<lambda>value. case value of Some v \<Rightarrow> Inr (st, value_reply v, False)
                             | None \<Rightarrow> Inr (st, msg_not_found, False))
          | None \<Rightarrow> Inr (st, e, False))" for e
    by (rule seq_cong) (auto simp: seq_assoc intro!: seq_cong split: option.split)
  have delete: "seq ?d7 (\<lambda>r. perform mok (case r of Some (k, _) \<Rightarrow> Do (Delete k) | None \<Rightarrow> Refuse e) st) =
      seq ?d7 (\<lambda>r. case r of
            Some (k, _) \<Rightarrow> seq (delete_value k st) (\<lambda>(st', m). Inr (st', m, False))
          | None \<Rightarrow> Inr (st, e, False))" for e
    by (rule seq_cong) (auto simp: seq_map_sum case_prod_unfold split: option.split)
  show ?thesis
  proof (cases "command_of buf")
    case (Inr cmd)
    show ?thesis
      unfolding handle_request_def request_of_def Inr seq.simps seq_assoc [symmetric] seq_if seq_request create read update delete
        perform.simps ..
  qed (simp add: handle_request_def request_of_def)
qed

text \<open>A buffer that a \<open>read\<close> has filled ends in a NUL, so nothing is read behind it.\<close>

lemma filled_buffer:
  assumes "length data \<le> BUFFER_SIZE - 1"
  shows "command_of (fill_buffer BUFFER_SIZE data) = Inr (cstr (fill_buffer BUFFER_SIZE data) 0)"
    "off \<le> 7 \<Longrightarrow> c_string (fill_buffer BUFFER_SIZE data) off = Inr (cstr (fill_buffer BUFFER_SIZE data) off)"
proof -
  have len: "length data < BUFFER_SIZE" using assms by (simp add: BUFFER_SIZE_def)
  show "command_of (fill_buffer BUFFER_SIZE data) = Inr (cstr (fill_buffer BUFFER_SIZE data) 0)"
    by (simp add: command_of_def) (simp add: BUFFER_SIZE_def)
  show "off \<le> 7 \<Longrightarrow> c_string (fill_buffer BUFFER_SIZE data) off = Inr (cstr (fill_buffer BUFFER_SIZE data) off)"
    using c_string_fill [OF len, of off] by (simp add: BUFFER_SIZE_def)
qed

lemma request_of_filled:
  assumes "length data \<le> BUFFER_SIZE - 1"
  defines "buf \<equiv> fill_buffer BUFFER_SIZE data"
  shows "request_of buf =
     (let cmd = cstr buf 0 in
      if strncmp_eq cmd ''create'' 6 then
        seq (scan_key_value (cstr buf 7)) (\<lambda>r. Inr (case r of Some (k, v) \<Rightarrow> Do (Create k v) | None \<Rightarrow> Refuse err_create))
      else if strncmp_eq cmd ''read'' 3 then
        seq (scan_d (cstr buf 4)) (\<lambda>r. Inr (case r of Some (k, _) \<Rightarrow> Do (Read k) | None \<Rightarrow> Refuse err_find))
      else if strncmp_eq cmd ''update'' 6 then
        seq (scan_key_value (cstr buf 7)) (\<lambda>r. Inr (case r of Some (k, v) \<Rightarrow> Do (Update k v) | None \<Rightarrow> Refuse err_update))
      else if strncmp_eq cmd ''delete'' 6 then
        seq (scan_d (cstr buf 7)) (\<lambda>r. Inr (case r of Some (k, _) \<Rightarrow> Do (Delete k) | None \<Rightarrow> Refuse err_delete))
      else if strncmp_eq cmd ''disconnect'' 10 then Inr Disconnect
      else Inr (Refuse err_unknown))"
  unfolding request_of_def buf_def filled_buffer(1) [OF assms(1)] seq.simps Let_def
  using filled_buffer(2) [OF assms(1), of 4] filled_buffer(2) [OF assms(1), of 7] by simp

text \<open>Bounds: the scanned value is shorter than the buffer, whatever the request.\<close>

lemma scan_d_Inl: "scan_d s = Inl u \<Longrightarrow> u = IntOverflow"
  by (auto simp: scan_d_def Let_def split: if_splits)

lemma scan_key_value_cases:
  assumes "length s \<le> n" "n \<le> BUFFER_SIZE"
  obtains (overflow) "scan_key_value s = Inl IntOverflow" | (bad) "scan_key_value s = Inr None"
  | (ok) k v where "scan_key_value s = Inr (Some (k, v))" "length v < n"
proof (cases "scan_d s")
  case (Inl u)
  with scan_d_Inl overflow show ?thesis by (simp add: scan_key_value_def)
next
  case (Inr r)
  show ?thesis
  proof (cases r)
    case None
    with Inr bad show ?thesis by (simp add: scan_key_value_def)
  next
    case (Some p)
    then obtain k rest where d: "scan_d s = Inr (Some (k, rest))" using Inr by (cases p) simp
    show ?thesis
    proof (cases "scan_rest_of_line rest")
      case None
      with d bad show ?thesis by (simp add: scan_key_value_def)
    next
      case (Some v)
      have "length v < n"
        using length_scan_d [OF d] length_scan_rest_of_line [OF Some] assms by simp
      with d Some ok assms show ?thesis by (simp add: scan_key_value_def)
    qed
  qed
qed

text \<open>
  The longest value that can be stored: 1023 bytes read, less the 7 of the command and the at
  least one digit of the key.
\<close>

definition MAX_VALUE :: nat where "MAX_VALUE = 1015"

fun small :: "request \<Rightarrow> bool" where
  "small (Do (Create k v)) = (length v \<le> MAX_VALUE)"
| "small (Do (Update k v)) = (length v \<le> MAX_VALUE)"
| "small q = True"

definition small_or_overflow :: "request outcome \<Rightarrow> bool" where
  "small_or_overflow m \<longleftrightarrow> (case m of Inl u \<Rightarrow> u = IntOverflow | Inr q \<Rightarrow> small q)"

lemma small_if:
  "small_or_overflow a \<Longrightarrow> small_or_overflow b \<Longrightarrow> small_or_overflow (if c then a else b)"
  by simp

lemma small_kv:
  assumes "length s \<le> Suc MAX_VALUE" and "\<And>k v. small (Do (f k v)) \<longleftrightarrow> length v \<le> MAX_VALUE"
  shows "small_or_overflow (seq (scan_key_value s)
           (\<lambda>r. Inr (case r of Some (k, v) \<Rightarrow> Do (f k v) | None \<Rightarrow> Refuse e)))"
  by (rule scan_key_value_cases [OF assms(1)])
     (use assms(2) in \<open>auto simp: small_or_overflow_def MAX_VALUE_def BUFFER_SIZE_def\<close>)

lemma small_d:
  assumes "\<And>k. small (Do (f k))"
  shows "small_or_overflow (seq (scan_d s)
           (\<lambda>r. Inr (case r of Some (k, _) \<Rightarrow> Do (f k) | None \<Rightarrow> Refuse e)))"
  using assms by (cases "scan_d s") (auto simp: small_or_overflow_def dest: scan_d_Inl split: option.split)

lemma request_of_small:
  assumes "length data \<le> BUFFER_SIZE - 1"
  shows "small_or_overflow (request_of (fill_buffer BUFFER_SIZE data))"
proof -
  have "length (cstr (fill_buffer BUFFER_SIZE data) 7) \<le> Suc MAX_VALUE"
    using length_cstr_fill [of data BUFFER_SIZE 7] assms by (simp add: BUFFER_SIZE_def MAX_VALUE_def)
  then show ?thesis
    unfolding request_of_filled [OF assms] Let_def
    by (intro small_if small_kv small_d) (simp_all add: small_or_overflow_def)
qed

text \<open>The values a table holds fit a reply.\<close>

definition kv_small :: "kv_state \<Rightarrow> bool" where
  "kv_small st \<longleftrightarrow> (\<forall>k v. kv_map st k = Some v \<longrightarrow> length v \<le> MAX_VALUE)"

lemma value_reply_full: "length v \<le> MAX_VALUE \<Longrightarrow> value_reply v = ''Value: '' @ v @ [nl]"
  by (simp add: value_reply_def BUFFER_SIZE_def MAX_VALUE_def)

lemma perform_keeps:
  assumes wf: "kv_wf st" "kv_small st" and q: "small q" and run: "perform mok q st = Inr (st', reply, c)"
  shows "kv_wf st' \<and> kv_small st'"
proof (cases q)
  case (Do x)
  with run have "\<exists>r. kv_exec mok x st = Inr (st', r)" by (auto simp: seq_Inr)
  then obtain r where r: "kv_exec True x st = Inr (st', r)"
    by (cases x) (auto simp: table_ok_defs [OF wf(1)] split: if_splits option.splits)
  with kv_exec_refines [OF wf(1), of x] have s: "kv_wf st'" "kv_spec x (kv_map st) = (kv_map st', r)" by auto
  have "kv_map st' = fst (kv_spec x (kv_map st))" using s(2) by simp
  then have "kv_small st'"
    using wf(2) q Do unfolding kv_small_def by (cases x) (simp_all split: if_splits)
  with s show ?thesis by simp
qed (use run wf in auto)

lemma handle_request_keeps:
  assumes "kv_wf st" "kv_small st" "length data \<le> BUFFER_SIZE - 1"
    and run: "handle_request mok (fill_buffer BUFFER_SIZE data) st = Inr (st', reply, c)"
  shows "kv_wf st' \<and> kv_small st'"
proof -
  from run obtain q where q: "request_of (fill_buffer BUFFER_SIZE data) = Inr q"
    "perform mok q st = Inr (st', reply, c)"
    by (auto simp: handle_request_perform seq_Inr)
  with request_of_small [OF assms(3)] have "small q" by (simp add: small_or_overflow_def)
  then show ?thesis using perform_keeps [OF assms(1,2) _ q(2)] by simp
qed

lemma request_undefined:
  assumes "length data \<le> BUFFER_SIZE - 1" "kv_wf st" "handle_request mok (fill_buffer BUFFER_SIZE data) st = Inl u"
  shows "u = IntOverflow \<or> u = NullDeref \<and> \<not> mok"
proof -
  have ex: "u = NullDeref \<and> \<not> mok" if "kv_exec mok x st = Inl u" for x
    using that by (cases x) (auto simp: table_ok_defs [OF assms(2)] split: if_splits option.splits)
  from assms(3) consider "request_of (fill_buffer BUFFER_SIZE data) = Inl u"
    | q where "perform mok q st = Inl u" unfolding handle_request_perform seq_Inl by blast
  then show ?thesis
  proof cases
    case 1
    with request_of_small [OF assms(1)] show ?thesis by (simp add: small_or_overflow_def)
  next
    case (2 q)
    then show ?thesis by (cases q) (auto simp: seq_Inl dest: ex)
  qed
qed

section \<open>The whole server\<close>

definition reads_ok :: "reads list \<Rightarrow> bool" where
  "reads_ok cs \<longleftrightarrow> (\<forall>c\<in>set cs. \<forall>r\<in>set c. read_ok (snd r))"

lemma serve_conn_keeps:
  assumes "serve_conn c st = Inr (st', rs)" "\<forall>r\<in>set c. read_ok (snd r)" "kv_wf st \<and> kv_small st"
  shows "kv_wf st' \<and> kv_small st'"
  using assms
proof (induction c st arbitrary: st' rs rule: serve_conn.induct)
  case (2 mok data c st)
  from "2.prems"(1) obtain t reply b where t:
    "handle_request mok (fill_buffer BUFFER_SIZE data) st = Inr (t, reply, b)"
    "st' = t \<or> (\<not> b \<and> (\<exists>rs'. serve_conn c t = Inr (st', rs')))"
    by (auto simp: seq_Inr split: if_splits)
  have "kv_wf t \<and> kv_small t"
    using handle_request_keeps [OF _ _ _ t(1)] "2.prems"(2,3) by (auto simp: read_ok_def)
  with t "2.IH" [OF t(1) refl refl] "2.prems"(2) show ?case by auto
qed auto

lemma serve_clients_keeps:
  "serve_clients cs st = Inr (st', rs) \<Longrightarrow> reads_ok cs \<Longrightarrow> kv_wf st \<and> kv_small st \<Longrightarrow>
     kv_wf st' \<and> kv_small st'"
proof (induction cs st arbitrary: st' rs rule: serve_clients.induct)
  case (2 c cs st)
  from "2.prems"(1) obtain t r1 r2 where t: "serve_conn c st = Inr (t, r1)" "serve_clients cs t = Inr (st', r2)"
    by (auto simp: seq_Inr)
  have "kv_wf t \<and> kv_small t" using serve_conn_keeps [OF t(1)] "2.prems"(2,3) by (simp add: reads_ok_def)
  with "2.IH" [OF t(1) refl t(2)] "2.prems"(2) show ?case by (simp add: reads_ok_def)
qed simp

lemma serve_conn_undefined:
  "\<forall>r\<in>set c. read_ok (snd r) \<Longrightarrow> kv_wf st \<and> kv_small st \<Longrightarrow> serve_conn c st = Inl u \<Longrightarrow>
     u = IntOverflow \<or> u = NullDeref \<and> (\<exists>data. (False, data) \<in> set c)"
proof (induction c st rule: serve_conn.induct)
  case (2 mok data c st)
  have ok: "length data \<le> BUFFER_SIZE - 1" using "2.prems"(1) by (simp add: read_ok_def)
  show ?case
  proof (cases "handle_request mok (fill_buffer BUFFER_SIZE data) st")
    case (Inl w)
    then have "w = u" using "2.prems"(3) by simp
    with Inl request_undefined [OF ok _ Inl] "2.prems"(2) show ?thesis by auto
  next
    case (Inr x)
    obtain t reply b where x: "x = (t, reply, b)" by (cases x)
    then have "\<not> b" "serve_conn c t = Inl u" using "2.prems"(3) Inr by (auto simp: seq_Inl split: if_splits)
    moreover have "kv_wf t \<and> kv_small t" using handle_request_keeps [OF _ _ ok] Inr x "2.prems"(2) by blast
    ultimately have "u = IntOverflow \<or> u = NullDeref \<and> (\<exists>data. (False, data) \<in> set c)"
      using "2.IH" [OF _ refl refl] Inr x "2.prems"(1) by simp
    then show ?thesis by auto
  qed
qed simp

lemma serve_clients_undefined:
  "reads_ok cs \<Longrightarrow> kv_wf st \<and> kv_small st \<Longrightarrow> serve_clients cs st = Inl u \<Longrightarrow>
     u = IntOverflow \<or> u = NullDeref \<and> (\<exists>c\<in>set cs. \<exists>data. (False, data) \<in> set c)"
proof (induction cs st rule: serve_clients.induct)
  case (2 c cs st)
  have c: "\<forall>r\<in>set c. read_ok (snd r)" "reads_ok cs" using "2.prems"(1) by (simp_all add: reads_ok_def)
  show ?case
  proof (cases "serve_conn c st")
    case (Inl w)
    then have "w = u" using "2.prems"(3) by simp
    with serve_conn_undefined [OF c(1) "2.prems"(2)] Inl show ?thesis by auto
  next
    case (Inr x)
    obtain t rs where x: "x = (t, rs)" by (cases x)
    then have "serve_clients cs t = Inl u" using "2.prems"(3) Inr by (auto simp: seq_Inl)
    moreover have "kv_wf t \<and> kv_small t" using serve_conn_keeps [OF _ c(1) "2.prems"(2)] Inr x by blast
    ultimately have "u = IntOverflow \<or> u = NullDeref \<and> (\<exists>c\<in>set cs. \<exists>data. (False, data) \<in> set c)"
      using "2.IH" [OF _ refl c(2)] Inr x by simp
    then show ?thesis by auto
  qed
qed simp

text \<open>Requests as a client writes them.\<close>

definition create_req :: "int \<Rightarrow> string \<Rightarrow> string" where
  "create_req k v = ''create '' @ show_int k @ blank # v"

definition read_req :: "int \<Rightarrow> string" where
  "read_req k = ''read '' @ show_int k"

definition plain_value :: "string \<Rightarrow> bool" where
  "plain_value v \<longleftrightarrow> v \<noteq> [] \<and> \<not> c_isspace (hd v) \<and> nl \<notin> set v \<and> NUL \<notin> set v"

lemma request_of_create:
  assumes "fits_int k" "plain_value v" "length (create_req k v) \<le> BUFFER_SIZE - 1"
  shows "request_of (fill_buffer BUFFER_SIZE (create_req k v)) = Inr (Do (Create k v))"
proof -
  have "NUL \<notin> set (create_req k v)"
    using assms(2) show_int_no_NUL by (auto simp: create_req_def plain_value_def)
  then have c: "cstr (fill_buffer BUFFER_SIZE (create_req k v)) off = drop off (create_req k v)" for off
    using assms(3) by (intro cstr_fill_buffer) simp_all
  have "scan_d (show_int k @ blank # v) = Inr (Some (k, blank # v))"
    using assms(1) by (intro scan_d_show_int) (auto simp: c_isdigit_def)
  moreover have "length v < BUFFER_SIZE" using assms(3) by (simp add: create_req_def)
  ultimately have "scan_key_value (show_int k @ blank # v) = Inr (Some (k, v))"
    using scan_rest_of_line_word [of v] assms(2) by (simp add: scan_key_value_def plain_value_def)
  then show ?thesis
    unfolding request_of_filled [OF assms(3)] c by (simp add: create_req_def strncmp_eq_take Let_def)
qed

lemma request_of_read:
  assumes "fits_int k"
  shows "request_of (fill_buffer BUFFER_SIZE (read_req k)) = Inr (Do (Read k))"
proof -
  have "NUL \<notin> set (read_req k)" using show_int_no_NUL by (auto simp: read_req_def)
  moreover have len: "length (read_req k) \<le> BUFFER_SIZE - 1"
    using length_show_int [OF assms] by (simp add: read_req_def BUFFER_SIZE_def)
  ultimately have c: "cstr (fill_buffer BUFFER_SIZE (read_req k)) off = drop off (read_req k)" for off
    by (intro cstr_fill_buffer) simp_all
  have "cstr (fill_buffer BUFFER_SIZE (read_req k)) 4 = blank # show_int k"
    unfolding c by (simp add: read_req_def)
  moreover have "scan_d (blank # show_int k) = scan_d (show_int k)"
    by (simp add: scan_d_def skip_space_def c_isspace_def)
  moreover have "scan_d (show_int k) = Inr (Some (k, []))"
    using scan_d_show_int [OF assms, of "[]"] by simp
  moreover have "cstr (fill_buffer BUFFER_SIZE (read_req k)) 0 = ''read '' @ show_int k"
    unfolding c by (simp add: read_req_def)
  ultimately show ?thesis
    unfolding request_of_filled [OF len] by (simp add: strncmp_eq_take Let_def)
qed

section \<open>Properties\<close>

text \<open>
  A request that parses as an operation on the table is answered as the map specification
  says: the new table is the specified map, the reply is the text of the specified result, and
  the connection stays open.
\<close>

theorem handle_request_refines:
  assumes "kv_wf st" and "request_of buf = Inr (Do x)"
  shows "\<exists>st'. handle_request True buf st = Inr (st', reply_of (snd (kv_spec x (kv_map st))), False) \<and>
           kv_wf st' \<and> kv_map st' = fst (kv_spec x (kv_map st))"
  using kv_exec_refines [OF assms(1), of x] assms(2) by (auto simp: handle_request_perform)

text \<open>
  C24: Whatever bytes the clients send, connection after connection, no request makes the server leave an array or a heap
  block: neither the table, nor the request buffer, nor the buffer of the value, nor the block a value is copied to.
  From the empty table on, the only undefined behaviour is a key out of the range of \<open>int\<close>, and writing through the null
  pointer of a \<open>malloc\<close> that has failed.
\<close>

theorem handle_request_memory_safe:
  assumes "reads_ok cs" and "serve_clients cs kv_init = Inl u"
  shows "u = IntOverflow \<or> u = NullDeref \<and> (\<exists>c\<in>set cs. \<exists>data. (False, data) \<in> set c)"
  using serve_clients_undefined [OF assms(1) _ assms(2)] by (simp add: kv_small_def)

text \<open>
  Whatever the clients send, one connection after the other, the table stays well formed and
  every stored value is short enough that a later \<open>read\<close> of its key is answered with the whole
  value: the 1024-byte reply buffer never truncates it.
\<close>

theorem served_values_never_truncated:
  assumes "serve_clients cs kv_init = Inr (st, replies)" and "reads_ok cs"
    and "kv_map st k = Some v" and "fits_int k"
  shows "kv_wf st \<and> handle_request mok (fill_buffer BUFFER_SIZE (read_req k)) st =
           Inr (st, ''Value: '' @ v @ [nl], False)"
proof -
  have inv: "kv_wf st \<and> kv_small st"
    using serve_clients_keeps [OF assms(1,2)] by (simp add: kv_small_def)
  with kv_exec_refines [of st "Read k"] assms(3) have "read_value k st = Inr (Some v)"
    by (auto simp: seq_Inr split: option.splits)
  moreover have "length v \<le> MAX_VALUE" using inv assms(3) by (simp add: kv_small_def)
  ultimately show ?thesis
    using inv request_of_read [OF assms(4)] value_reply_full [of v] by (simp add: handle_request_perform)
qed

text \<open>
  A value created over the wire is read back unchanged, through the decimal key, the
  \<open>sscanf\<close> formats, the table and the reply.
\<close>

theorem create_read_roundtrip:
  assumes "kv_wf st" and "fits_int k" and "plain_value v" and "length (create_req k v) \<le> BUFFER_SIZE - 1"
    and "kv_map st k = None" and "card (dom (kv_map st)) < MAX_PAIRS"
  shows "\<exists>st'. serve_conn [(True, create_req k v), (mok, read_req k)] st =
           Inr (st', [msg_ok, ''Value: '' @ v @ [nl]]) \<and> kv_map st' = (kv_map st)(k \<mapsto> v)"
proof -
  have req: "request_of (fill_buffer BUFFER_SIZE (create_req k v)) = Inr (Do (Create k v))"
    using assms by (intro request_of_create) auto
  have spec: "kv_spec (Create k v) (kv_map st) = ((kv_map st)(k \<mapsto> v), Msg msg_ok)"
    using assms(5,6) by (auto simp: dom_def)
  from kv_exec_refines [OF assms(1), of "Create k v"] spec obtain st' where
    st': "kv_exec True (Create k v) st = Inr (st', Msg msg_ok)" "kv_wf st'" "kv_map st' = (kv_map st)(k \<mapsto> v)"
    by auto
  have "length v \<le> MAX_VALUE"
    using request_of_small [OF assms(4)] req by (simp add: small_or_overflow_def)
  moreover have "read_value k st' = Inr (Some v)"
    using kv_exec_refines [OF st'(2), of "Read k"] st'(3) by (auto simp: seq_Inr split: option.splits)
  ultimately have "handle_request mok (fill_buffer BUFFER_SIZE (read_req k)) st' = Inr (st', ''Value: '' @ v @ [nl], False)"
    using request_of_read [OF assms(2)] value_reply_full [of v] by (simp add: handle_request_perform)
  moreover have "handle_request True (fill_buffer BUFFER_SIZE (create_req k v)) st = Inr (st', msg_ok, False)"
    unfolding handle_request_perform req using st'(1) by simp
  ultimately show ?thesis using st'(3) by simp
qed

text \<open>
  The test for the \<open>read\<close> command compares three characters only: a request that starts
  with \<open>rea\<close> is a read whatever its fourth character is.
\<close>

lemma read_prefix_three_characters:
  "handle_request mok (fill_buffer BUFFER_SIZE (''rea'' @ c # rest)) st =
   handle_request mok (fill_buffer BUFFER_SIZE (''read'' @ rest)) st"
proof -
  let ?b = "\<lambda>c. fill_buffer BUFFER_SIZE (''rea'' @ c # rest)"
  have "c_string (?b c) 4 = c_string (?b CHR ''d'') 4"
    by (simp add: c_string_def cstr_def fill_buffer_def BUFFER_SIZE_def)
  moreover have "command_of (?b c) = Inr (cstr (?b c) 0)" for c
    by (simp add: command_of_def) (simp add: BUFFER_SIZE_def)
  moreover have "strncmp_eq (cstr (?b c) 0) ''read'' 3" "\<not> strncmp_eq (cstr (?b c) 0) ''create'' 6" for c
    by (simp_all add: cstr_def fill_buffer_def BUFFER_SIZE_def strncmp_eq_take)
  ultimately have "handle_request mok (?b c) st = handle_request mok (?b CHR ''d'') st"
    by (simp add: handle_request_def)
  then show ?thesis by simp
qed

section \<open>Witnesses\<close>

lemma create_req_1: "create_req 1 ''a'' = ''create 1 a''"
  by code_simp

lemma request_of_create_1:
  "request_of (fill_buffer BUFFER_SIZE (create_req 1 ''a'')) = Inr (Do (Create 1 ''a''))"
  by (rule request_of_create) (simp_all add: fits_int_def INT_MIN_def INT_MAX_def plain_value_def
      c_isspace_def create_req_1 BUFFER_SIZE_def)

lemma serve_create_1:
  obtains st where "handle_request True (fill_buffer BUFFER_SIZE (create_req 1 ''a'')) kv_init = Inr (st, msg_ok, False)"
    "kv_map st 1 = Some ''a''"
proof -
  from kv_exec_refines [OF kv_init(1), of "Create 1 ''a''"] obtain st where
    "kv_exec True (Create 1 ''a'') kv_init = Inr (st, Msg msg_ok)" "[1 \<mapsto> ''a''] = kv_map st"
    by (auto simp: MAX_PAIRS_def)
  moreover from this(2) have "kv_map st 1 = Some ''a''" by (metis fun_upd_same)
  ultimately show ?thesis using that by (simp add: handle_request_perform request_of_create_1)
qed

theorem handle_request_refines_witness:
  "\<exists>st. handle_request True (fill_buffer BUFFER_SIZE (create_req 1 ''a'')) kv_init = Inr (st, msg_ok, False) \<and>
        kv_map st 1 = Some ''a''"
  using handle_request_refines [OF kv_init(1) request_of_create_1] by (auto simp: MAX_PAIRS_def)

theorem handle_request_memory_safe_witness:
  "\<exists>u. serve_clients [[(True, create_req 1 ''a'')], [(False, create_req 2 ''a'')]] kv_init = Inl u \<and> u \<noteq> OutOfBounds"
proof -
  let ?cs = "[[(True, create_req 1 ''a'')], [(False, create_req 2 ''a'')]]"
  have "create_req 2 ''a'' = ''create 2 a''" by code_simp
  moreover have "serve_clients [[(True, ''create 1 a'')], [(False, ''create 2 a'')]] kv_init = Inl NullDeref" by code_simp
  ultimately have r: "serve_clients ?cs kv_init = Inl NullDeref" "reads_ok ?cs"
    by (simp_all add: create_req_1 reads_ok_def read_ok_def BUFFER_SIZE_def)
  from handle_request_memory_safe [OF r(2,1)] r(1) show ?thesis by auto
qed

theorem served_values_never_truncated_witness:
  "\<exists>st replies. serve_clients [[(True, create_req 1 ''a'')]] kv_init = Inr (st, replies) \<and>
     handle_request True (fill_buffer BUFFER_SIZE (read_req 1)) st = Inr (st, ''Value: a'' @ [nl], False)"
proof -
  from serve_create_1 obtain st where st:
    "handle_request True (fill_buffer BUFFER_SIZE (create_req 1 ''a'')) kv_init = Inr (st, msg_ok, False)"
    "kv_map st 1 = Some ''a''" .
  then have s: "serve_clients [[(True, create_req 1 ''a'')]] kv_init = Inr (st, [[msg_ok]])" by simp
  have "reads_ok [[(True, create_req 1 ''a'')]]"
    by (simp add: reads_ok_def read_ok_def create_req_1 BUFFER_SIZE_def)
  from served_values_never_truncated [OF s this st(2), of True] s show ?thesis
    by (simp add: fits_int_def INT_MIN_def INT_MAX_def)
qed

theorem create_read_roundtrip_witness:
  "\<exists>st. serve_conn [(True, create_req 1 ''a''), (True, read_req 1)] kv_init =
     Inr (st, [msg_ok, ''Value: a'' @ [nl]]) \<and> kv_map st = [1 \<mapsto> ''a'']"
proof -
  have *: "fits_int 1" "plain_value ''a''" "length (create_req 1 ''a'') \<le> BUFFER_SIZE - 1"
    by (simp_all add: fits_int_def INT_MIN_def INT_MAX_def plain_value_def c_isspace_def create_req_1 BUFFER_SIZE_def)
  show ?thesis
    using create_read_roundtrip [OF kv_init(1) *, of True] by (simp add: kv_init(2) MAX_PAIRS_def)
qed

end
