(* ===== verification/KvClient.thy ===== *)
theory KvClient
  imports CString "HOL-Library.Word"
begin

text \<open>
  The interactive client of \<open>kv-server/kv-client.c\<close>: its one state variable \<open>sockfd\<close>, its three
  operations and the input loop of \<open>main\<close>. What the network answers while one line is processed
  is an argument; what the client prints and does to its socket is a list of events.
\<close>

section \<open>Operations\<close>

definition CLIENT_BUFFER :: nat where "CLIENT_BUFFER = 1024"

text \<open>The answers of \<open>socket\<close>, \<open>connect\<close> and \<open>read\<close> to the calls made for one line.\<close>

record net =
  socket_fd :: int
  connect_ok :: bool
  reply :: string

datatype kv_event =
    Print string
  | Opened int
  | ConnectTo int string "16 word"
  | Sent int string
  | Closed int

datatype status = Running | Exited int

type_synonym client_result = "int \<times> kv_event list \<times> status"

definition connect_to_server :: "net \<Rightarrow> string \<Rightarrow> int \<Rightarrow> int \<Rightarrow> client_result" where
  "connect_to_server n ip port fd =
     (if fd \<noteq> -1 then (fd, [Print (''Error: Already connected'' @ [nl])], Running)
      else if socket_fd n < 0 then (socket_fd n, [], Exited 1)
      else
        (let fd = socket_fd n; tried = [Opened fd, ConnectTo fd ip (of_int port)] in
         if \<not> connect_ok n
         then (-1, tried @ [Closed fd, Print (''Error: Connection failed'' @ [nl])], Running)
         else (fd, tried @ [Print (''OK'' @ [nl])], Running)))"

definition disconnect_from_server :: "int \<Rightarrow> int \<times> kv_event list" where
  "disconnect_from_server fd =
     (if fd = -1 then (fd, [Print (''Error: Not connected'' @ [nl])])
      else (-1, [Sent fd ''disconnect'', Closed fd, Print (''OK'' @ [nl])]))"

text \<open>\<open>read(sockfd, buffer, BUFFER_SIZE - 1)\<close> delivers at most 1023 bytes of the reply.\<close>

definition send_command :: "net \<Rightarrow> string \<Rightarrow> int \<Rightarrow> int \<times> kv_event list" where
  "send_command n cmd fd =
     (if fd = -1 then (fd, [Print (''Error: Not connected'' @ [nl])])
      else (fd, [Sent fd cmd,
                 Print (cstr (fill_buffer CLIENT_BUFFER (take (CLIENT_BUFFER - 1) (reply n))) 0)]))"

text \<open>
  \<open>sscanf(input + 8, "%s %d", ip, &port) == 2\<close> with \<open>ip\<close> an array of 100 bytes: \<open>%s\<close> has no
  field width, so a word of 100 characters or more is written past it.
\<close>

definition scan_address :: "string \<Rightarrow> (string \<times> int) option outcome" where
  "scan_address s =
     (case scan_s s of
        None \<Rightarrow> Inr None
      | Some (ip, rest) \<Rightarrow>
          if length ip \<ge> 100 then Inl OutOfBounds
          else seq (scan_d rest) (\<lambda>r. Inr (map_option (\<lambda>(port, _). (ip, port)) r)))"

definition client_step :: "net \<Rightarrow> string \<Rightarrow> int \<Rightarrow> client_result outcome" where
  "client_step n input fd =
     (let s = cstr input 0; running = (\<lambda>(fd', es). (fd', es, Running)) in
      if strncmp_eq s ''connect'' 7 then
        seq (scan_address (cstr input 8)) (\<lambda>r. Inr (case r of
            Some (ip, port) \<Rightarrow> connect_to_server n ip port fd
          | None \<Rightarrow> (fd, [Print (''Usage: connect <ip> <port>'' @ [nl])], Running)))
      else if strncmp_eq s ''disconnect'' 10 then Inr (running (disconnect_from_server fd))
      else if strncmp_eq s ''create'' 6 \<or> strncmp_eq s ''read'' 4 \<or>
              strncmp_eq s ''update'' 6 \<or> strncmp_eq s ''delete'' 6 then Inr (running (send_command n s fd))
      else if s = ''exit'' then (let (fd', es) = disconnect_from_server fd in Inr (fd', es, Exited 0))
      else Inr (fd, [Print (''Unknown command'' @ [nl])], Running))"

section \<open>The input loop\<close>

text \<open>\<open>input[strcspn(input, "\n")] = 0\<close>.\<close>

definition chomp :: "string \<Rightarrow> string" where
  "chomp buf = buf[length (takeWhile (\<lambda>c. c \<noteq> NUL \<and> c \<noteq> nl) buf) := NUL]"

definition read_line :: "string \<Rightarrow> string \<times> string" where
  "read_line inp =
     (let (chunk, rest) = fgets (CLIENT_BUFFER - 2) inp in (chomp (fill_buffer CLIENT_BUFFER chunk), rest))"

text \<open>One answer of the network per line; the run stops when they are used up or on exit.\<close>

fun client_run :: "net list \<Rightarrow> string \<Rightarrow> int \<Rightarrow> client_result outcome" where
  "client_run [] inp fd = Inr (fd, [], Running)"
| "client_run (n # ns) inp fd =
     (let (input, rest) = read_line inp in
      seq (client_step n input fd) (\<lambda>(fd', es, st).
        if st = Running
        then seq (client_run ns rest fd') (\<lambda>(fd'', es', st'). Inr (fd'', Print ''> '' # es @ es', st'))
        else Inr (fd', Print ''> '' # es, st)))"

text \<open>\<open>main\<close>: the first line, then the loop, not connected.\<close>

definition banner :: string where
  "banner = ''KV Client started (type '' @ CHR 0x27 # ''connect <ip> <port>'' @ CHR 0x27 # '' to connect):'' @ [nl]"

definition client_main :: "net list \<Rightarrow> string \<Rightarrow> client_result outcome" where
  "client_main ns inp = seq (client_run ns inp (-1)) (\<lambda>(fd, es, st). Inr (fd, Print banner # es, st))"

section \<open>The socket along a run\<close>

text \<open>
  \<open>track fd es\<close> follows the one open socket along the events: \<open>None\<close> as soon as a socket is
  opened while another is open, used when it is not the open one, or closed twice.
\<close>

fun track :: "int \<Rightarrow> kv_event list \<Rightarrow> int option" where
  "track fd [] = Some fd"
| "track fd (Print s # es) = track fd es"
| "track fd (Opened g # es) = (if fd = -1 \<and> g \<noteq> -1 then track g es else None)"
| "track fd (ConnectTo g ip p # es) = (if g = fd \<and> fd \<noteq> -1 then track fd es else None)"
| "track fd (Sent g s # es) = (if g = fd \<and> fd \<noteq> -1 then track fd es else None)"
| "track fd (Closed g # es) = (if g = fd \<and> fd \<noteq> -1 then track (-1) es else None)"

lemma track_append: "track fd (es @ fs) = Option.bind (track fd es) (\<lambda>fd'. track fd' fs)"
  by (induction fd es rule: track.induct) auto

definition fd_after :: "client_result \<Rightarrow> int" where
  "fd_after r = (case r of (fd, es, st) \<Rightarrow> if st = Running then fd else -1)"

lemma connect_track: "track fd (fst (snd (connect_to_server n ip port fd))) = Some (fd_after (connect_to_server n ip port fd))"
  by (simp add: connect_to_server_def fd_after_def Let_def)

lemma disconnect_track: "track fd (snd (disconnect_from_server fd)) = Some (fst (disconnect_from_server fd))"
  "fst (disconnect_from_server fd) = -1"
  by (simp_all add: disconnect_from_server_def)

lemma send_track: "track fd (snd (send_command n cmd fd)) = Some (fst (send_command n cmd fd))"
  by (simp add: send_command_def)

text \<open>The five kinds of line.\<close>

lemma client_step_cases:
  assumes "client_step n input fd = Inr r"
  obtains (connect) ip port where "r = connect_to_server n ip port fd"
  | (say) s where "r = (fd, [Print s], Running)"
  | (disconnect) "r = (case disconnect_from_server fd of (fd', es) \<Rightarrow> (fd', es, Running))"
  | (send) "r = (case send_command n (cstr input 0) fd of (fd', es) \<Rightarrow> (fd', es, Running))"
  | (leave) "r = (case disconnect_from_server fd of (fd', es) \<Rightarrow> (fd', es, Exited 0))"
proof (cases "strncmp_eq (cstr input 0) ''connect'' 7")
  case True
  with assms obtain a where a: "r = (case a of
            Some (ip, port) \<Rightarrow> connect_to_server n ip port fd
          | None \<Rightarrow> (fd, [Print (''Usage: connect <ip> <port>'' @ [nl])], Running))"
    unfolding client_step_def Let_def if_P [OF True] seq_Inr sum.inject by (elim exE conjE) (rule that, rule sym)
  show ?thesis
  proof (cases a)
    case None
    with a say show ?thesis by simp
  next
    case (Some p)
    with a connect show ?thesis by (cases p) simp
  qed
next
  case False
  note c = assms [unfolded client_step_def Let_def if_not_P [OF False]]
  show ?thesis
    using c say disconnect send leave by (simp only: sum.inject case_prod_unfold split: if_split_asm) metis
qed

lemma client_step_track:
  assumes "client_step n input fd = Inr (fd', es, st)"
  shows "track fd es = Some (fd_after (fd', es, st))"
  using assms
proof (cases rule: client_step_cases)
  case (connect ip port)
  then show ?thesis using connect_track [of fd n ip port] by (metis fst_conv snd_conv)
next
  case disconnect
  then show ?thesis using disconnect_track [of fd] by (simp add: case_prod_unfold fd_after_def)
next
  case send
  then show ?thesis using send_track [of fd n] by (simp add: case_prod_unfold fd_after_def)
next
  case leave
  then show ?thesis using disconnect_track [of fd] by (simp add: case_prod_unfold fd_after_def)
qed (simp add: fd_after_def)

lemma client_run_track:
  "client_run ns inp fd = Inr (fd', es, st) \<Longrightarrow> track fd es = Some (fd_after (fd', es, st))"
proof (induction ns inp fd arbitrary: fd' es st rule: client_run.induct)
  case (1 inp fd)
  then show ?case by (auto simp: fd_after_def)
next
  case (2 n ns inp fd)
  obtain input rest where l: "read_line inp = (input, rest)" by fastforce
  from "2.prems" l obtain fd1 es1 st1 where
    s: "client_step n input fd = Inr (fd1, es1, st1)" by (auto simp: seq_Inr)
  note t = client_step_track [OF s]
  show ?case
  proof (cases "st1 = Running")
    case True
    with "2.prems" l s obtain es2 where r: "client_run ns rest fd1 = Inr (fd', es2, st)" "es = Print ''> '' # es1 @ es2"
      by (auto simp: seq_Inr)
    from "2.IH" [OF l [symmetric] refl s refl refl True r(1)] t True r(2) show ?thesis
      by (simp add: track_append fd_after_def)
  next
    case False
    with "2.prems" l s t show ?thesis by (auto simp: fd_after_def)
  qed
qed

section \<open>Lines that start with connect\<close>

lemma client_step_connect:
  assumes "strncmp_eq (cstr input 0) ''connect'' 7"
  shows "client_step n input fd = seq (scan_address (cstr input 8)) (\<lambda>r. Inr (case r of
            Some (ip, port) \<Rightarrow> connect_to_server n ip port fd
          | None \<Rightarrow> (fd, [Print (''Usage: connect <ip> <port>'' @ [nl])], Running)))"
  using assms by (simp only: client_step_def Let_def if_True)

lemma client_step_other:
  assumes "\<not> strncmp_eq (cstr input 0) ''connect'' 7"
  shows "\<exists>r. client_step n input fd = Inr r"
  unfolding client_step_def Let_def if_not_P [OF assms] by (simp only: case_prod_unfold split: if_split) simp

lemma scan_d_Inl': "scan_d s = Inl u \<Longrightarrow> u = IntOverflow"
  by (auto simp: scan_d_def Let_def split: if_splits)

lemma scan_address_bounds:
  "scan_address s = Inl OutOfBounds \<longleftrightarrow> (\<exists>w rest. scan_s s = Some (w, rest) \<and> 100 \<le> length w)"
  by (auto simp: scan_address_def seq_Inl dest: scan_d_Inl' split: option.splits)

lemma scan_address_word:
  assumes "w \<noteq> []" "\<forall>c\<in>set w. \<not> c_isspace c" "length w < 100" "fits_int port"
  shows "scan_address (w @ blank # show_int port) = Inr (Some (w, port))"
proof -
  have "skip_space (w @ blank # show_int port) = w @ blank # show_int port"
    using assms(1,2) by (cases w) (simp_all add: skip_space_def)
  moreover have "takeWhile (\<lambda>c. \<not> c_isspace c) (w @ blank # show_int port) = w"
    "dropWhile (\<lambda>c. \<not> c_isspace c) (w @ blank # show_int port) = blank # show_int port"
    using assms(2) by (induction w) (auto simp: c_isspace_def)
  ultimately have "scan_s (w @ blank # show_int port) = Some (w, blank # show_int port)"
    using assms(1) by (simp add: scan_s_def Let_def)
  moreover have "scan_d (blank # show_int port) = scan_d (show_int port)"
    by (simp add: scan_d_def skip_space_def c_isspace_def)
  moreover have "scan_d (show_int port) = Inr (Some (port, []))"
    using scan_d_show_int [OF assms(4), of "[]"] by simp
  ultimately show ?thesis using assms(3) by (simp add: scan_address_def)
qed

lemma cstr_whole: "NUL \<notin> set s \<Longrightarrow> off \<le> length s \<Longrightarrow> cstr (s @ NUL # r) off = drop off s"
  unfolding cstr_def using in_set_dropD [of NUL off s] by (auto simp: takeWhile_append takeWhile_eq_all_conv)

text \<open>A line of plain text that fits the buffer is read whole, up to its newline.\<close>

lemma read_line_text:
  assumes "nl \<notin> set s" "NUL \<notin> set s" "length s \<le> CLIENT_BUFFER - 3"
  obtains buf where "read_line (s @ nl # rest) = (buf, rest)"
    "cstr buf 0 = s" "\<And>off. off \<le> length s \<Longrightarrow> cstr buf off = drop off s"
proof -
  let ?b = "fill_buffer CLIENT_BUFFER (s @ [nl])"
  have b: "?b = s @ nl # replicate (CLIENT_BUFFER - Suc (length s)) NUL"
    using assms(3) by (simp add: fill_buffer_def CLIENT_BUFFER_def)
  have "takeWhile (\<lambda>c. c \<noteq> NUL \<and> c \<noteq> nl) (s @ nl # r) = s" for r
    using assms(1,2) by (induction s) auto
  then have "chomp ?b = s @ NUL # replicate (CLIENT_BUFFER - Suc (length s)) NUL"
    unfolding b chomp_def by (simp add: list_update_append)
  then have "cstr (chomp ?b) off = drop off s" if "off \<le> length s" for off
    using cstr_whole [OF assms(2) that] by simp
  moreover from this [of 0] have "cstr (chomp ?b) 0 = s" by simp
  moreover have "fgets (CLIENT_BUFFER - 2) (s @ nl # rest) = (s @ [nl], rest)"
    using assms by (intro fgets_line) (simp_all add: CLIENT_BUFFER_def)
  ultimately show thesis using that [of "chomp ?b"] by (simp add: read_line_def)
qed

section \<open>Properties\<close>

text \<open>
  C26: Along any run of the client, from any input and with any answers of the network, at most
  one socket is open at a time, every write goes to the open one, none is closed twice, and
  when the program exits none is left open.
\<close>

theorem client_socket_discipline:
  assumes "client_main ns inp = Inr (fd, es, st)"
  shows "track (-1) es = Some (if st = Running then fd else -1)"
  using assms client_run_track [of ns inp "-1"] by (auto simp: client_main_def fd_after_def seq_Inr)

text \<open>
  A line makes the client write outside an array exactly when it starts with \<open>connect\<close> and
  its address word has 100 characters or more.
\<close>

theorem client_overflow_iff:
  "client_step n input fd = Inl OutOfBounds \<longleftrightarrow>
     strncmp_eq (cstr input 0) ''connect'' 7 \<and>
     (\<exists>w rest. scan_s (cstr input 8) = Some (w, rest) \<and> 100 \<le> length w)"
proof (cases "strncmp_eq (cstr input 0) ''connect'' 7")
  case True
  then show ?thesis
    by (simp only: client_step_connect seq_Inl scan_address_bounds [symmetric]) simp
next
  case False
  with client_step_other [OF False, of n fd] show ?thesis by auto
qed

text \<open>
  A connect line with an address word and a decimal port, given while disconnected, opens
  one socket and connects it to that address, with the port taken modulo 65536, as \<open>htons\<close>
  takes it: no port number is refused.
\<close>

theorem connect_line_connects:
  assumes "cstr input 0 = ''connect '' @ w @ blank # show_int port"
    and "cstr input 8 = w @ blank # show_int port"
    and "w \<noteq> []" and "\<forall>c\<in>set w. \<not> c_isspace c" and "length w < 100" and "fits_int port"
    and "0 \<le> socket_fd n" and "connect_ok n"
  shows "client_step n input (-1) =
     Inr (socket_fd n, [Opened (socket_fd n), ConnectTo (socket_fd n) w (word_of_int (port mod 65536)),
                        Print (''OK'' @ [nl])], Running)"
proof -
  have "(of_int port :: 16 word) = word_of_int (port mod 65536)"
    by transfer (simp add: take_bit_eq_mod)
  moreover have "strncmp_eq (cstr input 0) ''connect'' 7" unfolding assms(1) by (simp add: strncmp_eq_take)
  ultimately show ?thesis
    using assms(7,8) scan_address_word [OF assms(3-6)]
    by (simp add: client_step_connect assms(2) connect_to_server_def Let_def)
qed

text \<open>
  At the end of its input the client does not stop: \<open>fgets\<close> fails, the cleared line is an
  unknown command, and every further round of the loop only prints that message again.
\<close>

theorem client_loops_at_end_of_input:
  "client_run ns [] fd =
     Inr (fd, concat (replicate (length ns) [Print ''> '', Print (''Unknown command'' @ [nl])]), Running)"
proof (induction ns)
  case (Cons n ns)
  have "read_line [] = (chomp (fill_buffer CLIENT_BUFFER []), [])"
    by (simp add: read_line_def CLIENT_BUFFER_def numeral_nat)
  moreover have "cstr (chomp (fill_buffer CLIENT_BUFFER [])) 0 = []"
    by (simp add: cstr_def chomp_def fill_buffer_def CLIENT_BUFFER_def numeral_nat)
  ultimately show ?case
    using Cons.IH by (simp add: client_step_def Let_def strncmp_eq_take)
qed simp

section \<open>Witnesses\<close>

definition demo_net :: net where
  "demo_net = \<lparr>socket_fd = 3, connect_ok = True, reply = ''OK'' @ [nl]\<rparr>"

theorem client_socket_discipline_witness:
  "\<exists>es. client_main [demo_net, demo_net] (''connect h 80'' @ nl # ''exit'' @ [nl]) = Inr (-1, es, Exited 0) \<and>
        track (-1) es = Some (-1)"
proof -
  let ?es = "[Print banner, Print ''> '', Opened 3, ConnectTo 3 ''h'' 80, Print (''OK'' @ [nl]),
              Print ''> '', Sent 3 ''disconnect'', Closed 3, Print (''OK'' @ [nl])]"
  obtain b1 where b1: "read_line (''connect h 80'' @ nl # ''exit'' @ [nl]) = (b1, ''exit'' @ [nl])"
    "cstr b1 0 = ''connect h 80''" "\<And>off. off \<le> 12 \<Longrightarrow> cstr b1 off = drop off ''connect h 80''"
    by (rule read_line_text [of "''connect h 80''" "''exit'' @ [nl]"]) (simp_all add: CLIENT_BUFFER_def)
  obtain b2 where b2: "read_line (''exit'' @ [nl]) = (b2, [])" "cstr b2 0 = ''exit''"
    by (rule read_line_text [of "''exit''" "[]"]) (simp_all add: CLIENT_BUFFER_def)
  have "scan_address ''h 80'' = Inr (Some (''h'', 80))" by code_simp
  with b1(2) b1(3) [of 8]
  have "client_step demo_net b1 (-1) = Inr (3, [Opened 3, ConnectTo 3 ''h'' 80, Print (''OK'' @ [nl])], Running)"
    by (simp add: client_step_connect strncmp_eq_take connect_to_server_def demo_net_def)
  moreover have "client_step demo_net b2 3 = Inr (-1, [Sent 3 ''disconnect'', Closed 3, Print (''OK'' @ [nl])], Exited 0)"
    by (simp add: client_step_def b2(2) strncmp_eq_take disconnect_from_server_def)
  ultimately have "client_main [demo_net, demo_net] (''connect h 80'' @ nl # ''exit'' @ [nl]) = Inr (-1, ?es, Exited 0)"
    using b1(1) b2(1) by (simp add: client_main_def)
  from this client_socket_discipline [OF this] show ?thesis by (intro exI [of _ ?es]) simp
qed

theorem connect_line_connects_witness:
  "client_step demo_net (fill_buffer CLIENT_BUFFER ''connect h 65616'') (-1) =
     Inr (3, [Opened 3, ConnectTo 3 ''h'' 80, Print (''OK'' @ [nl])], Running)"
proof -
  let ?buf = "fill_buffer CLIENT_BUFFER ''connect h 65616''"
  have "digit_char 1 = CHR ''1''" "digit_char 5 = CHR ''5''" "digit_char 6 = CHR ''6''" by code_simp+
  then have p: "show_int 65616 = ''65616''" by (simp add: show_int_def show_nat.simps)
  have "cstr ?buf 0 = ''connect '' @ ''h'' @ blank # show_int 65616"
    unfolding p by (subst cstr_fill_buffer) (simp_all add: CLIENT_BUFFER_def)
  moreover have "cstr ?buf 8 = ''h'' @ blank # show_int 65616"
    unfolding p by (subst cstr_fill_buffer) (simp_all add: CLIENT_BUFFER_def)
  moreover have "fits_int 65616" by (simp add: fits_int_def INT_MIN_def INT_MAX_def)
  ultimately show ?thesis
    using connect_line_connects [of ?buf "''h''" 65616 demo_net] by (simp add: demo_net_def c_isspace_def)
qed

end
