(* ===== verification/KvSystem.thy ===== *)
theory KvSystem
  imports KvServer KvClient
begin

text \<open>
  The key-value client and server together: every request the client writes on its socket is
  the next buffer the server reads, and the server's reply is what the client's \<open>read\<close> returns.
\<close>

section \<open>The joint step\<close>

fun sent_bytes :: "kv_event list \<Rightarrow> string option" where
  "sent_bytes [] = None"
| "sent_bytes (Sent fd s # es) = Some s"
| "sent_bytes (e # es) = sent_bytes es"

text \<open>
  The client sends at most one request per line, and what it sends does not depend on the
  answer; so its step is run once to see the request and once with the server's reply.
\<close>

definition system_step ::
  "net \<Rightarrow> bool \<Rightarrow> string \<Rightarrow> int \<Rightarrow> kv_state \<Rightarrow> (int \<times> kv_state \<times> kv_event list \<times> status) outcome" where
  "system_step n mok input fd st =
     seq (client_step n input fd) (\<lambda>(fd', es, ex).
       case sent_bytes es of
         None \<Rightarrow> Inr (fd', st, es, ex)
       | Some s \<Rightarrow>
           seq (handle_request mok (fill_buffer BUFFER_SIZE s) st) (\<lambda>(st', r, closed).
             seq (client_step (n\<lparr>reply := r\<rparr>) input fd) (\<lambda>(fd', es, ex). Inr (fd', st', es, ex))))"

fun system_run ::
  "(net \<times> bool) list \<Rightarrow> string \<Rightarrow> int \<Rightarrow> kv_state \<Rightarrow> (int \<times> kv_state \<times> kv_event list \<times> status) outcome" where
  "system_run [] inp fd st = Inr (fd, st, [], Running)"
| "system_run ((n, mok) # ns) inp fd st =
     (let (input, rest) = read_line inp in
      seq (system_step n mok input fd st) (\<lambda>(fd', st', es, ex).
        if ex = Running
        then seq (system_run ns rest fd' st') (\<lambda>(fd'', st'', es', ex'). Inr (fd'', st'', Print ''> '' # es @ es', ex'))
        else Inr (fd', st', Print ''> '' # es, ex)))"

section \<open>Commands as typed\<close>

fun cmd_text :: "kv_op \<Rightarrow> string" where
  "cmd_text (Create k v) = ''create '' @ show_int k @ blank # v"
| "cmd_text (Read k) = ''read '' @ show_int k"
| "cmd_text (Update k v) = ''update '' @ show_int k @ blank # v"
| "cmd_text (Delete k) = ''delete '' @ show_int k"

fun op_key :: "kv_op \<Rightarrow> int" where
  "op_key (Create k v) = k" | "op_key (Read k) = k" | "op_key (Update k v) = k" | "op_key (Delete k) = k"

fun op_plain :: "kv_op \<Rightarrow> bool" where
  "op_plain (Create k v) = plain_value v" | "op_plain (Update k v) = plain_value v" | "op_plain x = True"

text \<open>A command fits one \<open>fgets\<close>: with its newline at most 1022 characters.\<close>

definition op_ok :: "kv_op \<Rightarrow> bool" where
  "op_ok x \<longleftrightarrow> fits_int (op_key x) \<and> op_plain x \<and> length (cmd_text x) \<le> CLIENT_BUFFER - 3"

lemma show_int_no_nl: "nl \<notin> set (show_int k)"
  using show_int_chars [of nl k] isdigit_not(3) [of nl] by auto

lemma cmd_text_chars: "op_plain x \<Longrightarrow> NUL \<notin> set (cmd_text x) \<and> nl \<notin> set (cmd_text x)"
  using show_int_no_NUL show_int_no_nl by (cases x) (auto simp: plain_value_def)

lemma scan_key_value_text:
  assumes "fits_int k" "plain_value v" "length v < BUFFER_SIZE"
  shows "scan_key_value (show_int k @ blank # v) = Inr (Some (k, v))"
proof -
  have "scan_d (show_int k @ blank # v) = Inr (Some (k, blank # v))"
    using assms(1) by (intro scan_d_show_int) (auto simp: c_isdigit_def)
  then show ?thesis
    using scan_rest_of_line_word [of v] assms(2,3) by (simp add: scan_key_value_def plain_value_def)
qed

lemma request_of_cmd:
  assumes "op_ok x"
  shows "request_of (fill_buffer BUFFER_SIZE (cmd_text x)) = Inr (Do x)"
proof -
  have len: "length (cmd_text x) \<le> BUFFER_SIZE - 1"
    using assms by (simp add: op_ok_def CLIENT_BUFFER_def BUFFER_SIZE_def)
  then have len': "length (cmd_text x) \<le> BUFFER_SIZE" by simp
  have "NUL \<notin> set (cmd_text x)" using assms cmd_text_chars by (simp add: op_ok_def)
  note c = cstr_fill_buffer [OF this len']
  have d: "scan_d (show_int (op_key x)) = Inr (Some (op_key x, []))"
    using scan_d_show_int [of "op_key x" "[]"] assms by (simp add: op_ok_def)
  show ?thesis
  proof (cases x)
    case (Create k v)
    with assms len' have "scan_key_value (show_int k @ blank # v) = Inr (Some (k, v))"
      by (intro scan_key_value_text) (auto simp: op_ok_def)
    with Create show ?thesis unfolding request_of_filled [OF len] c by (simp add: strncmp_eq_take Let_def)
  next
    case (Read k)
    have "scan_d (blank # show_int k) = scan_d (show_int k)"
      by (simp add: scan_d_def skip_space_def c_isspace_def)
    with Read d show ?thesis unfolding request_of_filled [OF len] c by (simp add: strncmp_eq_take Let_def)
  next
    case (Update k v)
    with assms len' have "scan_key_value (show_int k @ blank # v) = Inr (Some (k, v))"
      by (intro scan_key_value_text) (auto simp: op_ok_def)
    with Update show ?thesis unfolding request_of_filled [OF len] c by (simp add: strncmp_eq_take Let_def)
  next
    case (Delete k)
    with d show ?thesis unfolding request_of_filled [OF len] c by (simp add: strncmp_eq_take Let_def)
  qed
qed

lemma client_step_cmd:
  assumes "cstr input 0 = cmd_text x" "fd \<noteq> -1"
  shows "client_step n input fd =
     Inr (fd, [Sent fd (cmd_text x),
               Print (cstr (fill_buffer CLIENT_BUFFER (take (CLIENT_BUFFER - 1) (reply n))) 0)], Running)"
  using assms(2) unfolding client_step_def assms(1)
  by (cases x) (simp_all add: strncmp_eq_take Let_def send_command_def)

section \<open>A typed session\<close>

text \<open>The values of a table are short and free of NUL, so every reply is printed in full.\<close>

definition kv_text :: "kv_state \<Rightarrow> bool" where
  "kv_text st \<longleftrightarrow> (\<forall>k v. kv_map st k = Some v \<longrightarrow> length v \<le> MAX_VALUE \<and> NUL \<notin> set v)"

lemma op_ok_value: "op_ok (Create k v) \<Longrightarrow> length v \<le> MAX_VALUE \<and> NUL \<notin> set v"
  "op_ok (Update k v) \<Longrightarrow> length v \<le> MAX_VALUE \<and> NUL \<notin> set v"
  by (auto simp: op_ok_def plain_value_def CLIENT_BUFFER_def MAX_VALUE_def)

lemma kv_spec_text:
  assumes "\<And>k v. m k = Some v \<Longrightarrow> length v \<le> MAX_VALUE \<and> NUL \<notin> set v" and "op_ok x"
    and "fst (kv_spec x m) k = Some v"
  shows "length v \<le> MAX_VALUE \<and> NUL \<notin> set v"
  using assms op_ok_value by (cases x) (auto split: if_splits)

lemma printed_in_full:
  assumes "length r \<le> CLIENT_BUFFER - 1" "NUL \<notin> set r"
  shows "cstr (fill_buffer CLIENT_BUFFER (take (CLIENT_BUFFER - 1) r)) 0 = r"
  using cstr_fill_buffer [OF assms(2), of CLIENT_BUFFER 0] assms(1) by (simp add: CLIENT_BUFFER_def)

lemma reply_plain:
  assumes "kv_text st"
  shows "length (reply_of (snd (kv_spec x (kv_map st)))) \<le> CLIENT_BUFFER - 1 \<and>
        NUL \<notin> set (reply_of (snd (kv_spec x (kv_map st))))"
proof -
  have m: "length m \<le> CLIENT_BUFFER - 1 \<and> NUL \<notin> set m"
    if "m \<in> {msg_ok, msg_exists, msg_full, msg_not_found}" for m
    using that by (auto simp: CLIENT_BUFFER_def msg_ok_def msg_exists_def msg_full_def msg_not_found_def)
  have v: "length (value_reply v) \<le> CLIENT_BUFFER - 1 \<and> NUL \<notin> set (value_reply v)"
    if "kv_map st k = Some v" for k v
    using that assms value_reply_full [of v] by (auto simp: kv_text_def CLIENT_BUFFER_def MAX_VALUE_def)
  show ?thesis using m v by (cases x) (simp_all split: option.split)
qed

lemma reply_printed:
  assumes "kv_text st"
  shows "cstr (fill_buffer CLIENT_BUFFER (take (CLIENT_BUFFER - 1) (reply_of (snd (kv_spec x (kv_map st)))))) 0 =
           reply_of (snd (kv_spec x (kv_map st)))"
  using reply_plain [OF assms, of x] by (intro printed_in_full) simp_all

lemma system_step_cmd:
  assumes wf: "kv_wf st" "kv_text st" and x: "op_ok x" and input: "cstr input 0 = cmd_text x" and fd: "fd \<noteq> -1"
  shows "\<exists>st'. system_step n True input fd st =
      Inr (fd, st', [Sent fd (cmd_text x), Print (reply_of (snd (kv_spec x (kv_map st))))], Running) \<and>
      kv_wf st' \<and> kv_text st' \<and> kv_map st' = fst (kv_spec x (kv_map st))"
proof -
  from kv_exec_refines [OF wf(1), of x] obtain st' r where
    st': "kv_exec True x st = Inr (st', r)" "kv_wf st'" "kv_spec x (kv_map st) = (kv_map st', r)" by blast
  then have h: "handle_request True (fill_buffer BUFFER_SIZE (cmd_text x)) st = Inr (st', reply_of r, False)"
    unfolding handle_request_perform request_of_cmd [OF x] by simp
  have "kv_text st'"
    using kv_spec_text [OF _ x, of "kv_map st"] wf(2) st'(3) unfolding kv_text_def by (metis fst_conv)
  moreover have "system_step n True input fd st = Inr (fd, st', [Sent fd (cmd_text x), Print (reply_of r)], Running)"
    using h reply_printed [OF wf(2), of x] st'(3)
    by (simp add: system_step_def client_step_cmd [OF input fd])
  ultimately show ?thesis using st' by simp
qed

definition typed :: "kv_op list \<Rightarrow> string" where
  "typed ops = concat (map (\<lambda>x. cmd_text x @ [nl]) ops)"

fun transcript :: "int \<Rightarrow> kv_op list \<Rightarrow> kv_result list \<Rightarrow> kv_event list" where
  "transcript fd (x # xs) (r # rs) =
     Print ''> '' # Sent fd (cmd_text x) # Print (reply_of r) # transcript fd xs rs"
| "transcript fd _ _ = []"

lemma typed_session:
  assumes "kv_wf st" "kv_text st" "\<forall>x\<in>set ops. op_ok x" "fd \<noteq> -1" "length ns = length ops"
    and "\<forall>n\<in>set ns. snd n"
  shows "\<exists>st'. system_run ns (typed ops) fd st =
      Inr (fd, st', transcript fd ops (snd (run_spec kv_spec (kv_map st) ops)), Running) \<and>
      kv_wf st' \<and> kv_map st' = fst (run_spec kv_spec (kv_map st) ops)"
  using assms
proof (induction ops arbitrary: st ns)
  case Nil
  then show ?case by (simp add: typed_def)
next
  case (Cons x ops)
  then obtain n ns' where ns: "ns = (n, True) # ns'" by (cases ns) auto
  have x: "op_ok x" using Cons.prems(3) by simp
  obtain buf where buf: "read_line (cmd_text x @ nl # typed ops) = (buf, typed ops)" "cstr buf 0 = cmd_text x"
    using x cmd_text_chars [of x] by (auto simp: op_ok_def intro: read_line_text [of "cmd_text x" "typed ops"])
  from system_step_cmd [OF Cons.prems(1,2) x buf(2) Cons.prems(4), of n] obtain st1 where
    st1: "system_step n True buf fd st =
      Inr (fd, st1, [Sent fd (cmd_text x), Print (reply_of (snd (kv_spec x (kv_map st))))], Running)"
      "kv_wf st1" "kv_text st1" "kv_map st1 = fst (kv_spec x (kv_map st))" by blast
  from Cons.IH [OF st1(2,3) _ Cons.prems(4), of ns'] Cons.prems(3,5,6) ns obtain st2 where
    st2: "system_run ns' (typed ops) fd st1 =
      Inr (fd, st2, transcript fd ops (snd (run_spec kv_spec (kv_map st1) ops)), Running)"
      "kv_wf st2" "kv_map st2 = fst (run_spec kv_spec (kv_map st1) ops)" by auto
  have "typed (x # ops) = cmd_text x @ nl # typed ops" by (simp add: typed_def)
  with buf(1) st1(1,4) st2 ns show ?case by (simp add: case_prod_unfold Let_def)
qed

section \<open>Properties\<close>

text \<open>
  C5: A user who types any sequence of well-formed commands at a connected client sees, line by
  line, exactly the answers of the map specification, and the server's table ends as the
  specified map: the line buffer, the command tests on both sides, the wire formats, the array
  table, the reply and its printing together implement a finite map of at most 100 keys.
\<close>

theorem typed_session_refines_map:
  assumes "\<forall>x\<in>set ops. op_ok x" and "fd \<noteq> -1" and "length ns = length ops" and "\<forall>n\<in>set ns. snd n"
  shows "\<exists>st. system_run ns (typed ops) fd kv_init =
      Inr (fd, st, transcript fd ops (snd (run_spec kv_spec Map.empty ops)), Running) \<and>
      kv_map st = fst (run_spec kv_spec Map.empty ops)"
  using typed_session [of kv_init ops fd ns] assms by (auto simp: kv_text_def)

lemma typed_ok:
  "op_ok (Create 7 ''cat'')" "op_ok (Read 7)"
proof -
  have "show_int 7 = ''7''" by code_simp
  then show "op_ok (Create 7 ''cat'')" "op_ok (Read 7)"
    by (simp_all add: op_ok_def fits_int_def INT_MIN_def INT_MAX_def plain_value_def c_isspace_def CLIENT_BUFFER_def)
qed

theorem typed_session_refines_map_witness:
  "\<exists>st. system_run (replicate 2 (\<lparr>socket_fd = 3, connect_ok = True, reply = []\<rparr>, True))
          (typed [Create 7 ''cat'', Read 7]) 3 kv_init =
      Inr (3, st, [Print ''> '', Sent 3 (cmd_text (Create 7 ''cat'')), Print (''OK'' @ [nl]),
                   Print ''> '', Sent 3 (cmd_text (Read 7)), Print (''Value: cat'' @ [nl])], Running)"
  using typed_session_refines_map [of "[Create 7 ''cat'', Read 7]" 3
      "replicate 2 (\<lparr>socket_fd = 3, connect_ok = True, reply = []\<rparr>, True)"] typed_ok
  by (auto simp: MAX_PAIRS_def value_reply_def BUFFER_SIZE_def msg_ok_def)

end
