(* ===== verification/KvMain.thy ===== *)
theory KvMain
  imports KvServer
begin

text \<open>
  \<open>main\<close> of \<open>kv-server/kv-server.c\<close> as a whole: the system calls before the loop, the loop over the clients with
  the lines it prints, and the request loop of \<open>KvServer\<close> inside it. The answers of the system calls
  are arguments; the run ends where \<open>accept\<close> is left waiting.
\<close>

section \<open>The program\<close>

record kv_answers =
  args :: "string list"
  socket_ret :: int
  bind_ret :: int

text \<open>The inner loop, with the line that reports how the connection ended.\<close>

fun kv_conn :: "reads \<Rightarrow> kv_state \<Rightarrow> (kv_state \<times> string list \<times> string) outcome" where
  "kv_conn [] st = Inr (st, [], ''Client disconnected.'')"
| "kv_conn ((mok, data) # rs) st =
     seq (handle_request mok (fill_buffer BUFFER_SIZE data) st) (\<lambda>(st', reply, closed).
       if closed then Inr (st', [reply], ''Client requested disconnect.'')
       else seq (kv_conn rs st') (\<lambda>(st'', replies, l). Inr (st'', reply # replies, l)))"

text \<open>
  The outer loop, for what \<open>accept\<close> returns and the reads of each client. Result: the table, the replies to each
  client, the lines printed, and the message of an exit.
\<close>

type_synonym main_result = "kv_state \<times> string list list \<times> string list \<times> string option"

fun accept_loop :: "(int \<times> reads) list \<Rightarrow> kv_state \<Rightarrow> main_result outcome" where
  "accept_loop [] st = Inr (st, [], [], None)"
| "accept_loop ((newsockfd, rs) # cs) st =
     (if newsockfd < 0 then Inr (st, [], [], Some ''ERROR on accept'')
      else
        seq (kv_conn rs st) (\<lambda>(st', replies, l).
        seq (accept_loop cs st') (\<lambda>(st'', rest, ls, e). Inr (st'', replies # rest, ''Client connected.'' # l # ls, e))))"

definition listening :: "int \<Rightarrow> string" where
  "listening portno = ''KV Server listening on port '' @ show_int portno @ ''...''"

definition kv_main :: "kv_answers \<Rightarrow> (int \<times> reads) list \<Rightarrow> main_result outcome" where
  "kv_main a cs =
     (case args a of
        [] \<Rightarrow> Inl NullDeref
      | [prog] \<Rightarrow> Inr (kv_init, [], [], Some (''Usage: '' @ prog @ '' <port>''))
      | prog # port # _ \<Rightarrow>
          seq (atoi port) (\<lambda>portno.
            if socket_ret a < 0 then Inr (kv_init, [], [], Some ''ERROR opening socket'')
            else if bind_ret a < 0 then Inr (kv_init, [], [], Some ''ERROR on binding'')
            else seq (accept_loop cs kv_init) (\<lambda>(st, replies, ls, e). Inr (st, replies, listening portno # ls, e))))"

section \<open>Whom it serves\<close>

text \<open>The clients accepted before \<open>accept\<close> first fails.\<close>

definition accepted :: "(int \<times> reads) list \<Rightarrow> reads list" where
  "accepted cs = map snd (takeWhile (\<lambda>c. 0 \<le> fst c) cs)"

lemma kv_conn_serve: "serve_conn rs st = seq (kv_conn rs st) (\<lambda>(s, r, l). Inr (s, r))"
proof (induction rs arbitrary: st)
  case (Cons x rs)
  obtain mok data where x: "x = (mok, data)" by (cases x)
  show ?case
  proof (cases "handle_request mok (fill_buffer BUFFER_SIZE data) st")
    case (Inr q)
    obtain st' reply closed where q: "q = (st', reply, closed)" by (cases q)
    show ?thesis using Inr Cons.IH [of st'] by (cases "kv_conn rs st'") (auto simp: x q)
  qed (simp add: x)
qed simp

lemma accept_loop_serve:
  "seq (accept_loop cs st) (\<lambda>(s, r, ls, e). Inr (s, r)) = serve_clients (accepted cs) st"
proof (induction cs arbitrary: st)
  case (Cons c cs)
  obtain fd rs where c: "c = (fd, rs)" by (cases c)
  show ?case
  proof (cases "fd < 0")
    case False
    show ?thesis
    proof (cases "kv_conn rs st")
      case (Inr q)
      obtain st' replies l where q: "q = (st', replies, l)" by (cases q)
      have r: "serve_conn rs st = Inr (st', replies)" using Inr kv_conn_serve [of rs st] by (simp add: q)
      have acc: "accepted ((fd, rs) # cs) = rs # accepted cs" using False by (simp add: accepted_def)
      have "seq (accept_loop (c # cs) st) (\<lambda>(s, r, ls, e). Inr (s, r)) =
          seq (seq (accept_loop cs st') (\<lambda>(s, r, ls, e). Inr (s, r))) (\<lambda>(s, r). Inr (s, replies # r))"
        using False Inr by (cases "accept_loop cs st'") (auto simp: c q)
      moreover have "serve_clients (accepted (c # cs)) st = seq (serve_clients (accepted cs) st') (\<lambda>(s, r). Inr (s, replies # r))"
        using acc r by (simp add: c)
      ultimately show ?thesis unfolding Cons.IH by (simp only:)
    qed (use False kv_conn_serve [of rs st] in \<open>simp add: c accepted_def\<close>)
  qed (simp add: c accepted_def)
qed (simp add: accepted_def)

lemma accept_loop_end:
  "accept_loop cs st = Inr (st', replies, ls, e) \<Longrightarrow> length replies = length (accepted cs) \<and> length ls = 2 * length replies \<and>
     (e = (if \<exists>c\<in>set cs. fst c < 0 then Some ''ERROR on accept'' else None))"
proof (induction cs arbitrary: st st' replies ls e)
  case (Cons c cs)
  obtain fd rs where c: "c = (fd, rs)" by (cases c)
  show ?case
  proof (cases "fd < 0")
    case False
    then obtain st1 r l s2 rest ls' e' where "kv_conn rs st = Inr (st1, r, l)" "accept_loop cs st1 = Inr (s2, rest, ls', e')"
      "replies = r # rest" "ls = ''Client connected.'' # l # ls'" "e = e'"
      using Cons.prems by (auto simp: c seq_Inr)
    with Cons.IH [of st1 s2 rest ls' e'] False show ?thesis by (simp add: c accepted_def)
  qed (use Cons.prems in \<open>simp add: c accepted_def\<close>)
qed (simp add: accepted_def)

section \<open>Properties\<close>

text \<open>
  The server as a whole serves the clients in the order they are accepted, exactly as the request loop
  answers them one after the other on one table, until \<open>accept\<close> first fails, which ends it; it
  prints two lines for each of them. Where \<open>socket\<close> or \<open>bind\<close> fails it serves nobody.
\<close>

theorem kv_main_serves_accepted:
  assumes "kv_main a cs = Inr (st, replies, ls, e)"
  shows "if 2 \<le> length (args a) \<and> 0 \<le> socket_ret a \<and> 0 \<le> bind_ret a
     then serve_clients (accepted cs) kv_init = Inr (st, replies) \<and> length ls = 1 + 2 * length (accepted cs) \<and>
       (e = None \<longleftrightarrow> \<not> (\<exists>c\<in>set cs. fst c < 0))
     else replies = [] \<and> e \<noteq> None"
proof (cases "2 \<le> length (args a) \<and> 0 \<le> socket_ret a \<and> 0 \<le> bind_ret a")
  case True
  then obtain prog port r where "args a = prog # port # r" by (cases "args a" rule: remdups_adj.cases) auto
  then obtain portno ls' where run: "accept_loop cs kv_init = Inr (st, replies, ls', e)" "ls = listening portno # ls'"
    using assms True by (auto simp: kv_main_def seq_Inr)
  with accept_loop_serve [of cs kv_init] accept_loop_end [OF run(1)] True show ?thesis by auto
next
  case False
  then show ?thesis using assms by (auto simp: kv_main_def seq_Inr split: if_splits list.splits)
qed

theorem kv_main_serves_accepted_witness:
  "serve_clients (accepted [(4, []), (-1, [])]) kv_init = Inr (kv_init, [[]])"
proof -
  have "atoi ''5000'' = Inr 5000" by code_simp
  then have "kv_main \<lparr>args = [''./kv-server'', ''5000''], socket_ret = 3, bind_ret = 0\<rparr> [(4, []), (-1, [])] =
      Inr (kv_init, [[]], [listening 5000, ''Client connected.'', ''Client disconnected.''], Some ''ERROR on accept'')"
    by (simp add: kv_main_def)
  from kv_main_serves_accepted [OF this] show ?thesis by simp
qed

end
