(* ===== verification/KvUsers.thy ===== *)
theory KvUsers
  imports KvSystem KvMain
begin

text \<open>
  Several users of the key-value store: each starts the client, connects, types commands and leaves; the server
  accepts them one after the other. The two programs are run separately and fit together: the server answers
  the requests the clients send, and the clients get the answers the server gives.
\<close>

section \<open>What users do\<close>

text \<open>A line that connects, the commands, and \<open>exit\<close>.\<close>

definition session_text :: "string \<Rightarrow> kv_op list \<Rightarrow> string" where
  "session_text addr ops = (''connect '' @ addr) @ nl # typed ops @ ''exit'' @ nl # []"

definition address_ok :: "string \<Rightarrow> string \<Rightarrow> int \<Rightarrow> bool" where
  "address_ok addr ip port \<longleftrightarrow> scan_address addr = Inr (Some (ip, port)) \<and> nl \<notin> set addr \<and> NUL \<notin> set addr \<and>
     length addr \<le> CLIENT_BUFFER - 11"

text \<open>The requests a client sends, and what it shows.\<close>

fun requests :: "kv_event list \<Rightarrow> string list" where
  "requests [] = []"
| "requests (Sent fd s # es) = s # requests es"
| "requests (e # es) = requests es"

fun shown :: "kv_event list \<Rightarrow> string" where
  "shown [] = []"
| "shown (Print s # es) = s @ shown es"
| "shown (e # es) = shown es"

text \<open>
  The network as the client sees it: \<open>connect\<close> succeeds, the answers to its commands come in order, and the one to
  \<open>disconnect\<close>, which it does not read.
\<close>

definition answered :: "int \<Rightarrow> string \<Rightarrow> net" where
  "answered fd r = \<lparr>socket_fd = fd, connect_ok = True, reply = r\<rparr>"

definition session_net :: "int \<Rightarrow> string list \<Rightarrow> net list" where
  "session_net fd rs = answered fd [] # map (answered fd) rs"

text \<open>The server reads each request as one, with \<open>malloc\<close> succeeding.\<close>

definition arrives :: "string list \<Rightarrow> reads" where
  "arrives = map (Pair True)"

section \<open>The client\<close>

definition plain_reply :: "string \<Rightarrow> bool" where
  "plain_reply r \<longleftrightarrow> length r \<le> CLIENT_BUFFER - 1 \<and> NUL \<notin> set r"

lemma requests_append: "requests (xs @ ys) = requests xs @ requests ys"
  by (induction xs rule: requests.induct) auto

lemma shown_append: "shown (xs @ ys) = shown xs @ shown ys"
  by (induction xs rule: shown.induct) auto

lemma client_types:
  assumes "\<forall>x\<in>set ops. op_ok x" and "fd \<noteq> -1" and "length rs = length ops" and "\<forall>r\<in>set rs. plain_reply r"
  shows "\<exists>es. client_run (map (answered g) rs @ ns) (typed ops @ rest) fd =
       seq (client_run ns rest fd) (\<lambda>(fd', es', st). Inr (fd', es @ es', st)) \<and>
     requests es = map cmd_text ops \<and> shown es = concat (map (\<lambda>r. ''> '' @ r) rs)"
  using assms
proof (induction ops arbitrary: rs)
  case Nil
  show ?case
    by (rule exI [of _ "[]"]) (use Nil in \<open>cases "client_run ns rest fd"; auto simp: typed_def\<close>)
next
  case (Cons x ops)
  then obtain r rs' where r: "rs = r # rs'" by (cases rs) auto
  have x: "op_ok x" using Cons.prems(1) by simp
  obtain buf where buf: "read_line (cmd_text x @ nl # typed ops @ rest) = (buf, typed ops @ rest)" "cstr buf 0 = cmd_text x"
    using x cmd_text_chars [of x] by (auto simp: op_ok_def intro: read_line_text [of "cmd_text x" "typed ops @ rest"])
  have p: "cstr (fill_buffer CLIENT_BUFFER (take (CLIENT_BUFFER - 1) r)) 0 = r"
    using printed_in_full [of r] Cons.prems(4) r by (simp add: plain_reply_def)
  have step: "client_step (answered g r) buf fd = Inr (fd, [Sent fd (cmd_text x), Print r], Running)"
    using client_step_cmd [OF buf(2) Cons.prems(2), of "answered g r"] p by (simp add: answered_def)
  from Cons.IH [of rs'] Cons.prems r obtain es where
    es: "client_run (map (answered g) rs' @ ns) (typed ops @ rest) fd =
       seq (client_run ns rest fd) (\<lambda>(fd', es', st). Inr (fd', es @ es', st))"
      "requests es = map cmd_text ops" "shown es = concat (map (\<lambda>r. ''> '' @ r) rs')" by auto
  have "typed (x # ops) @ rest = cmd_text x @ nl # typed ops @ rest" by (simp add: typed_def)
  then show ?case
    using buf(1) es r step
    by (intro exI [of _ "Print ''> '' # Sent fd (cmd_text x) # Print r # es"])
      (cases "client_run ns rest fd"; auto simp: case_prod_unfold)
qed

lemma client_session:
  assumes "\<forall>x\<in>set ops. op_ok x" and "0 \<le> fd" and "address_ok addr ip port"
    and "length rs = length ops" and "\<forall>r\<in>set rs. plain_reply r"
  shows "\<exists>es. client_run (session_net fd (rs @ [bye])) (session_text addr ops) (-1) = Inr (-1, es, Exited 0) \<and>
     requests es = map cmd_text ops @ [''disconnect''] \<and>
     shown es = ''> OK'' @ nl # concat (map (\<lambda>r. ''> '' @ r) rs) @ ''> OK'' @ nl # []"
proof -
  let ?line = "''connect '' @ addr" and ?rest = "typed ops @ ''exit'' @ nl # []"
  have "nl \<notin> set ?line" "NUL \<notin> set ?line" "length ?line \<le> CLIENT_BUFFER - 3"
    using assms(3) by (auto simp: address_ok_def CLIENT_BUFFER_def)
  then obtain b1 where b1: "read_line (?line @ nl # ?rest) = (b1, ?rest)" "cstr b1 0 = ?line"
    "\<And>off. off \<le> length ?line \<Longrightarrow> cstr b1 off = drop off ?line"
    by (rule read_line_text [of ?line ?rest]) blast
  have c1: "client_step (answered fd []) b1 (-1) =
      Inr (fd, [Opened fd, ConnectTo fd ip (of_int port), Print (''OK'' @ [nl])], Running)"
    using b1(2) b1(3) [of 8] assms(2,3)
    by (simp add: client_step_connect strncmp_eq_take connect_to_server_def answered_def address_ok_def)
  obtain b2 where b2: "read_line (''exit'' @ nl # []) = (b2, [])" "cstr b2 0 = ''exit''"
    by (rule read_line_text [of "''exit''" "[]"]) (simp_all add: CLIENT_BUFFER_def)
  have c2: "client_step (answered fd bye) b2 fd =
      Inr (-1, [Sent fd ''disconnect'', Closed fd, Print (''OK'' @ [nl])], Exited 0)"
    using assms(2) by (simp add: client_step_def b2(2) strncmp_eq_take disconnect_from_server_def)
  from client_types [OF assms(1) _ assms(4,5), of fd fd "[answered fd bye]" "''exit'' @ nl # []"] assms(2) obtain es where
    es: "client_run (map (answered fd) rs @ [answered fd bye]) ?rest fd =
        seq (client_run [answered fd bye] (''exit'' @ nl # []) fd) (\<lambda>(fd', es', st). Inr (fd', es @ es', st))"
      "requests es = map cmd_text ops" "shown es = concat (map (\<lambda>r. ''> '' @ r) rs)" by auto
  let ?leaving = "[Print ''> '', Sent fd ''disconnect'', Closed fd, Print (''OK'' @ [nl])]"
  have "client_run (session_net fd (rs @ [bye])) (session_text addr ops) (-1) =
      Inr (-1, Print ''> '' # Opened fd # ConnectTo fd ip (of_int port) # Print (''OK'' @ [nl]) # es @ ?leaving, Exited 0)"
    using b1(1) c1 es(1) b2 c2 by (simp add: session_net_def session_text_def)
  then show ?thesis using es(2,3) by (simp add: requests_append shown_append)
qed

section \<open>The server\<close>

lemma request_disconnect: "request_of (fill_buffer BUFFER_SIZE ''disconnect'') = Inr Disconnect"
proof -
  have "cstr (fill_buffer BUFFER_SIZE ''disconnect'') 0 = ''disconnect''"
    using cstr_fill_buffer [of "''disconnect''" BUFFER_SIZE 0] by (simp add: BUFFER_SIZE_def)
  then show ?thesis using request_of_filled [of "''disconnect''"] by (simp add: strncmp_eq_take Let_def BUFFER_SIZE_def)
qed

text \<open>One connection, by the specification.\<close>

lemma server_session:
  assumes "kv_wf st" and "kv_text st" and "\<forall>x\<in>set ops. op_ok x"
  shows "\<exists>st' rs. serve_conn (arrives (map cmd_text ops @ [''disconnect''])) st = Inr (st', map reply_of rs @ [msg_ok]) \<and>
     run_spec kv_spec (kv_map st) ops = (kv_map st', rs) \<and> kv_wf st' \<and> kv_text st' \<and> length rs = length ops \<and>
     (\<forall>r\<in>set rs. plain_reply (reply_of r))"
  using assms
proof (induction ops arbitrary: st)
  case Nil
  then show ?case by (simp add: arrives_def handle_request_perform request_disconnect)
next
  case (Cons x ops)
  have x: "op_ok x" using Cons.prems(3) by simp
  from kv_exec_refines [OF Cons.prems(1), of x] obtain st1 r where
    st1: "kv_exec True x st = Inr (st1, r)" "kv_wf st1" "kv_spec x (kv_map st) = (kv_map st1, r)" by blast
  then have h: "handle_request True (fill_buffer BUFFER_SIZE (cmd_text x)) st = Inr (st1, reply_of r, False)"
    unfolding handle_request_perform request_of_cmd [OF x] by simp
  have t: "kv_text st1"
    using kv_spec_text [OF _ x, of "kv_map st"] Cons.prems(2) st1(3) unfolding kv_text_def by (metis fst_conv)
  have "plain_reply (reply_of r)" using reply_plain [OF Cons.prems(2), of x] st1(3) by (simp add: plain_reply_def)
  with Cons.IH [OF st1(2) t] Cons.prems(3) h st1(3) show ?case
    by (fastforce simp: arrives_def case_prod_unfold)
qed

lemma server_sessions:
  assumes "kv_wf st" and "kv_text st" and "\<forall>ops\<in>set users. \<forall>x\<in>set ops. op_ok x"
  shows "\<exists>st' rss. serve_clients (map (\<lambda>ops. arrives (map cmd_text ops @ [''disconnect''])) users) st =
       Inr (st', map (\<lambda>rs. map reply_of rs @ [msg_ok]) rss) \<and>
     run_spec kv_spec (kv_map st) (concat users) = (kv_map st', concat rss) \<and>
     list_all2 (\<lambda>ops rs. length rs = length ops \<and> (\<forall>r\<in>set rs. plain_reply (reply_of r))) users rss"
  using assms
proof (induction users arbitrary: st)
  case (Cons ops users)
  from server_session [OF Cons.prems(1,2), of ops] Cons.prems(3) obtain st1 rs where
    st1: "serve_conn (arrives (map cmd_text ops @ [''disconnect''])) st = Inr (st1, map reply_of rs @ [msg_ok])"
      "run_spec kv_spec (kv_map st) ops = (kv_map st1, rs)" "kv_wf st1" "kv_text st1" "length rs = length ops"
      "\<forall>r\<in>set rs. plain_reply (reply_of r)" by auto
  from Cons.IH [OF st1(3,4)] Cons.prems(3) obtain st2 rss where
    st2: "serve_clients (map (\<lambda>ops. arrives (map cmd_text ops @ [''disconnect''])) users) st1 =
       Inr (st2, map (\<lambda>rs. map reply_of rs @ [msg_ok]) rss)"
      "run_spec kv_spec (kv_map st1) (concat users) = (kv_map st2, concat rss)"
      "list_all2 (\<lambda>ops rs. length rs = length ops \<and> (\<forall>r\<in>set rs. plain_reply (reply_of r))) users rss" by auto
  then show ?case
    using st1 by (intro exI [of _ st2] exI [of _ "rs # rss"]) (simp add: run_spec_append)
qed simp

text \<open>What the server prints about a client that disconnects.\<close>

definition client_lines :: "string list" where
  "client_lines = [''Client connected.'', ''Client requested disconnect.'']"

lemma kv_conn_disconnect:
  "kv_conn (arrives (ws @ [''disconnect''])) st = Inr (st', r, l) \<Longrightarrow> length r = Suc (length ws) \<Longrightarrow>
     l = ''Client requested disconnect.''"
proof (induction ws arbitrary: st r)
  case Nil
  then show ?case by (simp add: arrives_def handle_request_perform request_disconnect)
next
  case (Cons w ws)
  from Cons.prems obtain st1 reply closed where h: "handle_request True (fill_buffer BUFFER_SIZE w) st = Inr (st1, reply, closed)"
    by (auto simp: arrives_def seq_Inr)
  have "\<not> closed" using Cons.prems h by (auto simp: arrives_def)
  then obtain r' where "kv_conn (arrives (ws @ [''disconnect''])) st1 = Inr (st', r', l)" "r = reply # r'"
    using Cons.prems(1) h by (auto simp: arrives_def seq_Inr)
  then show ?case using Cons.IH Cons.prems(2) by simp
qed

lemma accept_loop_lines:
  assumes "accept_loop (map (\<lambda>(fd, ws). (fd, arrives (ws @ [''disconnect'']))) cs) st = Inr (st', replies, ls, None)"
    and "map length replies = map (Suc \<circ> length \<circ> snd) cs"
  shows "ls = concat (replicate (length cs) client_lines)"
  using assms
proof (induction cs arbitrary: st replies ls)
  case (Cons c cs)
  obtain fd ws where c: "c = (fd, ws)" by (cases c)
  with Cons.prems(1) obtain st1 r l rest ls' where
    k: "kv_conn (arrives (ws @ [''disconnect''])) st = Inr (st1, r, l)"
    and a: "accept_loop (map (\<lambda>(fd, ws). (fd, arrives (ws @ [''disconnect'']))) cs) st1 = Inr (st', rest, ls', None)"
    and e: "replies = r # rest" "ls = ''Client connected.'' # l # ls'"
    by (auto simp: seq_Inr split: if_splits)
  have "l = ''Client requested disconnect.''" using kv_conn_disconnect [OF k] Cons.prems(2) e(1) c by simp
  moreover have "ls' = concat (replicate (length cs) client_lines)"
    using Cons.IH [OF a] Cons.prems(2) e(1) by simp
  ultimately show ?case using e(2) by (simp add: client_lines_def)
qed simp

lemma accept_loop_all:
  assumes "serve_clients (map snd cs) st = Inr (st', replies)" and "\<forall>c\<in>set cs. 0 \<le> fst c"
  shows "\<exists>ls. accept_loop cs st = Inr (st', replies, ls, None)"
proof -
  have "accepted cs = map snd cs" using assms(2) by (induction cs) (simp_all add: accepted_def)
  then obtain ls e where r: "accept_loop cs st = Inr (st', replies, ls, e)"
    using accept_loop_serve [of cs st] assms(1) by (auto simp: seq_Inr)
  moreover have "e = None" using accept_loop_end [OF r] assms(2) by (simp add: not_less)
  ultimately show ?thesis by blast
qed

text \<open>The requests that reach the server, and its \<open>main\<close> on them.\<close>

definition session_reads :: "(int \<times> kv_op list) list \<Rightarrow> (int \<times> reads) list" where
  "session_reads users = map (\<lambda>(fd, ops). (fd, arrives (map cmd_text ops @ [''disconnect'']))) users"

definition session_replies :: "kv_result list list \<Rightarrow> string list list" where
  "session_replies rss = map (\<lambda>rs. map reply_of rs @ [msg_ok]) rss"

lemma server_main_sessions:
  assumes "args a = prog # port # rest" and "atoi port = Inr portno" and "0 \<le> socket_ret a" and "0 \<le> bind_ret a"
    and "\<forall>u\<in>set users. 0 \<le> fst u \<and> (\<forall>x\<in>set (snd u). op_ok x)"
  shows "\<exists>st rss. kv_main a (session_reads users) =
       Inr (st, session_replies rss, listening portno # concat (replicate (length users) client_lines), None) \<and>
     run_spec kv_spec Map.empty (concat (map snd users)) = (kv_map st, concat rss) \<and>
     list_all2 (\<lambda>ops rs. length rs = length ops \<and> (\<forall>r\<in>set rs. plain_reply (reply_of r))) (map snd users) rss"
proof -
  have "kv_wf kv_init" "kv_text kv_init" by (simp_all add: kv_text_def)
  from server_sessions [OF this, of "map snd users"] assms(5) obtain st rss where
    s: "serve_clients (map (\<lambda>ops. arrives (map cmd_text ops @ [''disconnect''])) (map snd users)) kv_init =
       Inr (st, session_replies rss)"
      "run_spec kv_spec Map.empty (concat (map snd users)) = (kv_map st, concat rss)"
      "list_all2 (\<lambda>ops rs. length rs = length ops \<and> (\<forall>r\<in>set rs. plain_reply (reply_of r))) (map snd users) rss"
    by (auto simp: session_replies_def)
  have m: "map snd (session_reads users) = map (\<lambda>ops. arrives (map cmd_text ops @ [''disconnect''])) (map snd users)"
    by (simp add: session_reads_def case_prod_unfold)
  moreover have "\<forall>c\<in>set (session_reads users). 0 \<le> fst c" using assms(5) by (auto simp: session_reads_def)
  ultimately obtain ls where l: "accept_loop (session_reads users) kv_init = Inr (st, session_replies rss, ls, None)"
    using accept_loop_all s(1) by metis
  have "map length (session_replies rss) = map (Suc \<circ> length \<circ> snd) (map (\<lambda>(fd, ops). (fd, map cmd_text ops)) users)"
    using s(3) by (auto simp: session_replies_def list_all2_conv_all_nth case_prod_unfold intro!: nth_equalityI)
  then have "ls = concat (replicate (length users) client_lines)"
    using accept_loop_lines [of "map (\<lambda>(fd, ops). (fd, map cmd_text ops)) users" kv_init] l
    by (simp add: session_reads_def comp_def case_prod_unfold)
  with l s(2,3) show ?thesis using assms(1-4) by (auto simp: kv_main_def)
qed

lemma client_main_session:
  assumes "\<forall>x\<in>set ops. op_ok x" and "0 \<le> fd" and "address_ok addr ip port"
    and "length rs = length ops" and "\<forall>r\<in>set rs. plain_reply (reply_of r)"
  shows "\<exists>es. client_main (session_net fd (map reply_of rs @ [msg_ok])) (session_text addr ops) = Inr (-1, es, Exited 0) \<and>
     requests es = map cmd_text ops @ [''disconnect''] \<and>
     shown es = banner @ ''> OK'' @ nl # concat (map (\<lambda>r. ''> '' @ reply_of r) rs) @ ''> OK'' @ nl # []"
  using client_session [OF assms(1-3), of "map reply_of rs" msg_ok] assms(4,5)
  by (auto simp: client_main_def comp_def)

section \<open>Properties\<close>

text \<open>
  C6: Any number of users, one after the other, each with any sequence of well-formed commands: the server's \<open>main\<close>, given
  the requests that their clients send, answers as one finite map of at most 100 keys that lasts from user to user and prints its lines for each of them, and
  every client, given those answers, sends these requests, shows exactly the answers, leaves no socket open and ends
  with status 0.
\<close>

theorem users_share_one_map:
  assumes "args a = prog # port # rest" and "atoi port = Inr portno" and "0 \<le> socket_ret a" and "0 \<le> bind_ret a"
    and "\<forall>u\<in>set users. 0 \<le> fst u \<and> (\<forall>x\<in>set (snd u). op_ok x)"
  shows "\<exists>st rss.
     kv_main a (session_reads users) =
       Inr (st, session_replies rss, listening portno # concat (replicate (length users) client_lines), None) \<and>
     run_spec kv_spec Map.empty (concat (map snd users)) = (kv_map st, concat rss) \<and>
     map length rss = map (length \<circ> snd) users \<and>
     (\<forall>i<length users. \<forall>fd addr ip port. 0 \<le> fd \<and> address_ok addr ip port \<longrightarrow>
        (\<exists>es. client_main (session_net fd (session_replies rss ! i)) (session_text addr (snd (users ! i))) = Inr (-1, es, Exited 0) \<and>
           requests es = map cmd_text (snd (users ! i)) @ [''disconnect''] \<and>
           shown es = banner @ ''> OK'' @ nl # concat (map (\<lambda>r. ''> '' @ reply_of r) (rss ! i)) @ ''> OK'' @ nl # []))"
proof -
  from server_main_sessions [OF assms] obtain st rss where s:
    "kv_main a (session_reads users) =
       Inr (st, session_replies rss, listening portno # concat (replicate (length users) client_lines), None)"
    "run_spec kv_spec Map.empty (concat (map snd users)) = (kv_map st, concat rss)"
    "list_all2 (\<lambda>ops rs. length rs = length ops \<and> (\<forall>r\<in>set rs. plain_reply (reply_of r))) (map snd users) rss" by blast
  have n: "length rss = length users" using list_all2_lengthD [OF s(3)] by simp
  have at: "length (rss ! i) = length (snd (users ! i)) \<and> (\<forall>r\<in>set (rss ! i). plain_reply (reply_of r))" if "i < length users" for i
    using list_all2_nthD [OF s(3), of i] that by simp
  have l: "map length rss = map (length \<circ> snd) users" using n at by (intro nth_equalityI) auto
  have c: "\<exists>es. client_main (session_net fd (session_replies rss ! i)) (session_text addr (snd (users ! i))) = Inr (-1, es, Exited 0) \<and>
      requests es = map cmd_text (snd (users ! i)) @ [''disconnect''] \<and>
      shown es = banner @ ''> OK'' @ nl # concat (map (\<lambda>r. ''> '' @ reply_of r) (rss ! i)) @ ''> OK'' @ nl # []"
    if "i < length users" "0 \<le> fd" "address_ok addr ip port" for i fd addr ip port
    using client_main_session [OF _ that(2,3), of "snd (users ! i)" "rss ! i"] at [OF that(1)] assms(5) nth_mem [OF that(1)] n that(1)
    by (simp add: session_replies_def)
  from s(1,2) l c show ?thesis by blast
qed

theorem users_share_one_map_witness:
  "\<exists>st. kv_main \<lparr>args = [''./kv-server'', ''5000''], socket_ret = 3, bind_ret = 0\<rparr>
       [(0, [(True, cmd_text (Create 7 ''cat'')), (True, ''disconnect'')]), (4, [(True, cmd_text (Read 7)), (True, ''disconnect'')])] =
     Inr (st, [[msg_ok, msg_ok], [value_reply ''cat'', msg_ok]], listening 5000 # client_lines @ client_lines, None)"
proof -
  let ?a = "\<lparr>args = [''./kv-server'', ''5000''], socket_ret = 3, bind_ret = 0\<rparr>"
  let ?users = "[(0, [Create 7 ''cat'']), (4, [Read 7])] :: (int \<times> kv_op list) list"
  have e: "session_reads ?users =
      [(0, [(True, cmd_text (Create 7 ''cat'')), (True, ''disconnect'')]), (4, [(True, cmd_text (Read 7)), (True, ''disconnect'')])]"
    by (simp add: session_reads_def arrives_def del: cmd_text.simps)
  have p: "atoi ''5000'' = Inr 5000" by code_simp
  have h: "args ?a = ''./kv-server'' # ''5000'' # []" "0 \<le> socket_ret ?a" "0 \<le> bind_ret ?a"
    "\<forall>u\<in>set ?users. 0 \<le> fst u \<and> (\<forall>x\<in>set (snd u). op_ok x)"
    using typed_ok by simp_all
  obtain st rss where
    r: "kv_main ?a (session_reads ?users) = Inr (st, session_replies rss, listening 5000 # concat (replicate (length ?users) client_lines), None)"
    and s: "run_spec kv_spec Map.empty (concat (map snd ?users)) = (kv_map st, concat rss)"
    and l: "map length rss = map (length \<circ> snd) ?users"
    using users_share_one_map [OF h(1) p h(2-4)] by (elim exE conjE) (rule that, assumption+)
  from l obtain x y where "rss = [[x], [y]]" by (auto simp: map_eq_Cons_conv length_Suc_conv)
  moreover from this s have "x = Msg msg_ok" "y = Value ''cat''" by (auto simp: MAX_PAIRS_def Let_def)
  ultimately have "session_replies rss = [[msg_ok, msg_ok], [value_reply ''cat'', msg_ok]]" by (simp add: session_replies_def)
  with r show ?thesis unfolding e by (intro exI [of _ st]) (simp add: numeral_2_eq_2)
qed

end
