(* ===== verification/ShellTokens.thy ===== *)
theory ShellTokens
  imports CString
begin

text \<open>
  The input line and the tokenizer of \<open>shell-code/my_shell.c\<close> (\<open>tokenize\<close> and the reading part of
  \<open>main\<close>). The two fixed sizes, 64 bytes for the word being read and 64 cells for the result,
  are checked where the code would write past them. The tokens array is the list of its
  initialised cells, \<open>None\<close> for \<open>NULL\<close>.
\<close>

section \<open>The tokenizer\<close>

definition MAX_INPUT_SIZE :: nat where "MAX_INPUT_SIZE = 1024"
definition MAX_TOKEN_SIZE :: nat where "MAX_TOKEN_SIZE = 64"
definition MAX_NUM_TOKENS :: nat where "MAX_NUM_TOKENS = 64"

type_synonym cells = "string option list"

definition is_sep :: "char \<Rightarrow> bool" where
  "is_sep c \<longleftrightarrow> c = CHR '' '' \<or> c = nl \<or> c = CHR 0x09"

text \<open>
  \<open>tok\<close> is the word read so far, \<open>ts\<close> the tokens stored so far; \<open>mem k\<close> tells whether the
  \<open>k\<close>-th \<open>malloc\<close> succeeds (0 the array, 1 the word buffer, then one per token).
\<close>

fun tok_loop :: "(nat \<Rightarrow> bool) \<Rightarrow> string \<Rightarrow> string \<Rightarrow> string list \<Rightarrow> string list outcome" where
  "tok_loop mem [] tok ts = Inr ts"
| "tok_loop mem (c # cs) tok ts =
     (if is_sep c then
        (if length tok \<ge> MAX_TOKEN_SIZE then Inl OutOfBounds
         else if tok = [] then tok_loop mem cs [] ts
         else if length ts \<ge> MAX_NUM_TOKENS then Inl OutOfBounds
         else if \<not> mem 0 \<or> \<not> mem (2 + length ts) then Inl NullDeref
         else tok_loop mem cs [] (ts @ [tok]))
      else if length tok \<ge> MAX_TOKEN_SIZE then Inl OutOfBounds
      else tok_loop mem cs (tok @ [c]) ts)"

definition tokenize :: "(nat \<Rightarrow> bool) \<Rightarrow> string \<Rightarrow> cells outcome" where
  "tokenize mem line =
     (if line \<noteq> [] \<and> \<not> mem 1 then Inl NullDeref
      else seq (tok_loop mem line [] []) (\<lambda>ts.
        if \<not> mem 0 then Inl NullDeref
        else if length ts \<ge> MAX_NUM_TOKENS then Inl OutOfBounds
        else Inr (map Some ts @ [None])))"

text \<open>
  \<open>scanf("%[^\n]", line)\<close> into the cleared buffer, \<open>line[strlen(line)] = '\n'\<close>, and the string
  that is then in the buffer.
\<close>

definition input_line :: "string \<Rightarrow> string outcome" where
  "input_line s =
     (if length s \<ge> MAX_INPUT_SIZE then Inl OutOfBounds
      else
        (let buf = fill_buffer MAX_INPUT_SIZE s;
             buf' = buf[length (cstr buf 0) := nl] in
         if NUL \<notin> set buf' then Inl OutOfBounds else Inr (cstr buf' 0)))"

section \<open>Words\<close>

text \<open>The reference: the pieces between separators.\<close>

fun pieces :: "string \<Rightarrow> string list" where
  "pieces [] = [[]]"
| "pieces (c # s) = (if is_sep c then [] # pieces s else (c # hd (pieces s)) # tl (pieces s))"

definition words :: "string \<Rightarrow> string list" where
  "words s = filter (\<lambda>w. w \<noteq> []) (pieces s)"

text \<open>A tokenizer that is given a word in front continues it.\<close>

definition continued :: "string \<Rightarrow> string \<Rightarrow> string list" where
  "continued tok s = (tok @ hd (pieces s)) # tl (pieces s)"

lemma pieces_ne [simp]: "pieces s \<noteq> []"
  by (cases s) auto

lemma continued_simps:
  "continued tok [] = [tok]"
  "is_sep c \<Longrightarrow> continued tok (c # s) = tok # continued [] s"
  "\<not> is_sep c \<Longrightarrow> continued tok (c # s) = continued (tok @ [c]) s"
  by (simp_all add: continued_def)

lemma continued_ne [simp]: "continued tok s \<noteq> []"
  by (simp add: continued_def)

lemma continued_Nil: "continued [] s = pieces s"
  by (simp add: continued_def)

definition fits_tokens :: "string list \<Rightarrow> nat \<Rightarrow> bool" where
  "fits_tokens ps n \<longleftrightarrow> (\<forall>w\<in>set (butlast ps). length w < MAX_TOKEN_SIZE) \<and>
     length (last ps) \<le> MAX_TOKEN_SIZE \<and> n + length (filter (\<lambda>w. w \<noteq> []) (butlast ps)) \<le> MAX_NUM_TOKENS"

lemma long_word: "MAX_TOKEN_SIZE < length tok \<Longrightarrow> \<not> fits_tokens (continued tok s) n"
  unfolding fits_tokens_def continued_def by (cases "tl (pieces s)") auto

lemma tok_loop_eq:
  assumes "length tok \<le> MAX_TOKEN_SIZE" "length ts \<le> MAX_NUM_TOKENS" "\<And>k. mem k"
  shows "tok_loop mem s tok ts =
     (if fits_tokens (continued tok s) (length ts)
      then Inr (ts @ filter (\<lambda>w. w \<noteq> []) (butlast (continued tok s))) else Inl OutOfBounds)"
  using assms(1,2)
proof (induction s arbitrary: tok ts)
  case Nil
  then show ?case by (simp add: continued_simps fits_tokens_def)
next
  case (Cons c s)
  show ?case
  proof (cases "is_sep c")
    case True
    note e = continued_simps(2) [OF True, of tok s]
    consider "length tok = MAX_TOKEN_SIZE" | "tok = []"
      | "0 < length tok" "length tok < MAX_TOKEN_SIZE" "length ts = MAX_NUM_TOKENS"
      | "0 < length tok" "length tok < MAX_TOKEN_SIZE" "length ts < MAX_NUM_TOKENS"
      using Cons.prems by fastforce
    then show ?thesis
    proof cases
      case 1
      then show ?thesis using True by (simp add: e fits_tokens_def)
    next
      case 2
      then show ?thesis using True Cons.IH [of "[]" ts] Cons.prems e by (simp add: fits_tokens_def MAX_TOKEN_SIZE_def)
    next
      case 3
      then show ?thesis using True by (simp add: e fits_tokens_def)
    next
      case 4
      then show ?thesis using True Cons.IH [of "[]" "ts @ [tok]"] assms(3) by (simp add: e fits_tokens_def)
    qed
  next
    case False
    note e = continued_simps(3) [OF False, of tok s]
    show ?thesis
    proof (cases "length tok = MAX_TOKEN_SIZE")
      case True
      then show ?thesis using False long_word [of "tok @ [c]" s] by (simp add: e)
    next
      case l: False
      then show ?thesis using False Cons.IH [of "tok @ [c]" ts] Cons.prems by (simp add: e)
    qed
  qed
qed

text \<open>A line that ends with a separator has no unfinished word.\<close>

lemma pieces_snoc: "is_sep c \<Longrightarrow> pieces (s @ [c]) = pieces s @ [[]]"
proof (induction s)
  case (Cons x s)
  then show ?case by (cases "pieces s") auto
qed simp

lemma words_snoc: "is_sep c \<Longrightarrow> filter (\<lambda>w. w \<noteq> []) (butlast (pieces (s @ [c]))) = words s"
  by (simp add: pieces_snoc words_def)

definition line_fits :: "string \<Rightarrow> bool" where
  "line_fits s \<longleftrightarrow> (\<forall>w\<in>set (words s). length w < MAX_TOKEN_SIZE) \<and> length (words s) < MAX_NUM_TOKENS"

lemma tokenize_line:
  assumes "\<And>k. mem k"
  shows "tokenize mem (s @ [nl]) =
     (if line_fits s then Inr (map Some (words s) @ [None]) else Inl OutOfBounds)"
proof -
  have nl: "is_sep nl" by (simp add: is_sep_def)
  have w: "(\<forall>w\<in>set (pieces s). length w < MAX_TOKEN_SIZE) \<longleftrightarrow> (\<forall>w\<in>set (words s). length w < MAX_TOKEN_SIZE)"
    by (auto simp: words_def MAX_TOKEN_SIZE_def)
  have "tok_loop mem (s @ [nl]) [] [] =
      (if fits_tokens (pieces (s @ [nl])) 0 then Inr (words s) else Inl OutOfBounds)"
    using tok_loop_eq [of "[]" "[]" mem "s @ [nl]", OF _ _ assms] words_snoc [OF nl, of s] by (simp add: continued_Nil)
  moreover have "fits_tokens (pieces (s @ [nl])) 0 \<longleftrightarrow>
      (\<forall>w\<in>set (words s). length w < MAX_TOKEN_SIZE) \<and> length (words s) \<le> MAX_NUM_TOKENS"
    using w by (auto simp: fits_tokens_def pieces_snoc [OF nl] words_def)
  ultimately show ?thesis
    using assms by (auto simp: tokenize_def line_fits_def)
qed

text \<open>A typed line is read whole when it is shorter than the buffer less newline and NUL.\<close>

lemma input_line_text:
  assumes "NUL \<notin> set s"
  shows "input_line s = (if length s \<le> MAX_INPUT_SIZE - 2 then Inr (s @ [nl]) else Inl OutOfBounds)"
proof (cases "length s < MAX_INPUT_SIZE")
  case True
  let ?r = "replicate (MAX_INPUT_SIZE - Suc (length s)) NUL"
  have b: "fill_buffer MAX_INPUT_SIZE s = s @ NUL # ?r"
    using True by (simp add: fill_buffer_def flip: replicate_Suc)
  have c: "cstr (t @ NUL # r) 0 = t" if "NUL \<notin> set t" for t r
    unfolding cstr_def using that by (simp add: takeWhile_append takeWhile_eq_all_conv)
  have up: "(s @ NUL # ?r)[length s := nl] = (s @ [nl]) @ ?r" by simp
  show ?thesis
  proof (cases "length s \<le> MAX_INPUT_SIZE - 2")
    case True
    define m where "m = MAX_INPUT_SIZE - 2 - length s"
    have "MAX_INPUT_SIZE - Suc (length s) = Suc m"
      using True by (simp add: m_def MAX_INPUT_SIZE_def)
    then have m: "?r = NUL # replicate m NUL" by simp
    have "cstr ((s @ [nl]) @ NUL # replicate m NUL) 0 = s @ [nl]" by (rule c) (use assms in simp)
    then show ?thesis using True \<open>length s < MAX_INPUT_SIZE\<close>
      unfolding input_line_def b Let_def c [OF assms] up m by simp
  next
    case False
    then have "?r = []" using \<open>length s < MAX_INPUT_SIZE\<close> by simp
    then show ?thesis using False assms \<open>length s < MAX_INPUT_SIZE\<close>
      unfolding input_line_def b Let_def c [OF assms] up by simp
  qed
next
  case False
  then show ?thesis by (simp add: input_line_def MAX_INPUT_SIZE_def)
qed

section \<open>Properties\<close>

text \<open>
  C25: Reading a typed line and splitting it gives exactly the words between blanks, tabs and
  newlines, in order and without empty ones, when the line, its words and their number fit the
  three fixed sizes; in every other case the code writes outside an array.
\<close>

theorem read_and_split:
  assumes "NUL \<notin> set s" and "\<And>k. mem k"
  shows "seq (input_line s) (tokenize mem) =
     (if length s \<le> 1022 \<and> line_fits s then Inr (map Some (words s) @ [None]) else Inl OutOfBounds)"
  using tokenize_line [of mem s, OF assms(2)] by (simp add: input_line_text [OF assms(1)] MAX_INPUT_SIZE_def)

theorem read_and_split_witness:
  "seq (input_line ''ls  -l'') (tokenize (\<lambda>_. True)) = Inr [Some ''ls'', Some ''-l'', None]"
proof -
  have "words ''ls  -l'' = [''ls'', ''-l'']" by (simp add: words_def is_sep_def)
  then show ?thesis
    using read_and_split [of "''ls  -l''" "\<lambda>_. True"]
    by (simp add: line_fits_def MAX_TOKEN_SIZE_def MAX_NUM_TOKENS_def)
qed

end
