(* ===== verification/Shell.thy ===== *)
theory Shell
  imports ShellTokens
begin

text \<open>
  Process control of \<open>shell-code/my_shell.c\<close>, seen from the parent process: every call of the
  operating system is an event of the trace, every answer comes from an environment record.
  A \<open>fork\<close> answers in the parent with a positive pid or fails; the child's \<open>execvp\<close> is the
  \<open>Spawn\<close> event with its argument vector. The arrival of a SIGINT is an event too.
\<close>

section \<open>State, events, environment\<close>

definition MAX_BACKGROUND_PROCESSES :: nat where "MAX_BACKGROUND_PROCESSES = 64"

datatype signal = SIGINT | SIGTERM
datatype stdio = Plain | ToPipe | FromPipe

datatype shell_event =
    Spawn int "string list" stdio
  | Waited int
  | Interrupted
  | Kill int signal
  | Chdir string
  | PipeOpened
  | PipeClosed
  | Stdout string
  | Stderr string

record shell =
  fg_pid :: int
  stop_execution :: bool
  parallel_pids :: "int list"
  parallel_pid_count :: nat
  background_pids :: "int list"
  bg_count :: nat
  trace :: "shell_event list"
  halted :: "int option"

text \<open>
  What happens while one line is processed. The answers are indexed by the token at which the
  code asks: \<open>fork_at i\<close> is the answer of the \<open>fork\<close> made at token \<open>i\<close>; SIGINT may arrive before
  the loop test at token \<open>i\<close>, between that test and the \<open>fork\<close> (\<open>int_tested\<close>), between the \<open>fork\<close> and the
  recording of its pid, during the \<open>waitpid\<close> that follows, or after it and before \<open>fg_pid\<close> is reset.
\<close>

record env =
  mem :: "nat \<Rightarrow> bool"
  reaped :: nat
  fork_at :: "nat \<Rightarrow> int"
  int_before :: "nat \<Rightarrow> bool"
  int_tested :: "nat \<Rightarrow> bool"
  int_forked :: "nat \<Rightarrow> bool"
  int_wait :: "nat \<Rightarrow> bool"
  int_waited :: "nat \<Rightarrow> bool"
  chdir_ok :: bool
  pipe_ok :: bool

definition emit :: "shell_event \<Rightarrow> shell \<Rightarrow> shell" where
  "emit e st = st\<lparr>trace := trace st @ [e]\<rparr>"

text \<open>The initial values of the globals and of the locals of \<open>main\<close>.\<close>

definition shell_init :: shell where
  "shell_init = \<lparr>fg_pid = -1, stop_execution = False, parallel_pids = replicate MAX_NUM_TOKENS 0,
     parallel_pid_count = 0, background_pids = replicate MAX_BACKGROUND_PROCESSES 0, bg_count = 0,
     trace = [], halted = None\<rparr>"

section \<open>Signals\<close>

definition handle_sigint :: "shell \<Rightarrow> shell" where
  "handle_sigint st =
     (if fg_pid st \<noteq> -1 then st\<lparr>trace := trace st @ [Interrupted, Kill (fg_pid st) SIGINT], stop_execution := True\<rparr>
      else st\<lparr>trace := trace st @ Interrupted # map (\<lambda>p. Kill p SIGINT) (take (parallel_pid_count st) (parallel_pids st)),
              stop_execution := True\<rparr>)"

definition sigint_if :: "bool \<Rightarrow> shell \<Rightarrow> shell" where
  "sigint_if b st = (if b then handle_sigint st else st)"

definition reap_background_processes :: "env \<Rightarrow> shell \<Rightarrow> shell" where
  "reap_background_processes e st =
     st\<lparr>trace := trace st @ replicate (reaped e) (Stdout ''Shell: Background process finished'')\<rparr>"

definition terminate_background_processes :: "shell \<Rightarrow> shell" where
  "terminate_background_processes st =
     st\<lparr>trace := trace st @ map (\<lambda>p. Kill p SIGTERM) (take (bg_count st) (background_pids st))\<rparr>"

section \<open>Cells of the tokens array\<close>

definition cell :: "cells \<Rightarrow> nat \<Rightarrow> string option outcome" where
  "cell ts i = (if i < length ts then Inr (ts ! i) else Inl OutOfBounds)"

text \<open>The argument vector that starts at cell \<open>i\<close>: up to the next \<open>NULL\<close>.\<close>

definition argv :: "cells \<Rightarrow> nat \<Rightarrow> string list" where
  "argv ts i = map the (takeWhile (\<lambda>c. c \<noteq> None) (drop i ts))"

text \<open>\<open>strcmp(tokens[0], s) == 0\<close>: reading through a \<open>NULL\<close> token is undefined.\<close>

definition first_is :: "cells \<Rightarrow> string \<Rightarrow> bool outcome" where
  "first_is ts s = seq (cell ts 0) (\<lambda>c. case c of None \<Rightarrow> Inl NullDeref | Some w \<Rightarrow> Inr (w = s))"

definition cd :: "env \<Rightarrow> cells \<Rightarrow> shell \<Rightarrow> shell outcome" where
  "cd e ts st =
     seq (cell ts 1) (\<lambda>c. Inr (case c of
         None \<Rightarrow> emit (Stderr ''cd: expected argument'') st
       | Some d \<Rightarrow> (if chdir_ok e then emit (Chdir d) st
                    else emit (Stderr ''cd failed'') (emit (Chdir d) st))))"

section \<open>Foreground commands\<close>

definition fork_failed :: "shell \<Rightarrow> shell" where
  "fork_failed st = (emit (Stderr ''fork failed'') st)\<lparr>halted := Some 1\<rparr>"

text \<open>\<open>fork\<close>, \<open>execvp\<close> in the child, \<open>waitpid\<close> in the parent with \<open>fg_pid\<close> set meanwhile.\<close>

definition run_and_wait :: "env \<Rightarrow> nat \<Rightarrow> string list \<Rightarrow> shell \<Rightarrow> shell" where
  "run_and_wait e i args st =
     (let st = sigint_if (int_tested e i) st; pid = fork_at e i in
      if pid > 0 then
        (let st = sigint_if (int_forked e i) (emit (Spawn pid args Plain) st);
             st = sigint_if (int_wait e i) (st\<lparr>fg_pid := pid\<rparr>);
             st = sigint_if (int_waited e i) (emit (Waited pid) st) in
         st\<lparr>fg_pid := -1\<rparr>)
      else fork_failed st)"

fun find_pipe :: "cells \<Rightarrow> nat \<Rightarrow> nat \<Rightarrow> nat option outcome" where
  "find_pipe ts i 0 = Inl OutOfBounds"
| "find_pipe ts i (Suc n) =
     seq (cell ts i) (\<lambda>c. case c of
         None \<Rightarrow> Inr None
       | Some w \<Rightarrow> if w = ''|'' then Inr (Some i) else find_pipe ts (Suc i) n)"

text \<open>
  Two children and a pipe, the array cut at cell \<open>i\<close>. The answers of the two \<open>fork\<close> calls are not
  checked: after a failed one the parent goes on, and its \<open>waitpid\<close> is called with \<open>-1\<close>.
\<close>

definition pipe_children :: "env \<Rightarrow> cells \<Rightarrow> nat \<Rightarrow> shell \<Rightarrow> shell" where
  "pipe_children e ts i st =
     (let pid1 = fork_at e 0; pid2 = fork_at e (Suc i);
          st = sigint_if (int_tested e 0) (emit PipeOpened st);
          st = (if pid1 > 0 then emit (Spawn pid1 (argv ts 0) ToPipe) st else st);
          st = sigint_if (int_forked e 0) st;
          st = (if pid2 > 0 then emit (Spawn pid2 (argv ts (Suc i)) FromPipe) st else st);
          st = emit PipeClosed (sigint_if (int_forked e (Suc i)) st);
          st = emit (Waited pid1) (sigint_if (int_wait e 0) st);
          st = emit (Waited pid2) (sigint_if (int_wait e (Suc i)) st) in
      st)"

definition execute_pipe :: "env \<Rightarrow> cells \<Rightarrow> shell \<Rightarrow> (cells \<times> shell) outcome" where
  "execute_pipe e ts st =
     seq (find_pipe ts 0 (Suc (length ts))) (\<lambda>r. case r of
         None \<Rightarrow> Inr (ts, emit (Stderr ''Invalid pipe syntax'') st)
       | Some i \<Rightarrow>
           (let ts = ts[i := None] in
            if \<not> pipe_ok e then Inr (ts, emit (Stderr ''pipe'') st)
            else Inr (ts, pipe_children e ts i st)))"

definition forground_process :: "env \<Rightarrow> cells \<Rightarrow> shell \<Rightarrow> (cells \<times> shell) outcome" where
  "forground_process e ts st =
     seq (find_pipe ts 0 (Suc (length ts))) (\<lambda>r. case r of
         Some _ \<Rightarrow> execute_pipe e ts st
       | None \<Rightarrow>
           seq (first_is ts ''cd'') (\<lambda>is_cd.
             if is_cd then seq (cd e ts st) (\<lambda>st. Inr (ts, st))
             else Inr (ts, run_and_wait e 0 (argv ts 0) st)))"

section \<open>Background commands\<close>

definition background_process :: "env \<Rightarrow> cells \<Rightarrow> shell \<Rightarrow> shell outcome" where
  "background_process e ts st =
     seq (first_is ts ''cd'') (\<lambda>is_cd.
       if is_cd then cd e ts st
       else
         (let st = sigint_if (int_tested e 0) st; pid = fork_at e 0 in
          if pid > 0 then
            (let st = sigint_if (int_forked e 0) (emit (Spawn pid (argv ts 0) Plain) st) in
             if bg_count st < MAX_BACKGROUND_PROCESSES
             then Inr (st\<lparr>background_pids := (background_pids st)[bg_count st := pid], bg_count := Suc (bg_count st)\<rparr>)
             else Inr (emit (Stderr ''Too many background processes'') st))
          else Inr (fork_failed st)))"

section \<open>Serial commands\<close>

text \<open>The loop over the cells; \<open>tc\<close> and \<open>ci\<close> are \<open>tokenCount\<close> and \<open>command_index\<close>.\<close>

function serial_loop :: "env \<Rightarrow> cells \<Rightarrow> nat \<Rightarrow> nat \<Rightarrow> shell \<Rightarrow> (cells \<times> nat \<times> nat \<times> shell) outcome" where
  "serial_loop e ts tc ci st =
     (if tc < length ts then
        (let st = sigint_if (int_before e tc) st in
         case ts ! tc of
           None \<Rightarrow> Inr (ts, tc, ci, st)
         | Some w \<Rightarrow>
             if stop_execution st then Inr (ts, tc, ci, st)
             else if w = ''&&'' then
               (let ts' = ts[tc := None]; st' = run_and_wait e tc (argv ts' ci) st in
                if halted st' \<noteq> None then Inr (ts', tc, ci, st')
                else serial_loop e ts' (Suc tc) (Suc tc) st')
             else serial_loop e ts (Suc tc) ci st)
      else Inl OutOfBounds)"
  by pat_completeness auto
termination by (relation "measure (\<lambda>(e, ts, tc, ci, st). length ts - tc)") auto

declare serial_loop.simps [simp del]

definition serial_process :: "env \<Rightarrow> cells \<Rightarrow> shell \<Rightarrow> (cells \<times> shell) outcome" where
  "serial_process e ts st =
     seq (serial_loop e ts 0 0 st) (\<lambda>(ts, tc, ci, st).
       if halted st = None \<and> ci < tc \<and> \<not> stop_execution st
       then Inr (ts, run_and_wait e tc (argv ts ci) st)
       else Inr (ts, st))"

section \<open>Parallel commands\<close>

text \<open>\<open>parallel_pids[parallel_pid_count] = pid; parallel_pid_count++\<close>: the index is not checked.\<close>

definition run_parallel :: "env \<Rightarrow> nat \<Rightarrow> string list \<Rightarrow> shell \<Rightarrow> shell outcome" where
  "run_parallel e i args st =
     (let st = sigint_if (int_tested e i) st; pid = fork_at e i in
      if pid > 0 then
        (let st = sigint_if (int_forked e i) (emit (Spawn pid args Plain) st) in
         if parallel_pid_count st \<ge> MAX_NUM_TOKENS then Inl OutOfBounds
         else Inr (st\<lparr>parallel_pids := (parallel_pids st)[parallel_pid_count st := pid],
                      parallel_pid_count := Suc (parallel_pid_count st)\<rparr>))
      else Inr (fork_failed st))"

function parallel_loop :: "env \<Rightarrow> cells \<Rightarrow> nat \<Rightarrow> nat \<Rightarrow> shell \<Rightarrow> (cells \<times> nat \<times> nat \<times> shell) outcome" where
  "parallel_loop e ts tc ci st =
     (if tc < length ts then
        (let st = sigint_if (int_before e tc) st in
         case ts ! tc of
           None \<Rightarrow> Inr (ts, tc, ci, st)
         | Some w \<Rightarrow>
             if stop_execution st then Inr (ts, tc, ci, st)
             else if w = ''&&&'' then
               (let ts' = ts[tc := None] in
                seq (run_parallel e tc (argv ts' ci) st) (\<lambda>st'.
                  if halted st' \<noteq> None then Inr (ts', tc, ci, st')
                  else parallel_loop e ts' (Suc tc) (Suc tc) st'))
             else parallel_loop e ts (Suc tc) ci st)
      else Inl OutOfBounds)"
  by pat_completeness auto
termination by (relation "measure (\<lambda>(e, ts, tc, ci, st). length ts - tc)") auto

declare parallel_loop.simps [simp del]

text \<open>\<open>for (i = 0; i < parallel_pid_count; i++) waitpid(parallel_pids[i], NULL, 0)\<close>.\<close>

fun wait_all :: "env \<Rightarrow> nat \<Rightarrow> int list \<Rightarrow> shell \<Rightarrow> shell" where
  "wait_all e k [] st = st"
| "wait_all e k (p # ps) st = wait_all e (Suc k) ps (emit (Waited p) (sigint_if (int_wait e k) st))"

definition parallel_process :: "env \<Rightarrow> cells \<Rightarrow> shell \<Rightarrow> (cells \<times> shell) outcome" where
  "parallel_process e ts st =
     seq (parallel_loop e ts 0 0 st) (\<lambda>(ts, tc, ci, st).
       seq (if halted st = None \<and> ci < tc \<and> \<not> stop_execution st
            then run_parallel e tc (argv ts ci) st else Inr st) (\<lambda>st.
         if halted st \<noteq> None then Inr (ts, st)
         else Inr (ts, wait_all e 0 (take (parallel_pid_count st) (parallel_pids st)) st)))"

section \<open>One round of the main loop\<close>

definition is_background :: "string list \<Rightarrow> bool" where
  "is_background ws \<longleftrightarrow> ws \<noteq> [] \<and> last ws = ''&''"

definition dispatch :: "env \<Rightarrow> cells \<Rightarrow> shell \<Rightarrow> (cells \<times> shell) outcome" where
  "dispatch e ts st =
     (let ws = argv ts 0; isSerial = (''&&'' \<in> set ws); isParallel = (''&&&'' \<in> set ws);
          isBackground = is_background ws;
          ts = (if isBackground then ts[length ws - 1 := None] else ts) in
      if isSerial then serial_process e ts st
      else if isParallel then parallel_process e ts st
      else if isBackground then seq (background_process e ts st) (\<lambda>st. Inr (ts, st))
      else forground_process e ts st)"

text \<open>The round for the typed line \<open>s\<close>, from the prompt to the end of the command.\<close>

definition shell_line :: "env \<Rightarrow> string \<Rightarrow> shell \<Rightarrow> shell outcome" where
  "shell_line e s st =
     (let st = emit (Stdout ''$ '') (reap_background_processes e st) in
      seq (input_line s) (\<lambda>line.
        seq (tokenize (mem e) line) (\<lambda>ts.
          if ts ! 0 \<noteq> None \<and> the (ts ! 0) = ''exit''
          then Inr ((terminate_background_processes (emit (Stdout ''Exiting the shell...'') st))\<lparr>halted := Some 0\<rparr>)
          else seq (dispatch e ts (st\<lparr>stop_execution := False\<rparr>)) (\<lambda>(ts', st'). Inr st'))))"

text \<open>The shell on typed lines and interrupts that arrive while it waits at the prompt.\<close>

datatype shell_action = Typed env string | Interrupt

fun shell_step :: "shell_action \<Rightarrow> shell \<Rightarrow> shell outcome" where
  "shell_step (Typed e s) st = shell_line e s st"
| "shell_step Interrupt st = Inr (handle_sigint st)"

fun shell_run :: "shell_action list \<Rightarrow> shell \<Rightarrow> shell outcome" where
  "shell_run [] st = Inr st"
| "shell_run (a # as) st = (if halted st \<noteq> None then Inr st else seq (shell_step a st) (shell_run as))"

section \<open>The token array as a list of words\<close>

lemma argv_words: "drop i ts = map Some ws @ None # r \<Longrightarrow> argv ts i = ws"
  unfolding argv_def by (simp add: takeWhile_append takeWhile_eq_all_conv)

lemma argv_tokens [simp]: "argv (map Some ws @ [None]) 0 = ws"
  by (rule argv_words [where r = "[]"]) simp

lemma drop_nth: "drop i ts = x # r \<Longrightarrow> i < length ts \<and> ts ! i = x \<and> drop (Suc i) ts = r"
  by (metis Cons_nth_drop_Suc drop_eq_Nil leI list.distinct(1) list.inject)

text \<open>
  What serial execution does, on words: \<open>i\<close> is the position, \<open>cur\<close> the command read so far.
\<close>

fun serial_spec :: "env \<Rightarrow> nat \<Rightarrow> string list \<Rightarrow> string list \<Rightarrow> shell \<Rightarrow> shell" where
  "serial_spec e i cur [] st =
     (let st = sigint_if (int_before e i) st in
      if cur \<noteq> [] \<and> \<not> stop_execution st then run_and_wait e i cur st else st)"
| "serial_spec e i cur (w # ws) st =
     (let st = sigint_if (int_before e i) st in
      if stop_execution st then st
      else if w = ''&&'' then
        (let st' = run_and_wait e i cur st in
         if halted st' \<noteq> None then st' else serial_spec e (Suc i) [] ws st')
      else serial_spec e (Suc i) (cur @ [w]) ws st)"

text \<open>
  \<open>array_at ts ci cur rest\<close>: from cell \<open>ci\<close> on, the array holds the words of the current command,
  then those still to be read, then \<open>NULL\<close>.
\<close>

definition array_at :: "cells \<Rightarrow> nat \<Rightarrow> string list \<Rightarrow> string list \<Rightarrow> bool" where
  "array_at ts ci cur rest \<longleftrightarrow> (\<exists>r. drop ci ts = map Some (cur @ rest) @ None # r)"

lemma array_at_cell:
  assumes "array_at ts ci cur rest"
  shows "ci + length cur < length ts \<and> ts ! (ci + length cur) = (case rest of [] \<Rightarrow> None | w # _ \<Rightarrow> Some w)"
proof -
  from assms obtain r where "drop ci ts = map Some (cur @ rest) @ None # r" by (auto simp: array_at_def)
  then have "drop (length cur) (drop ci ts) = map Some rest @ None # r" by simp
  then have "drop (ci + length cur) ts = map Some rest @ None # r" by (simp add: add.commute)
  then show ?thesis by (cases rest) (auto dest: drop_nth)
qed

lemma array_at_next: "array_at ts ci cur (w # rest) \<Longrightarrow> array_at ts ci (cur @ [w]) rest"
  by (simp add: array_at_def)

lemma array_at_cut:
  assumes "array_at ts ci cur (w # rest)"
  defines "ts' \<equiv> ts[ci + length cur := None]"
  shows "argv ts' ci = cur" "array_at ts' (Suc (ci + length cur)) [] rest"
proof -
  from assms obtain r where "drop ci ts = map Some (cur @ w # rest) @ None # r" by (auto simp: array_at_def)
  then have d: "drop ci ts' = map Some cur @ None # map Some rest @ None # r"
    unfolding ts'_def by (simp add: drop_update_swap list_update_append)
  show "argv ts' ci = cur" by (rule argv_words [OF d])
  have "drop (Suc (length cur)) (drop ci ts') = map Some rest @ None # r" unfolding d by simp
  then show "array_at ts' (Suc (ci + length cur)) [] rest"
    by (auto simp: array_at_def add.commute)
qed

lemma array_at_argv: "array_at ts ci cur [] \<Longrightarrow> argv ts ci = cur"
  by (auto simp: array_at_def intro: argv_words)

definition serial_rest :: "env \<Rightarrow> (cells \<times> nat \<times> nat \<times> shell) outcome \<Rightarrow> (cells \<times> shell) outcome" where
  "serial_rest e m = seq m (\<lambda>(ts, tc, ci, st).
       if halted st = None \<and> ci < tc \<and> \<not> stop_execution st
       then Inr (ts, run_and_wait e tc (argv ts ci) st) else Inr (ts, st))"

lemma sigint_if_fields [simp]:
  "halted (sigint_if b st) = halted st" "fg_pid (sigint_if b st) = fg_pid st"
  "parallel_pids (sigint_if b st) = parallel_pids st" "parallel_pid_count (sigint_if b st) = parallel_pid_count st"
  "background_pids (sigint_if b st) = background_pids st" "bg_count (sigint_if b st) = bg_count st"
  by (simp_all add: sigint_if_def handle_sigint_def)

lemma emit_fields [simp]:
  "halted (emit x st) = halted st" "fg_pid (emit x st) = fg_pid st"
  "parallel_pids (emit x st) = parallel_pids st" "parallel_pid_count (emit x st) = parallel_pid_count st"
  "background_pids (emit x st) = background_pids st" "bg_count (emit x st) = bg_count st"
  "stop_execution (emit x st) = stop_execution st" "trace (emit x st) = trace st @ [x]"
  by (simp_all add: emit_def)

lemma serial_loop_spec:
  assumes "array_at ts ci cur ws" "halted st = None"
  shows "\<exists>ts'. serial_rest e (serial_loop e ts (ci + length cur) ci st) =
     Inr (ts', serial_spec e (ci + length cur) cur ws st)"
  using assms
proof (induction ws arbitrary: ts ci cur st)
  case Nil
  note c = array_at_cell [OF Nil.prems(1)] and a = array_at_argv [OF Nil.prems(1)]
  show ?case
    using c a Nil.prems(2) by (subst serial_loop.simps) (simp add: serial_rest_def Let_def)
next
  case (Cons w ws)
  note c = array_at_cell [OF Cons.prems(1)]
  let ?st = "sigint_if (int_before e (ci + length cur)) st"
  show ?case
  proof (cases "stop_execution ?st")
    case True
    then show ?thesis using c Cons.prems(2)
      by (subst serial_loop.simps) (simp add: serial_rest_def Let_def)
  next
    case go: False
    show ?thesis
    proof (cases "w = ''&&''")
      case True
      note cut = array_at_cut [OF Cons.prems(1)]
      show ?thesis
      proof (cases "halted (run_and_wait e (ci + length cur) cur ?st) = None")
        case h: True
        from Cons.IH [OF cut(2) h] show ?thesis using c go True h cut(1)
          by (subst serial_loop.simps) (simp add: Let_def)
      next
        case False
        then show ?thesis using c go True cut(1)
          by (subst serial_loop.simps) (auto simp: serial_rest_def Let_def)
      qed
    next
      case False
      from Cons.IH [OF array_at_next [OF Cons.prems(1)], of ?st] Cons.prems(2) show ?thesis
        using c go False by (subst serial_loop.simps) (simp add: Let_def)
    qed
  qed
qed

lemma serial_process_spec:
  assumes "array_at ts 0 [] ws" "halted st = None"
  shows "\<exists>ts'. serial_process e ts st = Inr (ts', serial_spec e 0 [] ws st)"
  using serial_loop_spec [OF assms, of e] by (simp add: serial_process_def serial_rest_def)

fun parallel_spec :: "env \<Rightarrow> nat \<Rightarrow> string list \<Rightarrow> string list \<Rightarrow> shell \<Rightarrow> shell outcome" where
  "parallel_spec e i cur [] st =
     (let st = sigint_if (int_before e i) st in
      if cur \<noteq> [] \<and> \<not> stop_execution st then run_parallel e i cur st else Inr st)"
| "parallel_spec e i cur (w # ws) st =
     (let st = sigint_if (int_before e i) st in
      if stop_execution st then Inr st
      else if w = ''&&&'' then
        seq (run_parallel e i cur st) (\<lambda>st'.
          if halted st' \<noteq> None then Inr st' else parallel_spec e (Suc i) [] ws st')
      else parallel_spec e (Suc i) (cur @ [w]) ws st)"

definition parallel_rest :: "env \<Rightarrow> (cells \<times> nat \<times> nat \<times> shell) outcome \<Rightarrow> shell outcome" where
  "parallel_rest e m = seq m (\<lambda>(ts, tc, ci, st).
     if halted st = None \<and> ci < tc \<and> \<not> stop_execution st
     then run_parallel e tc (argv ts ci) st else Inr st)"

lemma parallel_rest_Inr: "parallel_rest e (Inr (ts, tc, ci, st)) =
    (if halted st = None \<and> ci < tc \<and> \<not> stop_execution st then run_parallel e tc (argv ts ci) st else Inr st)"
  by (simp add: parallel_rest_def)

lemma parallel_rest_seq:
  "parallel_rest e (seq m f) = seq m (\<lambda>x. parallel_rest e (f x))"
  by (cases m) (simp_all add: parallel_rest_def)

lemma parallel_loop_spec:
  assumes "array_at ts ci cur ws" "halted st = None"
  shows "parallel_rest e (parallel_loop e ts (ci + length cur) ci st) = parallel_spec e (ci + length cur) cur ws st"
  using assms
proof (induction ws arbitrary: ts ci cur st)
  case Nil
  note c = array_at_cell [OF Nil.prems(1)] and a = array_at_argv [OF Nil.prems(1)]
  show ?case
    using c a Nil.prems(2) by (subst parallel_loop.simps) (simp add: parallel_rest_Inr Let_def)
next
  case (Cons w ws)
  note c = array_at_cell [OF Cons.prems(1)]
  let ?st = "sigint_if (int_before e (ci + length cur)) st"
  show ?case
  proof (cases "stop_execution ?st")
    case True
    then show ?thesis using c Cons.prems(2)
      by (subst parallel_loop.simps) (simp add: parallel_rest_Inr Let_def)
  next
    case go: False
    show ?thesis
    proof (cases "w = ''&&&''")
      case True
      note cut = array_at_cut [OF Cons.prems(1)]
      have "seq (run_parallel e (ci + length cur) cur ?st) (\<lambda>st'.
              parallel_rest e (if halted st' \<noteq> None then Inr (ts[ci + length cur := None], ci + length cur, ci, st')
                else parallel_loop e (ts[ci + length cur := None]) (Suc (ci + length cur)) (Suc (ci + length cur)) st')) =
            seq (run_parallel e (ci + length cur) cur ?st) (\<lambda>st'.
              if halted st' \<noteq> None then Inr st' else parallel_spec e (Suc (ci + length cur)) [] ws st')"
        using Cons.IH [OF cut(2)] by (intro seq_cong refl) (auto simp: parallel_rest_Inr)
      then show ?thesis using c go True cut(1)
        by (subst parallel_loop.simps) (simp add: Let_def parallel_rest_seq)
    next
      case False
      from Cons.IH [OF array_at_next [OF Cons.prems(1)], of ?st] Cons.prems(2) show ?thesis
        using c go False by (subst parallel_loop.simps) (simp add: Let_def)
    qed
  qed
qed

definition wait_parallel :: "env \<Rightarrow> shell \<Rightarrow> shell" where
  "wait_parallel e st =
     (if halted st \<noteq> None then st else wait_all e 0 (take (parallel_pid_count st) (parallel_pids st)) st)"

lemma wait_seq:
  "map_sum id snd (seq m (\<lambda>st. if halted st \<noteq> None then Inr (ts, st)
      else Inr (ts, wait_all e 0 (take (parallel_pid_count st) (parallel_pids st)) st))) =
   map_sum id (wait_parallel e) m"
  by (cases m) (auto simp: wait_parallel_def)

lemma parallel_process_spec:
  assumes "array_at ts 0 [] ws" "halted st = None"
  shows "map_sum id snd (parallel_process e ts st) =
    map_sum id (wait_parallel e) (parallel_spec e 0 [] ws st)"
proof -
  have "map_sum id snd (parallel_process e ts st) =
    map_sum id (wait_parallel e) (parallel_rest e (parallel_loop e ts 0 0 st))"
    unfolding parallel_process_def parallel_rest_def
  proof (cases "parallel_loop e ts 0 0 st")
    case (Inr p)
    obtain ts' tc ci st' where p: "p = (ts', tc, ci, st')" by (cases p)
    show "map_sum id snd (seq (parallel_loop e ts 0 0 st) (\<lambda>(ts, tc, ci, st).
       seq (if halted st = None \<and> ci < tc \<and> \<not> stop_execution st
            then run_parallel e tc (argv ts ci) st else Inr st) (\<lambda>st.
         if halted st \<noteq> None then Inr (ts, st)
         else Inr (ts, wait_all e 0 (take (parallel_pid_count st) (parallel_pids st)) st)))) =
      map_sum id (wait_parallel e) (seq (parallel_loop e ts 0 0 st) (\<lambda>(ts, tc, ci, st).
         if halted st = None \<and> ci < tc \<and> \<not> stop_execution st
         then run_parallel e tc (argv ts ci) st else Inr st))"
      unfolding Inr p by (simp only: seq.simps prod.case wait_seq)
  qed simp
  with parallel_loop_spec [OF assms, of e] show ?thesis by simp
qed

end
