(* ===== verification/ShellProps.thy ===== *)
theory ShellProps
  imports Shell
begin

text \<open>
  What the shell guarantees: the order of serial commands, the start and the end of parallel
  ones, what an interrupt stops, which lines crash the shell, and that no child is lost.
\<close>

section \<open>Commands between separators\<close>

text \<open>The commands of a token list; an empty one in front of a separator counts, a last one does not.\<close>

fun cmds :: "string \<Rightarrow> string list \<Rightarrow> string list \<Rightarrow> string list list" where
  "cmds sep cur [] = (if cur = [] then [] else [cur])"
| "cmds sep cur (w # ws) = (if w = sep then cur # cmds sep [] ws else cmds sep (cur @ [w]) ws)"

fun is_proc :: "shell_event \<Rightarrow> bool" where
  "is_proc (Spawn p a io) = True" | "is_proc (Waited p) = True" | "is_proc x = False"

fun is_spawn :: "shell_event \<Rightarrow> bool" where
  "is_spawn (Spawn p a io) = True" | "is_spawn x = False"

fun is_interrupt :: "shell_event \<Rightarrow> bool" where
  "is_interrupt Interrupted = True" | "is_interrupt x = False"

definition free_of :: "(shell_event \<Rightarrow> bool) \<Rightarrow> shell_event list \<Rightarrow> bool" where
  "free_of P evs \<longleftrightarrow> (\<forall>x\<in>set evs. \<not> P x)"

text \<open>
  After an interrupt at most one child is started, namely one that was about to be started: its start is the next thing that
  happens to children.
\<close>

fun at_most_next :: "shell_event list \<Rightarrow> bool" where
  "at_most_next [] = True"
| "at_most_next (x # evs) = (if is_proc x then free_of is_spawn evs else at_most_next evs)"

fun quiet :: "shell_event list \<Rightarrow> bool" where
  "quiet [] = True"
| "quiet (x # evs) = ((is_interrupt x \<longrightarrow> at_most_next evs) \<and> quiet evs)"

definition runs :: "int list \<Rightarrow> string list list \<Rightarrow> shell_event list" where
  "runs ps cs = concat (map2 (\<lambda>p c. [Spawn p c Plain, Waited p]) ps cs)"

lemma free_of_simps [simp]:
  "free_of P []" "free_of P (x # xs) \<longleftrightarrow> \<not> P x \<and> free_of P xs"
  "free_of P (xs @ ys) \<longleftrightarrow> free_of P xs \<and> free_of P ys"
  by (auto simp: free_of_def)

lemma spawn_is_proc: "\<not> is_proc x \<Longrightarrow> \<not> is_spawn x"
  by (cases x) auto

lemma at_most_next_append: "at_most_next xs \<Longrightarrow> free_of is_spawn ys \<Longrightarrow> at_most_next (xs @ ys)"
proof (induction xs)
  case Nil
  then show ?case by (induction ys) auto
qed auto

lemma quiet_append: "quiet xs \<Longrightarrow> quiet ys \<Longrightarrow> free_of is_interrupt xs \<or> free_of is_spawn ys \<Longrightarrow> quiet (xs @ ys)"
  by (induction xs) (auto intro: at_most_next_append)

lemma free_of_kills [simp]:
  "free_of is_spawn (map (\<lambda>p. Kill p s) ps)" "filter is_proc (map (\<lambda>p. Kill p s) ps) = []"
  by (induction ps) auto

lemma quiet_no_spawn: "free_of is_spawn evs \<Longrightarrow> quiet evs"
proof (induction evs)
  case (Cons x evs)
  have "at_most_next ys" if "free_of is_spawn ys" for ys using that by (induction ys) auto
  then show ?case using Cons by simp
qed simp

lemma at_most_next_silent: "filter is_proc ks = [] \<Longrightarrow> at_most_next (ks @ evs) = at_most_next evs"
  by (induction ks) (auto split: if_splits)

lemma quiet_silent: "filter is_proc ks = [] \<Longrightarrow> quiet evs \<Longrightarrow> at_most_next evs \<Longrightarrow> quiet (ks @ evs)"
  by (induction ks) (auto simp: at_most_next_silent split: if_splits)

section \<open>What one step adds to the trace\<close>

lemma sigint_if_adds:
  obtains ks where "trace (sigint_if b st) = trace st @ ks" "free_of is_spawn ks" "filter is_proc ks = []"
    "\<not> b \<Longrightarrow> ks = []" "stop_execution (sigint_if b st) \<longleftrightarrow> stop_execution st \<or> b"
proof (cases "b \<and> fg_pid st = -1")
  case True
  then show ?thesis
    by (intro that [of "Interrupted # map (\<lambda>p. Kill p SIGINT) (take (parallel_pid_count st) (parallel_pids st))"])
       (auto simp: sigint_if_def handle_sigint_def)
next
  case False
  then show ?thesis
    by (intro that [of "if b then [Interrupted, Kill (fg_pid st) SIGINT] else []"]) (auto simp: sigint_if_def handle_sigint_def)
qed

lemma sigint_if_False: "\<not> stop_execution (sigint_if b st) \<Longrightarrow> sigint_if b st = st \<and> \<not> b"
  by (auto simp: sigint_if_def handle_sigint_def split: if_splits)

lemma run_and_wait_adds:
  assumes "0 < fork_at e i"
  obtains evs where "trace (run_and_wait e i c st) = trace st @ evs"
    "filter is_proc evs = [Spawn (fork_at e i) c Plain, Waited (fork_at e i)]" "quiet evs"
    "\<not> stop_execution (run_and_wait e i c st) \<Longrightarrow> free_of is_interrupt evs"
    "halted (run_and_wait e i c st) = halted st" "fg_pid (run_and_wait e i c st) = -1"
proof -
  let ?p = "fork_at e i"
  let ?t = "sigint_if (int_tested e i) st"
  obtain k0 where k0: "trace ?t = trace st @ k0" "filter is_proc k0 = []" "\<not> int_tested e i \<Longrightarrow> k0 = []"
    "stop_execution ?t \<longleftrightarrow> stop_execution st \<or> int_tested e i"
    by (rule sigint_if_adds [of "int_tested e i" st]) blast
  let ?s0 = "emit (Spawn ?p c Plain) ?t"
  obtain k1 where k1: "trace (sigint_if (int_forked e i) ?s0) = trace ?s0 @ k1" "free_of is_spawn k1"
    "filter is_proc k1 = []" "\<not> int_forked e i \<Longrightarrow> k1 = []"
    "stop_execution (sigint_if (int_forked e i) ?s0) \<longleftrightarrow> stop_execution ?s0 \<or> int_forked e i"
    by (rule sigint_if_adds [of "int_forked e i" ?s0]) blast
  let ?s1 = "(sigint_if (int_forked e i) ?s0)\<lparr>fg_pid := ?p\<rparr>"
  obtain k2 where k2: "trace (sigint_if (int_wait e i) ?s1) = trace ?s1 @ k2" "free_of is_spawn k2"
    "filter is_proc k2 = []" "\<not> int_wait e i \<Longrightarrow> k2 = []"
    "stop_execution (sigint_if (int_wait e i) ?s1) \<longleftrightarrow> stop_execution ?s1 \<or> int_wait e i"
    by (rule sigint_if_adds [of "int_wait e i" ?s1]) blast
  let ?s2 = "emit (Waited ?p) (sigint_if (int_wait e i) ?s1)"
  obtain k3 where k3: "trace (sigint_if (int_waited e i) ?s2) = trace ?s2 @ k3" "free_of is_spawn k3"
    "filter is_proc k3 = []" "\<not> int_waited e i \<Longrightarrow> k3 = []"
    "stop_execution (sigint_if (int_waited e i) ?s2) \<longleftrightarrow> stop_execution ?s2 \<or> int_waited e i"
    by (rule sigint_if_adds [of "int_waited e i" ?s2]) blast
  let ?rest = "k1 @ k2 @ Waited ?p # k3"
  let ?evs = "k0 @ Spawn ?p c Plain # ?rest"
  have r: "run_and_wait e i c st = (sigint_if (int_waited e i) ?s2)\<lparr>fg_pid := -1\<rparr>"
    using assms by (simp add: run_and_wait_def Let_def)
  have silent: "free_of is_spawn ?rest" using k1(2) k2(2) k3(2) by simp
  show ?thesis
  proof (rule that [of ?evs])
    show "trace (run_and_wait e i c st) = trace st @ ?evs"
      unfolding r using k0(1) k1(1) k2(1) k3(1) by (simp add: emit_def)
    show "quiet ?evs" using quiet_silent [OF k0(2)] quiet_no_spawn [OF silent] silent by simp
    show "free_of is_interrupt ?evs" if "\<not> stop_execution (run_and_wait e i c st)"
      using that k0(3,4) k1(4,5) k2(4,5) k3(4,5) unfolding r by (simp add: emit_def)
  qed (use k0 k1 k2 k3 in \<open>simp_all add: r\<close>)
qed

lemma run_and_wait_failed:
  assumes "\<not> 0 < fork_at e i"
  shows "run_and_wait e i c st = fork_failed (sigint_if (int_tested e i) st)"
  using assms by (simp add: run_and_wait_def Let_def)

section \<open>Serial commands\<close>

definition serial_adds :: "string list list \<Rightarrow> shell \<Rightarrow> shell \<Rightarrow> bool" where
  "serial_adds cs st st' \<longleftrightarrow> (\<exists>evs ps. trace st' = trace st @ evs \<and> length ps \<le> length cs \<and>
     filter is_proc evs = runs ps cs \<and> quiet evs \<and> (stop_execution st \<longrightarrow> free_of is_spawn evs) \<and>
     (length ps = length cs \<or> stop_execution st' \<or> halted st' \<noteq> None))"

lemma serial_adds_stop:
  assumes "stop_execution (sigint_if b st)"
  shows "serial_adds cs st (sigint_if b st)"
  using assms by (rule_tac b = b and st = st in sigint_if_adds)
    (auto simp: serial_adds_def runs_def intro!: exI [of _ "[]"] quiet_no_spawn)

lemma serial_adds_run:
  assumes "\<not> stop_execution st" and "halted st = None"
    and more: "halted (run_and_wait e i c st) = None \<Longrightarrow> serial_adds cs (run_and_wait e i c st) st'"
    and failed: "halted (run_and_wait e i c st) \<noteq> None \<Longrightarrow> st' = run_and_wait e i c st"
  shows "serial_adds (c # cs) st st'"
proof (cases "0 < fork_at e i")
  case True
  from run_and_wait_adds [OF True, of c st] obtain evs where evs:
    "trace (run_and_wait e i c st) = trace st @ evs"
    "filter is_proc evs = [Spawn (fork_at e i) c Plain, Waited (fork_at e i)]" "quiet evs"
    "\<not> stop_execution (run_and_wait e i c st) \<Longrightarrow> free_of is_interrupt evs"
    "halted (run_and_wait e i c st) = halted st" by metis
  with more assms(2) obtain evs2 ps where evs2: "trace st' = trace (run_and_wait e i c st) @ evs2"
    "length ps \<le> length cs" "filter is_proc evs2 = runs ps cs" "quiet evs2"
    "stop_execution (run_and_wait e i c st) \<longrightarrow> free_of is_spawn evs2"
    "length ps = length cs \<or> stop_execution st' \<or> halted st' \<noteq> None"
    unfolding serial_adds_def by auto
  have "trace st' = trace st @ (evs @ evs2)" using evs(1) evs2(1) by simp
  moreover have "filter is_proc (evs @ evs2) = runs (fork_at e i # ps) (c # cs)"
    using evs(2) evs2(3) by (simp add: runs_def)
  moreover have "quiet (evs @ evs2)" using evs(3,4) evs2(4,5) by (intro quiet_append) auto
  ultimately show ?thesis
    unfolding serial_adds_def using assms(1) evs2(2,6)
    by (intro exI [of _ "evs @ evs2"] exI [of _ "fork_at e i # ps"]) simp
next
  case False
  then have st': "st' = fork_failed (sigint_if (int_tested e i) st)"
    using failed by (simp add: run_and_wait_failed) (simp add: fork_failed_def)
  obtain k0 where k0: "trace (sigint_if (int_tested e i) st) = trace st @ k0" "filter is_proc k0 = []" "free_of is_spawn k0"
    by (rule sigint_if_adds [of "int_tested e i" st]) blast
  then show ?thesis
    unfolding serial_adds_def st'
    by (intro exI [of _ "k0 @ [Stderr ''fork failed'']"] exI [of _ "[]"])
      (simp add: fork_failed_def emit_def runs_def quiet_no_spawn)
qed

lemma serial_spec_adds:
  "halted st = None \<Longrightarrow> serial_adds (cmds ''&&'' cur ws) st (serial_spec e i cur ws st)"
proof (induction ws arbitrary: i cur st)
  case Nil
  show ?case
  proof (cases "stop_execution (sigint_if (int_before e i) st)")
    case True
    then show ?thesis using serial_adds_stop [OF True] by (simp add: Let_def)
  next
    case False
    with sigint_if_False [OF False] have st: "sigint_if (int_before e i) st = st" "\<not> stop_execution st" by auto
    have fin: "serial_adds [] s s" for s by (simp add: serial_adds_def runs_def)
    then show ?thesis
      using st Nil serial_adds_run [OF st(2) Nil, of e i cur "[]"] by (simp add: Let_def)
  qed
next
  case (Cons w ws)
  show ?case
  proof (cases "stop_execution (sigint_if (int_before e i) st)")
    case True
    then show ?thesis using serial_adds_stop [OF True] by (simp add: Let_def)
  next
    case False
    with sigint_if_False [OF False] have st: "sigint_if (int_before e i) st = st" "\<not> stop_execution st" by auto
    show ?thesis
    proof (cases "w = ''&&''")
      case True
      have "serial_adds (cur # cmds ''&&'' [] ws) st
          (if halted (run_and_wait e i cur st) \<noteq> None then run_and_wait e i cur st
           else serial_spec e (Suc i) [] ws (run_and_wait e i cur st))"
        using Cons.IH by (intro serial_adds_run [OF st(2) Cons.prems, of e i cur]) auto
      then show ?thesis using st True by (simp add: Let_def)
    next
      case False
      then show ?thesis using st Cons.IH [OF Cons.prems] by (simp add: Let_def)
    qed
  qed
qed

lemma tokens_array [simp]: "array_at (map Some ws @ [None]) 0 [] ws"
  by (simp add: array_at_def)

text \<open>
  C15: Serial execution always returns, whatever signals arrive and whatever \<open>fork\<close> answers: it
  starts an initial segment of the commands between \<open>&&\<close>, in order, each one waited for before
  the next is started; it starts all of them unless an interrupt or a failed \<open>fork\<close> stops it;
  and after a SIGINT at most one further command is started, the one whose \<open>fork\<close> comes next when the signal arrives
  between the test of \<open>stop_execution\<close> and that \<open>fork\<close>: no command is started once a child has been started or
  waited for after the interrupt.
\<close>

theorem serial_in_order:
  assumes "halted st = None"
  shows "\<exists>ts st' evs ps. serial_process e (map Some ws @ [None]) st = Inr (ts, st') \<and>
     trace st' = trace st @ evs \<and> filter is_proc evs = runs ps (cmds ''&&'' [] ws) \<and>
     length ps \<le> length (cmds ''&&'' [] ws) \<and> quiet evs \<and>
     (length ps = length (cmds ''&&'' [] ws) \<or> stop_execution st' \<or> halted st' \<noteq> None)"
  using serial_process_spec [OF tokens_array assms] serial_spec_adds [OF assms, of "[]" ws e 0]
  unfolding serial_adds_def by blast

section \<open>Parallel commands\<close>

text \<open>No signal arrives and every \<open>fork\<close> succeeds.\<close>

definition calm :: "env \<Rightarrow> bool" where
  "calm e \<longleftrightarrow> (\<forall>i. 0 < fork_at e i \<and> \<not> int_before e i \<and> \<not> int_tested e i \<and> \<not> int_forked e i \<and>
     \<not> int_wait e i \<and> \<not> int_waited e i \<and> mem e i)"

lemma calm_step:
  assumes "calm e"
  shows "0 < fork_at e i" "sigint_if (int_before e i) st = st" "sigint_if (int_forked e i) st = st"
    "sigint_if (int_wait e i) st = st" "mem e i" "sigint_if (int_tested e i) st = st"
  using assms by (simp_all add: calm_def sigint_if_def)

definition table_ok :: "shell \<Rightarrow> bool" where
  "table_ok st \<longleftrightarrow> length (parallel_pids st) = MAX_NUM_TOKENS \<and> parallel_pid_count st \<le> MAX_NUM_TOKENS"

text \<open>The children \<open>ps\<close> running the commands \<open>cs\<close> have been started and recorded.\<close>

definition started :: "int list \<Rightarrow> string list list \<Rightarrow> shell \<Rightarrow> shell \<Rightarrow> bool" where
  "started ps cs st st' \<longleftrightarrow> length ps = length cs \<and>
     trace st' = trace st @ map2 (\<lambda>p c. Spawn p c Plain) ps cs \<and>
     parallel_pid_count st' = parallel_pid_count st + length cs \<and>
     take (parallel_pid_count st') (parallel_pids st') = take (parallel_pid_count st) (parallel_pids st) @ ps \<and>
     table_ok st' \<and> stop_execution st' = stop_execution st \<and> halted st' = halted st \<and>
     fg_pid st' = fg_pid st"

lemma started_Nil: "table_ok st \<Longrightarrow> started [] [] st st"
  by (simp add: started_def)

lemma started_Cons: "started [p] [c] st s1 \<Longrightarrow> started ps cs s1 s2 \<Longrightarrow> started (p # ps) (c # cs) st s2"
  by (auto simp: started_def)

lemma run_parallel_calm:
  assumes "calm e" "table_ok st"
  shows "if parallel_pid_count st < MAX_NUM_TOKENS
         then \<exists>st'. run_parallel e i c st = Inr st' \<and> started [fork_at e i] [c] st st'
         else run_parallel e i c st = Inl OutOfBounds"
  using assms calm_step(1) [OF assms(1), of i]
  by (auto simp: run_parallel_def Let_def calm_step(3,6) [OF assms(1)] started_def table_ok_def emit_def take_Suc_conv_app_nth)

lemma parallel_spec_calm:
  assumes "calm e" "table_ok st" "halted st = None" "\<not> stop_execution st"
  shows "if parallel_pid_count st + length (cmds ''&&&'' cur ws) \<le> MAX_NUM_TOKENS
         then \<exists>ps st'. parallel_spec e i cur ws st = Inr st' \<and> started ps (cmds ''&&&'' cur ws) st st'
         else parallel_spec e i cur ws st = Inl OutOfBounds"
  using assms(2-4)
proof (induction ws arbitrary: i cur st)
  case Nil
  show ?case
    using run_parallel_calm [OF assms(1) Nil(1), of i cur] started_Nil [OF Nil(1)] Nil
    by (auto simp: calm_step(2) [OF assms(1)] Let_def table_ok_def split: if_splits)
next
  case (Cons w ws)
  note r = run_parallel_calm [OF assms(1) Cons.prems(1), of i cur]
  show ?case
  proof (cases "w = ''&&&''")
    case False
    then show ?thesis
      using Cons.IH [where i = "Suc i" and cur = "cur @ [w]", OF Cons.prems] Cons.prems
      by (simp add: calm_step(2) [OF assms(1)] Let_def)
  next
    case w: True
    show ?thesis
    proof (cases "parallel_pid_count st < MAX_NUM_TOKENS")
      case True
      with r obtain s1 where s1: "run_parallel e i cur st = Inr s1" "started [fork_at e i] [cur] st s1" by auto
      then have inv: "table_ok s1" "halted s1 = None" "\<not> stop_execution s1"
        and count: "parallel_pid_count s1 = Suc (parallel_pid_count st)"
        using Cons.prems by (auto simp: started_def)
      from Cons.IH [where i = "Suc i" and cur = "[]", OF inv] count s1 inv(2) w Cons.prems show ?thesis
        by (auto simp: calm_step(2) [OF assms(1)] Let_def split: if_splits intro: started_Cons [OF s1(2)])
    next
      case False
      with r w Cons.prems show ?thesis by (simp add: calm_step(2) [OF assms(1)] Let_def)
    qed
  qed
qed

lemma wait_all_calm:
  assumes "calm e"
  shows "wait_all e k ps st = st\<lparr>trace := trace st @ map Waited ps\<rparr>"
  by (induction ps arbitrary: k st) (simp_all add: calm_step(4) [OF assms] emit_def)

lemma parallel_process_calm:
  assumes "calm e" "table_ok st" "halted st = None" "\<not> stop_execution st"
  shows "if parallel_pid_count st + length (cmds ''&&&'' [] ws) \<le> MAX_NUM_TOKENS
         then \<exists>ps s1. started ps (cmds ''&&&'' [] ws) st s1 \<and>
           map_sum id snd (parallel_process e (map Some ws @ [None]) st) =
             Inr (s1\<lparr>trace := trace s1 @ map Waited (take (parallel_pid_count st) (parallel_pids st) @ ps)\<rparr>)
         else map_sum id snd (parallel_process e (map Some ws @ [None]) st) = Inl OutOfBounds"
proof -
  note p = parallel_process_spec [OF tokens_array assms(3), of e ws]
  note s = parallel_spec_calm [OF assms, of "[]" ws 0]
  show ?thesis
  proof (cases "parallel_pid_count st + length (cmds ''&&&'' [] ws) \<le> MAX_NUM_TOKENS")
    case True
    with s obtain ps s1 where s1: "parallel_spec e 0 [] ws st = Inr s1" "started ps (cmds ''&&&'' [] ws) st s1"
      by auto
    then have t: "take (parallel_pid_count s1) (parallel_pids s1) = take (parallel_pid_count st) (parallel_pids st) @ ps"
      "halted s1 = None" using assms(3) unfolding started_def by (iprover, simp)
    have "wait_parallel e s1 = s1\<lparr>trace := trace s1 @
        map Waited (take (parallel_pid_count st) (parallel_pids st) @ ps)\<rparr>"
      using t(2) by (simp add: wait_parallel_def wait_all_calm [OF assms(1)] t(1))
    with s1 True show ?thesis unfolding p by auto
  next
    case False
    with s show ?thesis unfolding p by simp
  qed
qed

text \<open>
  C27: Undisturbed, parallel execution starts the commands between \<open>&&&\<close> all at once and in order,
  records their pids behind those of earlier lines, and only then waits, for every pid in the
  table; when the table of 64 pids, which is never emptied, has no room for all of them, the
  code writes past it.
\<close>

theorem parallel_starts_all_then_waits:
  assumes "calm e" and "table_ok st" and "halted st = None" and "\<not> stop_execution st"
  shows "if parallel_pid_count st + length (cmds ''&&&'' [] ws) \<le> 64
         then \<exists>ps st'. map_sum id snd (parallel_process e (map Some ws @ [None]) st) = Inr st' \<and>
           length ps = length (cmds ''&&&'' [] ws) \<and>
           trace st' = trace st @ map2 (\<lambda>p c. Spawn p c Plain) ps (cmds ''&&&'' [] ws) @
             map Waited (take (parallel_pid_count st) (parallel_pids st) @ ps) \<and>
           parallel_pid_count st' = parallel_pid_count st + length ps
         else map_sum id snd (parallel_process e (map Some ws @ [None]) st) = Inl OutOfBounds"
proof (cases "parallel_pid_count st + length (cmds ''&&&'' [] ws) \<le> 64")
  case True
  with parallel_process_calm [OF assms, of ws] obtain ps s1 where
    "started ps (cmds ''&&&'' [] ws) st s1"
    "map_sum id snd (parallel_process e (map Some ws @ [None]) st) =
       Inr (s1\<lparr>trace := trace s1 @ map Waited (take (parallel_pid_count st) (parallel_pids st) @ ps)\<rparr>)"
    by (auto simp: MAX_NUM_TOKENS_def)
  with True show ?thesis by (auto simp: started_def intro!: exI [of _ ps])
next
  case False
  with parallel_process_calm [OF assms, of ws] show ?thesis by (simp add: MAX_NUM_TOKENS_def)
qed

section \<open>Children still to be waited for\<close>

fun spawned :: "shell_event list \<Rightarrow> int list" where
  "spawned [] = []"
| "spawned (Spawn p a io # evs) = p # spawned evs"
| "spawned (x # evs) = spawned evs"

fun waited :: "shell_event list \<Rightarrow> int list" where
  "waited [] = []"
| "waited (Waited p # evs) = p # waited evs"
| "waited (x # evs) = waited evs"

lemma spawned_append [simp]: "spawned (xs @ ys) = spawned xs @ spawned ys"
  by (induction xs rule: spawned.induct) auto

lemma waited_append [simp]: "waited (xs @ ys) = waited xs @ waited ys"
  by (induction xs rule: waited.induct) auto

text \<open>
  \<open>pend P st P' st'\<close>: if \<open>P\<close> are the children to be waited for in \<open>st\<close>, then after the events
  between \<open>st\<close> and \<open>st'\<close> none but \<open>P'\<close> are.
\<close>

definition pend :: "int set \<Rightarrow> shell \<Rightarrow> int set \<Rightarrow> shell \<Rightarrow> bool" where
  "pend P st P' st' \<longleftrightarrow> (\<exists>evs. trace st' = trace st @ evs \<and>
     P \<union> set (spawned evs) \<subseteq> set (waited evs) \<union> P')"

named_theorems pend_steps \<open>what single steps leave to be waited for\<close>

lemma pend_trans: "pend P st Q s1 \<Longrightarrow> pend Q s1 R s2 \<Longrightarrow> pend P st R s2"
  unfolding pend_def by (elim exE conjE, rename_tac e1 e2, rule_tac x = "e1 @ e2" in exI) auto

lemma pend_same [pend_steps]: "trace st' = trace st \<Longrightarrow> P \<subseteq> Q \<Longrightarrow> pend P st Q st'"
  by (simp add: pend_def)

lemma pend_evs: "trace st' = trace st @ evs \<Longrightarrow> P \<union> set (spawned evs) \<subseteq> set (waited evs) \<union> Q \<Longrightarrow> pend P st Q st'"
  by (auto simp: pend_def)

lemma spawned_kills [simp]: "spawned (map (\<lambda>p. Kill p s) ps) = []" "waited (map (\<lambda>p. Kill p s) ps) = []"
  by (induction ps) auto

lemma pend_sigint [pend_steps]: "pend P st P (sigint_if b st)"
  by (simp add: pend_def sigint_if_def handle_sigint_def)

lemma pend_spawn [pend_steps]: "pend P st (insert p P) (emit (Spawn p c io) st)"
  by (rule pend_evs [where evs = "[Spawn p c io]"]) (auto simp: emit_def)

lemma pend_waited [pend_steps]: "pend (insert p P) st P (emit (Waited p) st)"
  by (rule pend_evs [where evs = "[Waited p]"]) (auto simp: emit_def)

lemma pend_emit [pend_steps]: "\<not> is_proc x \<Longrightarrow> pend P st P (emit x st)"
  by (rule pend_evs [where evs = "[x]"]) (cases x; simp add: emit_def)+

lemma pend_weaken: "pend P st Q st' \<Longrightarrow> Q \<subseteq> R \<Longrightarrow> pend P st R st'"
  unfolding pend_def by blast

lemma pend_run [pend_steps]: "pend P st P (run_and_wait e i c st)"
proof (cases "0 < fork_at e i")
  case True
  let ?p = "fork_at e i"
  let ?t = "sigint_if (int_tested e i) st"
  let ?s0 = "emit (Spawn ?p c Plain) ?t"
  let ?s1 = "(sigint_if (int_forked e i) ?s0)\<lparr>fg_pid := ?p\<rparr>"
  let ?s2 = "sigint_if (int_wait e i) ?s1"
  let ?s3 = "sigint_if (int_waited e i) (emit (Waited ?p) ?s2)"
  have "pend P st (insert ?p P) ?s0" by (rule pend_trans [OF pend_sigint pend_spawn])
  moreover have "pend (insert ?p P) ?s0 (insert ?p P) ?s1" using pend_sigint [of "insert ?p P" ?s0] by (simp add: pend_def)
  moreover have "pend (insert ?p P) ?s1 (insert ?p P) ?s2" by (rule pend_sigint)
  moreover have "pend (insert ?p P) ?s2 P ?s3" by (rule pend_trans [OF pend_waited pend_sigint])
  ultimately have "pend P st P ?s3" by (blast intro: pend_trans)
  then show ?thesis using True by (simp add: run_and_wait_def Let_def pend_def)
next
  case False
  have "pend P (sigint_if (int_tested e i) st) P (fork_failed (sigint_if (int_tested e i) st))"
    by (auto simp: fork_failed_def emit_def intro: pend_evs [where evs = "[Stderr ''fork failed'']"])
  then show ?thesis using False pend_trans [OF pend_sigint] by (simp add: run_and_wait_failed)
qed

text \<open>The tables and \<open>fg_pid\<close> around the steps.\<close>

definition same_tables :: "shell \<Rightarrow> shell \<Rightarrow> bool" where
  "same_tables st st' \<longleftrightarrow> background_pids st' = background_pids st \<and> bg_count st' = bg_count st \<and>
     (fg_pid st = -1 \<longrightarrow> fg_pid st' = -1) \<and>
     (table_ok st \<longrightarrow> table_ok st') \<and> set (trace st) \<subseteq> set (trace st') \<and>
     (halted st' = halted st \<or> halted st' = Some 1)"

lemma same_tables_trans: "same_tables st s1 \<Longrightarrow> same_tables s1 s2 \<Longrightarrow> same_tables st s2"
  by (auto simp: same_tables_def)

lemma same_tables_steps [pend_steps]:
  "same_tables st st" "same_tables st (sigint_if b st)" "same_tables st (emit x st)"
  "same_tables st (run_and_wait e i c st)"
  by (auto simp: same_tables_def table_ok_def sigint_if_def handle_sigint_def emit_def run_and_wait_def fork_failed_def Let_def)

lemma same_tables_after:
  "same_tables st s \<Longrightarrow> same_tables st (sigint_if b s)" "same_tables st s \<Longrightarrow> same_tables st (emit x s)"
  "same_tables st s \<Longrightarrow> same_tables st (if c then emit x s else s)"
  using same_tables_trans [OF _ same_tables_steps(2)] same_tables_trans [OF _ same_tables_steps(3)] by simp_all

lemma serial_spec_settles: "pend P st P (serial_spec e i cur ws st) \<and> same_tables st (serial_spec e i cur ws st)"
proof (induction ws arbitrary: i cur st)
  case Nil
  let ?s = "sigint_if (int_before e i) st"
  have "pend P st P ?s" "same_tables st ?s" "pend P ?s P (run_and_wait e i cur ?s)" "same_tables ?s (run_and_wait e i cur ?s)"
    by (intro pend_steps)+
  then show ?case by (auto simp: Let_def intro: pend_trans same_tables_trans)
next
  case (Cons w ws)
  let ?s = "sigint_if (int_before e i) st"
  have "pend P st P ?s" "same_tables st ?s" "pend P ?s P (run_and_wait e i cur ?s)" "same_tables ?s (run_and_wait e i cur ?s)"
    by (intro pend_steps)+
  then show ?case using Cons.IH by (auto simp: Let_def intro: pend_trans same_tables_trans)
qed

section \<open>The other kinds of command\<close>

text \<open>What is recorded in the parallel table is still to be waited for.\<close>

definition recorded :: "shell \<Rightarrow> int set" where
  "recorded st = set (take (parallel_pid_count st) (parallel_pids st))"

lemma recorded_sigint [simp]: "recorded (sigint_if b st) = recorded st"
  by (simp add: recorded_def sigint_if_def handle_sigint_def)

lemma run_parallel_settles:
  assumes "run_parallel e i c st = Inr st'" and "table_ok st"
  shows "same_tables st st' \<and> (halted st = None \<longrightarrow> halted st' = None \<longrightarrow> pend (P \<union> recorded st) st (P \<union> recorded st') st')"
proof (cases "0 < fork_at e i")
  case True
  let ?t = "sigint_if (int_tested e i) st"
  let ?s0 = "emit (Spawn (fork_at e i) c Plain) ?t"
  let ?s1 = "sigint_if (int_forked e i) ?s0"
  from assms True have n: "parallel_pid_count ?s1 < length (parallel_pids ?s1)"
    and st': "st' = ?s1\<lparr>parallel_pids := (parallel_pids ?s1)[parallel_pid_count ?s1 := fork_at e i],
                     parallel_pid_count := Suc (parallel_pid_count ?s1)\<rparr>"
    by (auto simp: run_parallel_def Let_def table_ok_def split: if_splits)
  have t: "same_tables st ?s1" by (intro same_tables_after same_tables_steps)
  have "recorded st = recorded ?s1" by (simp add: recorded_def)
  then have r: "recorded st' = insert (fork_at e i) (recorded st)"
    unfolding st' using n by (simp add: recorded_def take_Suc_conv_app_nth)
  have "pend (P \<union> recorded st) st (insert (fork_at e i) (P \<union> recorded st)) ?s1"
    by (rule pend_trans [OF pend_trans [OF pend_sigint pend_spawn] pend_sigint])
  then have "pend (P \<union> recorded st) st (P \<union> recorded st') st'"
    unfolding r by (simp add: pend_def st')
  moreover have "same_tables st st'"
    using n assms(2) t unfolding st' by (simp add: same_tables_def table_ok_def)
  ultimately show ?thesis by simp
next
  case False
  then have "st' = fork_failed (sigint_if (int_tested e i) st)" using assms(1) by (simp add: run_parallel_def Let_def)
  moreover have "same_tables st (sigint_if (int_tested e i) st)" by (rule pend_steps)
  ultimately show ?thesis by (auto simp: fork_failed_def same_tables_def emit_def table_ok_def)
qed

lemma parallel_spec_Cons:
  assumes "parallel_spec e i cur (w # ws) st = Inr st'"
  obtains "st' = sigint_if (int_before e i) st"
  | "parallel_spec e (Suc i) (cur @ [w]) ws (sigint_if (int_before e i) st) = Inr st'"
  | s1 where "run_parallel e i cur (sigint_if (int_before e i) st) = Inr s1" "halted s1 \<noteq> None" "st' = s1"
  | s1 where "run_parallel e i cur (sigint_if (int_before e i) st) = Inr s1" "halted s1 = None"
      "parallel_spec e (Suc i) [] ws s1 = Inr st'"
proof -
  let ?s = "sigint_if (int_before e i) st"
  consider "stop_execution ?s" | "\<not> stop_execution ?s" "w = ''&&&''" | "\<not> stop_execution ?s" "w \<noteq> ''&&&''" by blast
  then show ?thesis
  proof cases
    case 2
    with assms obtain s1 where "run_parallel e i cur ?s = Inr s1"
      "(if halted s1 \<noteq> None then Inr s1 else parallel_spec e (Suc i) [] ws s1) = Inr st'"
      by (simp only: parallel_spec.simps Let_def if_False if_True simp_thms seq_Inr) blast
    then show ?thesis using that(3,4) by (cases "halted s1 = None") simp_all
  qed (use assms that(1,2) in \<open>simp_all add: Let_def\<close>)
qed

lemma parallel_spec_settles:
  assumes "parallel_spec e i cur ws st = Inr st'" "table_ok st" "halted st = None"
  shows "same_tables st st' \<and> (halted st' = None \<longrightarrow> pend (P \<union> recorded st) st (P \<union> recorded st') st')"
  using assms
proof (induction ws arbitrary: i cur st)
  case Nil
  let ?s = "sigint_if (int_before e i) st"
  have s: "same_tables st ?s" "pend (P \<union> recorded st) st (P \<union> recorded ?s) ?s"
    using pend_sigint by (auto intro: pend_steps)
  then have "table_ok ?s" using Nil.prems(2) by (simp add: same_tables_def)
  show ?case
  proof (cases "cur \<noteq> [] \<and> \<not> stop_execution ?s")
    case True
    then have "run_parallel e i cur ?s = Inr st'" using Nil.prems(1) by (simp add: Let_def)
    from run_parallel_settles [OF this \<open>table_ok ?s\<close>, of P] Nil.prems(3) s show ?thesis
      by (auto intro: pend_trans same_tables_trans)
  next
    case False
    then have "st' = ?s" using Nil.prems(1) by (simp add: Let_def split: if_split_asm)
    then show ?thesis using s by simp
  qed
next
  case (Cons w ws)
  let ?s = "sigint_if (int_before e i) st"
  have s: "same_tables st ?s" "pend (P \<union> recorded st) st (P \<union> recorded ?s) ?s"
    using pend_sigint by (auto intro: pend_steps)
  then have ok: "table_ok ?s" using Cons.prems(2) by (simp add: same_tables_def)
  consider "st' = ?s" | "parallel_spec e (Suc i) (cur @ [w]) ws ?s = Inr st'"
    | s1 where "run_parallel e i cur ?s = Inr s1" "halted s1 \<noteq> None" "st' = s1"
    | s1 where "run_parallel e i cur ?s = Inr s1" "halted s1 = None" "parallel_spec e (Suc i) [] ws s1 = Inr st'"
    by (rule parallel_spec_Cons [OF Cons.prems(1)])
  then show ?case
  proof cases
    case 1
    then show ?thesis using s by simp
  next
    case 2
    from Cons.IH [OF 2 ok] Cons.prems(3) s show ?thesis by (auto intro: pend_trans same_tables_trans)
  next
    case 3
    with run_parallel_settles [OF 3(1) ok] s show ?thesis by (auto intro: same_tables_trans)
  next
    case 4
    from run_parallel_settles [OF 4(1) ok, of P] Cons.prems(3) 4(2)
    have r: "same_tables ?s s1" "pend (P \<union> recorded ?s) ?s (P \<union> recorded s1) s1" by auto
    then have "table_ok s1" using ok by (simp add: same_tables_def)
    from Cons.IH [OF 4(3) this 4(2)] r s show ?thesis by (auto intro: pend_trans same_tables_trans)
  qed
qed

lemma wait_all_settles:
  "pend (P \<union> set ps) st P (wait_all e k ps st) \<and> same_tables st (wait_all e k ps st)"
proof (induction ps arbitrary: k st)
  case (Cons p ps)
  let ?s = "emit (Waited p) (sigint_if (int_wait e k) st)"
  have "pend (insert p (P \<union> set ps)) st (P \<union> set ps) ?s"
    by (rule pend_trans [OF pend_sigint pend_waited])
  moreover have "same_tables st ?s" by (blast intro: same_tables_trans pend_steps)
  ultimately show ?case using Cons.IH [of ?s "Suc k"] by (auto intro: pend_trans same_tables_trans)
qed (simp add: pend_def same_tables_def)

lemma parallel_process_settles:
  assumes "parallel_process e ts st = Inr (ts', st')" "array_at ts 0 [] ws" "table_ok st" "halted st = None"
  shows "same_tables st st' \<and> (halted st' = None \<longrightarrow> pend P st P st')"
proof -
  from parallel_process_spec [OF assms(2,4), of e] assms(1) obtain s1 where
    s1: "parallel_spec e 0 [] ws st = Inr s1" "st' = wait_parallel e s1"
    by (cases "parallel_spec e 0 [] ws st") auto
  note p = parallel_spec_settles [OF s1(1) assms(3,4), of P]
  show ?thesis
  proof (cases "halted s1 = None")
    case True
    then have w: "st' = wait_all e 0 (take (parallel_pid_count s1) (parallel_pids s1)) s1"
      using s1(2) by (simp add: wait_parallel_def)
    have "pend P st (P \<union> recorded st) st" by (simp add: pend_def)
    with p True wait_all_settles [of P "take (parallel_pid_count s1) (parallel_pids s1)" s1 e 0] show ?thesis
      unfolding w recorded_def [symmetric] by (blast intro: pend_trans same_tables_trans)
  next
    case False
    then show ?thesis using p s1(2) by (auto simp: wait_parallel_def)
  qed
qed

lemma find_pipe_words:
  "drop i ts = map Some ws @ None # r \<Longrightarrow> length ws < n \<Longrightarrow>
     \<exists>p. find_pipe ts i n = Inr p \<and> (p = None \<longleftrightarrow> ''|'' \<notin> set ws)"
proof (induction ws arbitrary: i n)
  case Nil
  then obtain m where "n = Suc m" by (cases n) auto
  with Nil drop_nth [of i ts None r] show ?case by (simp add: cell_def)
next
  case (Cons w ws)
  then obtain m where m: "n = Suc m" "length ws < m" by (cases n) auto
  note d = drop_nth [of i ts "Some w" "map Some ws @ None # r"]
  have "\<exists>p. find_pipe ts (Suc i) m = Inr p \<and> (p = None \<longleftrightarrow> ''|'' \<notin> set ws)"
    using Cons.IH [of "Suc i" m] m(2) d Cons.prems(1) by simp
  then show ?case using m(1) d Cons.prems(1) by (auto simp: cell_def)
qed

lemma pend_antimono: "pend Q st R st' \<Longrightarrow> P \<subseteq> Q \<Longrightarrow> pend P st R st'"
  unfolding pend_def by blast

lemma pend_spawn_if: "pend P st (insert p P) (if b then emit (Spawn p c io) st else st)"
  using pend_spawn by (auto simp: pend_def)

lemma pipe_children_settles: "pend P st P (pipe_children e ts i st) \<and> same_tables st (pipe_children e ts i st)"
proof -
  let ?p1 = "fork_at e 0" and ?p2 = "fork_at e (Suc i)"
  let ?a = "sigint_if (int_tested e 0) (emit PipeOpened st)"
  let ?b = "if ?p1 > 0 then emit (Spawn ?p1 (argv ts 0) ToPipe) ?a else ?a"
  let ?c = "sigint_if (int_forked e 0) ?b"
  let ?d = "if ?p2 > 0 then emit (Spawn ?p2 (argv ts (Suc i)) FromPipe) ?c else ?c"
  let ?f = "emit PipeClosed (sigint_if (int_forked e (Suc i)) ?d)"
  let ?g = "emit (Waited ?p1) (sigint_if (int_wait e 0) ?f)"
  let ?h = "emit (Waited ?p2) (sigint_if (int_wait e (Suc i)) ?g)"
  have h: "pipe_children e ts i st = ?h" by (simp only: pipe_children_def Let_def)
  let ?P2 = "insert ?p1 (insert ?p2 P)"
  have p: "pend P st P ?a" "pend P ?a (insert ?p1 P) ?b" "pend (insert ?p1 P) ?b (insert ?p1 P) ?c"
    "pend ?P2 ?d ?P2 ?f" "pend ?P2 ?f (insert ?p2 P) ?g" "pend (insert ?p2 P) ?g P ?h"
    by (intro pend_steps pend_spawn_if pend_sigint pend_trans [OF pend_sigint pend_emit]
        pend_trans [OF pend_sigint pend_waited] pend_trans [OF pend_emit pend_sigint]; simp)+
  have "pend (insert ?p1 P) ?c (insert ?p2 (insert ?p1 P)) ?d" by (rule pend_spawn_if)
  then have "pend (insert ?p1 P) ?c ?P2 ?d" by (simp only: insert_commute)
  with p have "pend P st P ?h" by (blast intro: pend_trans)
  moreover have "same_tables st ?h" by (intro same_tables_after same_tables_steps(1))
  ultimately show ?thesis unfolding h by simp
qed

lemma execute_pipe_settles:
  assumes "execute_pipe e ts st = Inr (ts', st')"
  shows "pend P st P st' \<and> same_tables st st'"
proof -
  from assms consider "st' = emit (Stderr ''Invalid pipe syntax'') st" | "st' = emit (Stderr ''pipe'') st"
    | i ts1 where "st' = pipe_children e ts1 i st"
    by (auto simp: execute_pipe_def seq_Inr Let_def simp del: find_pipe.simps split: option.splits if_split_asm)
  then show ?thesis by cases (auto simp: pipe_children_settles intro: pend_steps)
qed

lemma cd_settles: "cd e ts st = Inr st' \<Longrightarrow> pend P st P st' \<and> same_tables st st'"
  by (auto simp: cd_def seq_Inr same_tables_def table_ok_def pend_def split: option.splits)

lemma forground_settles:
  assumes "forground_process e ts st = Inr (ts', st')"
  shows "pend P st P st' \<and> same_tables st st'"
proof -
  from assms consider "execute_pipe e ts st = Inr (ts', st')" | "cd e ts st = Inr st'"
    | "st' = run_and_wait e 0 (argv ts 0) st"
    by (auto simp: forground_process_def seq_Inr simp del: find_pipe.simps split: option.splits if_split_asm)
  then show ?thesis
    by cases (auto dest: execute_pipe_settles cd_settles intro: pend_steps)
qed

section \<open>The state at the prompt\<close>

definition background :: "shell \<Rightarrow> int set" where
  "background st = set (take (bg_count st) (background_pids st))"

definition too_many :: "shell \<Rightarrow> bool" where
  "too_many st \<longleftrightarrow> Stderr ''Too many background processes'' \<in> set (trace st)"

definition tables_ok :: "shell \<Rightarrow> bool" where
  "tables_ok st \<longleftrightarrow> table_ok st \<and> fg_pid st = -1 \<and>
     length (background_pids st) = MAX_BACKGROUND_PROCESSES \<and> bg_count st \<le> MAX_BACKGROUND_PROCESSES"

text \<open>Every child ever started has been waited for or is in the background table.\<close>

definition shell_inv :: "shell \<Rightarrow> bool" where
  "shell_inv st \<longleftrightarrow> tables_ok st \<and>
     (halted st = Some 1 \<or> too_many st \<or> set (spawned (trace st)) \<subseteq> set (waited (trace st)) \<union> background st)"

definition settles :: "shell \<Rightarrow> shell \<Rightarrow> bool" where
  "settles st st' \<longleftrightarrow> (tables_ok st \<longrightarrow> tables_ok st' \<and> (too_many st \<longrightarrow> too_many st') \<and>
     (halted st' = halted st \<or> halted st' = Some 1) \<and>
     (halted st' = None \<longrightarrow> too_many st' \<or> pend (background st) st (background st') st'))"

lemma settles_same:
  assumes "same_tables st st'" "halted st' = None \<Longrightarrow> pend (background st) st (background st) st'"
  shows "settles st st'"
  using assms by (auto simp: settles_def same_tables_def tables_ok_def too_many_def background_def)

lemma background_settles:
  assumes "background_process e ts st = Inr st'"
  shows "settles st st'"
proof -
  let ?p = "fork_at e 0"
  let ?t = "sigint_if (int_tested e 0) st"
  let ?s = "sigint_if (int_forked e 0) (emit (Spawn ?p (argv ts 0) Plain) ?t)"
  have p: "pend (background st) st (insert ?p (background st)) ?s"
    by (rule pend_trans [OF pend_trans [OF pend_sigint pend_spawn] pend_sigint])
  have t: "same_tables st ?s" by (blast intro: same_tables_trans pend_steps)
  from assms consider "cd e ts st = Inr st'" | "st' = fork_failed ?t"
    | "bg_count ?s < MAX_BACKGROUND_PROCESSES"
      "st' = ?s\<lparr>background_pids := (background_pids ?s)[bg_count ?s := ?p], bg_count := Suc (bg_count ?s)\<rparr>"
    | "st' = emit (Stderr ''Too many background processes'') ?s"
    by (auto simp: background_process_def seq_Inr Let_def split: if_split_asm)
  then show ?thesis
  proof cases
    case 1
    then show ?thesis by (auto dest: cd_settles intro: settles_same)
  next
    case 2
    have "same_tables st ?t" by (rule pend_steps)
    with 2 show ?thesis by (auto simp: fork_failed_def same_tables_def table_ok_def intro!: settles_same)
  next
    case 3
    show ?thesis
    proof (cases "tables_ok st")
      case True
      then have "bg_count st < length (background_pids st)" using 3(1) by (simp add: tables_ok_def)
      then have b: "background st' = insert ?p (background st)"
        unfolding 3(2) background_def by (simp add: take_Suc_conv_app_nth)
      with p have "pend (background st) st (background st') st'" unfolding b by (simp add: pend_def 3(2))
      then show ?thesis
        using True 3 t by (auto simp: settles_def tables_ok_def table_ok_def too_many_def same_tables_def)
    next
      case False
      then show ?thesis
        by (simp add: settles_def)
    qed
  next
    case 4
    then show ?thesis using t by (auto simp: settles_def tables_ok_def table_ok_def too_many_def same_tables_def)
  qed
qed

section \<open>One line\<close>

definition cut_background :: "string list \<Rightarrow> string list" where
  "cut_background ws = (if is_background ws then butlast ws else ws)"

lemma cut_array:
  "array_at (if is_background ws then (map Some ws @ [None])[length ws - 1 := None] else map Some ws @ [None])
     0 [] (cut_background ws)"
proof (cases "is_background ws")
  case True
  then obtain vs where ws: "ws = vs @ [''&'']"
    unfolding is_background_def by (metis append_butlast_last_id)
  then show ?thesis using True
    by (simp add: array_at_def cut_background_def list_update_append)
qed (simp add: cut_background_def)

lemma dispatch_cases:
  assumes "dispatch e (map Some ws @ [None]) st = Inr (ts', st')" "halted st = None"
  obtains "''&&'' \<in> set ws" "st' = serial_spec e 0 [] (cut_background ws) st"
  | ts where "''&&'' \<notin> set ws" "''&&&'' \<in> set ws" "parallel_process e ts st = Inr (ts', st')"
      "array_at ts 0 [] (cut_background ws)"
  | ts where "background_process e ts st = Inr st'"
  | ts where "forground_process e ts st = Inr (ts', st')"
proof -
  let ?ts = "if is_background ws then (map Some ws @ [None])[length ws - 1 := None] else map Some ws @ [None]"
  have d: "dispatch e (map Some ws @ [None]) st =
      (if ''&&'' \<in> set ws then serial_process e ?ts st
       else if ''&&&'' \<in> set ws then parallel_process e ?ts st
       else if is_background ws then seq (background_process e ?ts st) (\<lambda>st. Inr (?ts, st))
       else forground_process e ?ts st)"
    by (simp only: dispatch_def Let_def argv_tokens)
  note a = cut_array [of ws]
  consider "''&&'' \<in> set ws" | "''&&'' \<notin> set ws" "''&&&'' \<in> set ws"
    | "''&&'' \<notin> set ws" "''&&&'' \<notin> set ws" "is_background ws"
    | "''&&'' \<notin> set ws" "''&&&'' \<notin> set ws" "\<not> is_background ws" by blast
  then show ?thesis
  proof cases
    case 1
    with serial_process_spec [OF a assms(2), of e] assms(1) show ?thesis
      unfolding d using that(1) by auto
  next
    case 2
    with assms(1) a show ?thesis unfolding d by (simp only: if_True if_False) (rule that(2) [OF 2])
  next
    case 3
    with assms(1) have "\<exists>ts. background_process e ts st = Inr st'" unfolding d by (auto simp: seq_Inr)
    then show ?thesis using that(3) by blast
  next
    case 4
    with assms(1) have "\<exists>ts. forground_process e ts st = Inr (ts', st')" unfolding d by auto
    then show ?thesis using that(4) by blast
  qed
qed

lemma dispatch_settles:
  assumes "dispatch e (map Some ws @ [None]) st = Inr (ts', st')" "halted st = None" "tables_ok st"
  shows "settles st st'"
proof (rule dispatch_cases [OF assms(1,2)])
  assume "st' = serial_spec e 0 [] (cut_background ws) st"
  then show ?thesis using serial_spec_settles by (auto intro: settles_same)
next
  fix ts
  assume "parallel_process e ts st = Inr (ts', st')" "array_at ts 0 [] (cut_background ws)"
  from parallel_process_settles [OF this _ assms(2)] assms(3) show ?thesis
    by (auto simp: tables_ok_def intro: settles_same)
next
  fix ts
  assume "background_process e ts st = Inr st'"
  then show ?thesis by (rule background_settles)
next
  fix ts
  assume "forground_process e ts st = Inr (ts', st')"
  from forground_settles [OF this] show ?thesis by (auto intro: settles_same)
qed

lemma tok_loop_None: "tok_loop m s tok ts = Inr ws \<Longrightarrow> \<exists>vs. ws = ts @ vs"
  by (induction m s tok ts rule: tok_loop.induct) (auto split: if_split_asm)

lemma tokenize_shape: "tokenize m line = Inr ts \<Longrightarrow> \<exists>ws. ts = map Some ws @ [None]"
  by (auto simp: tokenize_def seq_Inr split: if_split_asm)

text \<open>The state just after the prompt, and what a line does then.\<close>

definition prompted :: "env \<Rightarrow> shell \<Rightarrow> shell" where
  "prompted e st = (emit (Stdout ''$ '') (reap_background_processes e st))\<lparr>stop_execution := False\<rparr>"

lemma shell_line_cases:
  assumes "shell_line e s st = Inr st'"
  obtains (leave) "st' = (terminate_background_processes (emit (Stdout ''Exiting the shell...'')
      (emit (Stdout ''$ '') (reap_background_processes e st))))\<lparr>halted := Some 0\<rparr>"
  | (command) ws ts' where "dispatch e (map Some ws @ [None]) (prompted e st) = Inr (ts', st')"
proof -
  from assms obtain line ts where ts: "tokenize (mem e) line = Inr ts"
    and r: "(if ts ! 0 \<noteq> None \<and> the (ts ! 0) = ''exit''
          then Inr ((terminate_background_processes (emit (Stdout ''Exiting the shell...'')
            (emit (Stdout ''$ '') (reap_background_processes e st))))\<lparr>halted := Some 0\<rparr>)
          else seq (dispatch e ts (prompted e st)) (\<lambda>(ts', st'). Inr st')) = Inr st'"
    unfolding shell_line_def Let_def seq_Inr prompted_def by blast
  from tokenize_shape [OF ts] obtain ws where ws: "ts = map Some ws @ [None]" by blast
  show ?thesis
  proof (cases "ts ! 0 \<noteq> None \<and> the (ts ! 0) = ''exit''")
    case True
    then show ?thesis using r leave by simp
  next
    case False
    with r have "\<exists>ts'. dispatch e ts (prompted e st) = Inr (ts', st')"
      by (simp only: if_False seq_Inr) (auto simp: case_prod_unfold)
    then show ?thesis using command ws by blast
  qed
qed

lemma prompted_pend: "pend P st P (prompted e st)"
proof -
  have "spawned (replicate n (Stdout x)) = []" for n x by (induction n) auto
  then show ?thesis
    by (intro pend_evs [where evs = "replicate (reaped e) (Stdout ''Shell: Background process finished'') @ [Stdout ''$ '']"])
       (auto simp: prompted_def reap_background_processes_def)
qed

lemma prompted_fields [simp]:
  "halted (prompted e st) = halted st" "background (prompted e st) = background st"
  "tables_ok (prompted e st) = tables_ok st" "too_many st \<Longrightarrow> too_many (prompted e st)"
  "stop_execution (prompted e st) = False"
  by (auto simp: prompted_def reap_background_processes_def background_def tables_ok_def table_ok_def too_many_def)

lemma shell_inv_pend:
  assumes "shell_inv st" "halted st = None" "settles (prompted e st) st'"
  shows "shell_inv st'"
proof -
  from assms(1) have ok: "tables_ok (prompted e st)" by (simp add: shell_inv_def)
  note s = assms(3) [unfolded settles_def, rule_format, OF ok]
  show ?thesis
  proof (cases "halted st' = Some 1 \<or> too_many st'")
    case True
    then show ?thesis using s by (auto simp: shell_inv_def)
  next
    case False
    with s assms(2) have p: "pend (background st) (prompted e st) (background st') st'" "\<not> too_many st" by auto
    from pend_trans [OF prompted_pend p(1)] obtain evs where
      evs: "trace st' = trace st @ evs" "background st \<union> set (spawned evs) \<subseteq> set (waited evs) \<union> background st'"
      by (auto simp: pend_def)
    then show ?thesis using assms(1,2) p(2) s by (auto simp: shell_inv_def)
  qed
qed

section \<open>All runs\<close>

text \<open>One action as a partial step: not defined after the shell has stopped or where it crashes.\<close>

definition shell_opt :: "shell_action \<Rightarrow> shell \<Rightarrow> shell option" where
  "shell_opt a st =
     (if halted st \<noteq> None then None else (case shell_step a st of Inl u \<Rightarrow> None | Inr st' \<Rightarrow> Some st'))"

lemma shell_run_exec: "shell_run as st = Inr st' \<Longrightarrow> \<exists>bs. exec shell_opt st bs = Some st'"
proof (induction as arbitrary: st)
  case Nil
  then show ?case by (intro exI [of _ "[]"]) simp
next
  case (Cons a as)
  show ?case
  proof (cases "halted st = None")
    case True
    with Cons.prems obtain s1 where s1: "shell_step a st = Inr s1" "shell_run as s1 = Inr st'"
      by (auto simp: seq_Inr)
    with Cons.IH obtain bs where "exec shell_opt s1 bs = Some st'" by blast
    moreover have "shell_opt a st = Some s1" using True s1(1) by (simp add: shell_opt_def)
    ultimately show ?thesis by (intro exI [of _ "a # bs"]) simp
  next
    case False
    then show ?thesis using Cons.prems by (intro exI [of _ "[]"]) auto
  qed
qed

text \<open>On leaving, every child in the background table is sent SIGTERM.\<close>

definition left_ok :: "shell \<Rightarrow> bool" where
  "left_ok st \<longleftrightarrow> (halted st = Some 0 \<longrightarrow> (\<forall>p\<in>background st. Kill p SIGTERM \<in> set (trace st)))"

lemma shell_line_inv:
  assumes "shell_inv st" "halted st = None" "shell_line e s st = Inr st'"
  shows "shell_inv st' \<and> left_ok st'"
proof (rule shell_line_cases [OF assms(3)])
  let ?s = "emit (Stdout ''Exiting the shell...'') (emit (Stdout ''$ '') (reap_background_processes e st))"
  assume l: "st' = (terminate_background_processes ?s)\<lparr>halted := Some 0\<rparr>"
  have "spawned (replicate n (Stdout x)) = []" "waited (replicate n (Stdout x)) = []" for n x by (induction n) auto
  then have "shell_inv st'" "left_ok st'"
    using assms(1,2) unfolding l
    by (auto simp: shell_inv_def left_ok_def terminate_background_processes_def reap_background_processes_def
        tables_ok_def table_ok_def background_def too_many_def)
  then show ?thesis ..
next
  fix ws ts'
  assume d: "dispatch e (map Some ws @ [None]) (prompted e st) = Inr (ts', st')"
  have p: "halted (prompted e st) = None" "tables_ok (prompted e st)"
    using assms(1,2) by (simp_all add: shell_inv_def)
  note s = dispatch_settles [OF d p]
  then have "halted st' \<noteq> Some 0" using p by (auto simp: settles_def)
  with shell_inv_pend [OF assms(1,2) s] show ?thesis by (simp add: left_ok_def)
qed

lemma handle_sigint_inv: "shell_inv st \<Longrightarrow> shell_inv (handle_sigint st)"
  by (auto simp: shell_inv_def tables_ok_def table_ok_def handle_sigint_def background_def too_many_def)

interpretation shell_loop: invariant_system shell_opt "\<lambda>st. shell_inv st \<and> left_ok st" shell_init
proof
  fix st a st'
  assume "shell_inv st \<and> left_ok st" and step: "shell_opt a st = Some st'"
  then have inv: "shell_inv st" "halted st = None" "shell_step a st = Inr st'"
    by (auto simp: shell_opt_def split: if_splits sum.splits)
  show "shell_inv st' \<and> left_ok st'"
  proof (cases a)
    case (Typed e s)
    then show ?thesis using shell_line_inv [OF inv(1,2)] inv(3) by simp
  next
    case Interrupt
    then have "st' = handle_sigint st" using inv(3) by simp
    then show ?thesis using handle_sigint_inv [OF inv(1)] inv(2) by (simp add: left_ok_def handle_sigint_def)
  qed
next
  show "shell_inv shell_init \<and> left_ok shell_init"
    by (simp add: shell_inv_def left_ok_def shell_init_def tables_ok_def table_ok_def MAX_BACKGROUND_PROCESSES_def)
qed

section \<open>Properties of the whole shell\<close>


text \<open>
  C30: When the shell has left through \<open>exit\<close> and no background command was announced as one too many, which happens to the
  65th, every child it ever started was waited for or has been sent SIGTERM.
\<close>

theorem exit_leaves_no_child:
  assumes "shell_run as shell_init = Inr st" and "halted st = Some 0" and "\<not> too_many st"
  shows "\<forall>p\<in>set (spawned (trace st)). p \<in> set (waited (trace st)) \<or> Kill p SIGTERM \<in> set (trace st)"
proof -
  from shell_run_exec [OF assms(1)] obtain bs where "exec shell_opt shell_init bs = Some st" by blast
  from shell_loop.run_inv [OF this] assms(2,3) show ?thesis
    by (auto simp: shell_inv_def left_ok_def)
qed

end
