(* ===== verification/ShellLines.thy ===== *)
theory ShellLines
  imports ShellProps
begin

text \<open>
  What single typed lines do: which lines crash the shell, and what a repeated parallel line
  leads to. Witnesses for the properties of the shell are here too.
\<close>

section \<open>Typed lines\<close>

text \<open>A line of text that fits the buffers, in an environment with memory.\<close>

definition typed_ok :: "env \<Rightarrow> string \<Rightarrow> bool" where
  "typed_ok e s \<longleftrightarrow> NUL \<notin> set s \<and> length s \<le> 1022 \<and> line_fits s \<and> (\<forall>k. mem e k)"

lemma shell_line_text:
  assumes "typed_ok e s"
  shows "shell_line e s st =
     (if words s \<noteq> [] \<and> hd (words s) = ''exit''
      then Inr ((terminate_background_processes (emit (Stdout ''Exiting the shell...'')
             (emit (Stdout ''$ '') (reap_background_processes e st))))\<lparr>halted := Some 0\<rparr>)
      else seq (dispatch e (map Some (words s) @ [None]) (prompted e st)) (\<lambda>(ts', st'). Inr st'))"
proof -
  have "input_line s = Inr (s @ [nl])"
    using assms input_line_text [of s] by (simp add: typed_ok_def MAX_INPUT_SIZE_def)
  moreover have "tokenize (mem e) (s @ [nl]) = Inr (map Some (words s) @ [None])"
    using assms tokenize_line [of "mem e" s] by (simp add: typed_ok_def)
  moreover have "(map Some (words s) @ [None]) ! 0 \<noteq> None \<and> the ((map Some (words s) @ [None]) ! 0) = ''exit'' \<longleftrightarrow>
      words s \<noteq> [] \<and> hd (words s) = ''exit''" by (cases "words s") auto
  ultimately show ?thesis
    unfolding shell_line_def Let_def prompted_def by (simp only: seq.simps)
qed

lemma run_parallel_Inl: "run_parallel e i c st = Inl u \<Longrightarrow> u = OutOfBounds"
  by (auto simp: run_parallel_def Let_def split: if_split_asm)

lemma parallel_spec_Inl: "parallel_spec e i cur ws st = Inl u \<Longrightarrow> u = OutOfBounds"
proof (induction ws arbitrary: i cur st)
  case Nil
  then show ?case using run_parallel_Inl by (simp add: Let_def split: if_split_asm)
next
  case (Cons w ws)
  let ?s = "sigint_if (int_before e i) st"
  consider "stop_execution ?s" | "\<not> stop_execution ?s" "w = ''&&&''" | "\<not> stop_execution ?s" "w \<noteq> ''&&&''" by blast
  then show ?case
  proof cases
    case 2
    with Cons.prems consider "run_parallel e i cur ?s = Inl u"
      | s1 where "(if halted s1 \<noteq> None then Inr s1 else parallel_spec e (Suc i) [] ws s1) = Inl u"
      by (simp only: parallel_spec.simps Let_def if_False if_True simp_thms seq_Inl) blast
    then show ?thesis
    proof cases
      case (2 s1)
      then show ?thesis using Cons.IH by (simp split: if_split_asm)
    qed (rule run_parallel_Inl)
  qed (use Cons in \<open>simp_all add: Let_def\<close>)
qed

lemma parallel_process_Inl:
  assumes "parallel_process e ts st = Inl u" "array_at ts 0 [] ws" "halted st = None"
  shows "u = OutOfBounds"
  using parallel_process_spec [OF assms(2,3), of e] assms(1) parallel_spec_Inl
  by (cases "parallel_spec e 0 [] ws st") auto

lemma first_is_words:
  "first_is (map Some (w # ws) @ r) s = Inr (w = s)" "first_is (None # r) s = Inl NullDeref"
  by (simp_all add: first_is_def cell_def)

lemma cd_defined: "1 < length ts \<Longrightarrow> \<exists>st'. cd e ts st = Inr st'"
  by (simp add: cd_def cell_def)

lemma forground_words:
  "forground_process e (map Some ws @ [None]) st = Inl u \<longleftrightarrow> ws = [] \<and> u = NullDeref"
proof -
  from find_pipe_words [of 0 "map Some ws @ [None]" ws "[]" "Suc (length (map Some ws @ [None]))"] obtain p where
    p: "find_pipe (map Some ws @ [None]) 0 (Suc (length (map Some ws @ [None]))) = Inr p" "p = None \<longleftrightarrow> ''|'' \<notin> set ws"
    by auto
  show ?thesis
  proof (cases ws)
    case Nil
    then have "p = None" using p(2) by simp
    with p(1) Nil show ?thesis
      unfolding forground_process_def p(1) by (simp add: first_is_words(2) [of "[]"]) auto
  next
    case (Cons w vs)
    have c: "\<exists>st'. cd e (map Some ws @ [None]) st = Inr st'" using Cons by (intro cd_defined) simp
    have x: "\<exists>r. execute_pipe e (map Some ws @ [None]) st = Inr r"
      unfolding execute_pipe_def p(1) by (auto simp: Let_def split: option.split)
    have "\<exists>r. forground_process e (map Some ws @ [None]) st = Inr r"
    proof (cases p)
      case None
      have "first_is (map Some ws @ [None]) ''cd'' = Inr (w = ''cd'')" unfolding Cons by (rule first_is_words)
      with None c show ?thesis unfolding forground_process_def p(1) by auto
    next
      case (Some i)
      with x show ?thesis unfolding forground_process_def p(1) by simp
    qed
    then show ?thesis using Cons by auto
  qed
qed

lemma background_words:
  "background_process e (map Some ws @ [None, None]) st = Inl u \<longleftrightarrow> ws = [] \<and> u = NullDeref"
proof (cases ws)
  case Nil
  then show ?thesis by (auto simp: background_process_def first_is_words)
next
  case (Cons w vs)
  have c: "\<exists>st'. cd e (map Some ws @ [None, None]) st = Inr st'" by (intro cd_defined) simp
  have "first_is (map Some ws @ [None, None]) ''cd'' = Inr (w = ''cd'')" unfolding Cons by (rule first_is_words)
  then have "\<exists>r. background_process e (map Some ws @ [None, None]) st = Inr r"
    using c by (auto simp: background_process_def Let_def)
  then show ?thesis using Cons by auto
qed

lemma dispatch_Inl:
  assumes "halted st = None"
  shows "dispatch e (map Some ws @ [None]) st = Inl u \<longrightarrow>
     u = NullDeref \<and> (ws = [] \<or> ws = [''&'']) \<or> u = OutOfBounds \<and> ''&&&'' \<in> set ws"
    and "ws = [] \<or> ws = [''&''] \<Longrightarrow> dispatch e (map Some ws @ [None]) st = Inl NullDeref"
proof -
  let ?ts = "if is_background ws then (map Some ws @ [None])[length ws - 1 := None] else map Some ws @ [None]"
  have d: "dispatch e (map Some ws @ [None]) st =
      (if ''&&'' \<in> set ws then serial_process e ?ts st
       else if ''&&&'' \<in> set ws then parallel_process e ?ts st
       else if is_background ws then seq (background_process e ?ts st) (\<lambda>st. Inr (?ts, st))
       else forground_process e ?ts st)"
    by (simp only: dispatch_def Let_def argv_tokens)
  note a = cut_array [of ws]
  have bg: "?ts = map Some (butlast ws) @ [None, None]" if "is_background ws"
  proof -
    from that obtain vs where "ws = vs @ [''&'']"
      unfolding is_background_def by (metis append_butlast_last_id)
    then show ?thesis using that by (simp add: list_update_append)
  qed
  show "dispatch e (map Some ws @ [None]) st = Inl u \<longrightarrow>
     u = NullDeref \<and> (ws = [] \<or> ws = [''&'']) \<or> u = OutOfBounds \<and> ''&&&'' \<in> set ws"
  proof (cases "''&&'' \<in> set ws")
    case True
    then show ?thesis using serial_process_spec [OF a assms, of e] unfolding d by auto
  next
    case s: False
    show ?thesis
    proof (cases "''&&&'' \<in> set ws")
      case True
      then show ?thesis using s parallel_process_Inl [OF _ a assms, of e u] unfolding d by auto
    next
      case p: False
      show ?thesis
      proof (cases "is_background ws")
        case True
        then have "seq (background_process e ?ts st) (\<lambda>st. Inr (?ts, st)) = Inl u \<longleftrightarrow> butlast ws = [] \<and> u = NullDeref"
          unfolding bg [OF True] by (simp add: seq_Inl background_words)
        moreover have "butlast ws = [] \<longrightarrow> ws = [''&'']"
          using True unfolding is_background_def by (metis append_butlast_last_id append_Nil)
        ultimately show ?thesis using s p True unfolding d by (simp only: if_False if_True simp_thms) blast
      next
        case False
        then show ?thesis using s p unfolding d by (simp add: forground_words)
      qed
    qed
  qed
  show "dispatch e (map Some ws @ [None]) st = Inl NullDeref" if "ws = [] \<or> ws = [''&'']"
  proof (cases "ws = []")
    case True
    then show ?thesis unfolding d using forground_words [of e "[]" st NullDeref] by (simp add: is_background_def)
  next
    case False
    with that have ws: "ws = [''&'']" by simp
    then show ?thesis unfolding d using background_words [of e "[]" st NullDeref]
      by (simp add: is_background_def)
  qed
qed

text \<open>
  C28: Which typed lines crash the shell: it dereferences a null token exactly on a line without
  words and on a lone ampersand; apart from these only a line with parallel commands can have
  undefined behaviour, namely when the table of parallel pids overflows.
\<close>

theorem crash_lines:
  assumes "typed_ok e s" and "halted st = None"
  shows "(shell_line e s st = Inl NullDeref \<longleftrightarrow> words s = [] \<or> words s = [''&'']) \<and>
     (\<forall>u. shell_line e s st = Inl u \<longrightarrow> u = NullDeref \<or> u = OutOfBounds \<and> ''&&&'' \<in> set (words s))"
proof -
  have h: "halted (prompted e st) = None" using assms(2) by simp
  note l = shell_line_text [OF assms(1), of st] and d = dispatch_Inl [where e = e and ws = "words s", OF h]
  show ?thesis
  proof (cases "words s \<noteq> [] \<and> hd (words s) = ''exit''")
    case True
    then show ?thesis unfolding l by (auto simp: seq_Inl)
  next
    case False
    then have "shell_line e s st = Inl u \<longleftrightarrow> dispatch e (map Some (words s) @ [None]) (prompted e st) = Inl u" for u
      unfolding l by (auto simp: seq_Inl)
    then show ?thesis using d by auto
  qed
qed

section \<open>Parallel lines, again and again\<close>

definition parallel_line :: "string \<Rightarrow> bool" where
  "parallel_line s \<longleftrightarrow> ''&&&'' \<in> set (words s) \<and> ''&&'' \<notin> set (words s) \<and>
     \<not> is_background (words s) \<and> hd (words s) \<noteq> ''exit''"

lemma parallel_line_step:
  assumes e: "calm e" and s: "typed_ok e s" "parallel_line s" and st: "table_ok st" "halted st = None"
  shows "if parallel_pid_count st + length (cmds ''&&&'' [] (words s)) \<le> MAX_NUM_TOKENS
         then \<exists>st'. shell_line e s st = Inr st' \<and> table_ok st' \<and> halted st' = None \<and>
            parallel_pid_count st' = parallel_pid_count st + length (cmds ''&&&'' [] (words s))
         else shell_line e s st = Inl OutOfBounds"
proof -
  let ?p = "prompted e st" and ?ts = "map Some (words s) @ [None]"
  have p: "table_ok ?p" "halted ?p = None" "\<not> stop_execution ?p" "parallel_pid_count ?p = parallel_pid_count st"
    using st by (simp_all add: prompted_def reap_background_processes_def table_ok_def)
  note par = parallel_process_calm [OF e p(1-3), of "words s"]
  have "dispatch e ?ts ?p = parallel_process e ?ts ?p"
    using s(2) by (simp add: dispatch_def parallel_line_def Let_def)
  then have "shell_line e s st = seq (parallel_process e ?ts ?p) (\<lambda>(ts', st'). Inr st')"
    using shell_line_text [OF s(1), of st] s(2) by (simp add: parallel_line_def)
  then have l: "shell_line e s st = map_sum id snd (parallel_process e ?ts ?p)"
    by (cases "parallel_process e ?ts ?p") auto
  show ?thesis
  proof (cases "parallel_pid_count st + length (cmds ''&&&'' [] (words s)) \<le> MAX_NUM_TOKENS")
    case True
    with par p(4) obtain ps s1 where "started ps (cmds ''&&&'' [] (words s)) ?p s1"
      "shell_line e s st = Inr (s1\<lparr>trace := trace s1 @ map Waited (take (parallel_pid_count ?p) (parallel_pids ?p) @ ps)\<rparr>)"
      unfolding l by auto
    then show ?thesis using True p by (simp add: started_def table_ok_def)
  next
    case False
    then show ?thesis using par p(4) unfolding l by simp
  qed
qed

text \<open>
  The count of parallel pids is never reset: typing the same line of \<open>c\<close> parallel commands
  \<open>n\<close> times works exactly as long as \<open>n * c\<close> is at most 64, although every command has long been
  waited for; the line that exceeds it writes past the table.
\<close>

theorem parallel_table_never_emptied:
  assumes "calm e" and "typed_ok e s" and "parallel_line s"
  shows "if n * length (cmds ''&&&'' [] (words s)) \<le> 64
         then \<exists>st. shell_run (replicate n (Typed e s)) shell_init = Inr st \<and>
           parallel_pid_count st = n * length (cmds ''&&&'' [] (words s))
         else shell_run (replicate n (Typed e s)) shell_init = Inl OutOfBounds"
proof -
  let ?c = "length (cmds ''&&&'' [] (words s))"
  have run: "if parallel_pid_count st + n * ?c \<le> MAX_NUM_TOKENS
         then \<exists>st'. shell_run (replicate n (Typed e s)) st = Inr st' \<and>
           parallel_pid_count st' = parallel_pid_count st + n * ?c
         else shell_run (replicate n (Typed e s)) st = Inl OutOfBounds"
    if "table_ok st" "halted st = None" for st
    using that
  proof (induction n arbitrary: st)
    case 0
    then show ?case by (simp add: table_ok_def)
  next
    case (Suc n)
    note l = parallel_line_step [OF assms Suc.prems]
    show ?case
    proof (cases "parallel_pid_count st + ?c \<le> MAX_NUM_TOKENS")
      case True
      with l obtain s1 where s1: "shell_line e s st = Inr s1" "table_ok s1" "halted s1 = None"
        "parallel_pid_count s1 = parallel_pid_count st + ?c" by auto
      have eq: "parallel_pid_count st + Suc n * ?c = parallel_pid_count s1 + n * ?c"
        using s1(4) by simp
      have "shell_run (replicate (Suc n) (Typed e s)) st = shell_run (replicate n (Typed e s)) s1"
        using s1(1) Suc.prems(2) by simp
      then show ?thesis using Suc.IH [OF s1(2,3)] unfolding eq by simp
    next
      case False
      then show ?thesis using l Suc.prems by simp
    qed
  qed
  have init: "table_ok shell_init" "halted shell_init = None" and c: "parallel_pid_count shell_init = 0"
    by (simp_all add: shell_init_def table_ok_def)
  show ?thesis using run [OF init] unfolding c MAX_NUM_TOKENS_def add_0 .
qed

section \<open>Witnesses\<close>

definition calm_env :: env where
  "calm_env = \<lparr>mem = (\<lambda>_. True), reaped = 0, fork_at = (\<lambda>i. 100 + int i), int_before = (\<lambda>_. False),
     int_tested = (\<lambda>_. False), int_forked = (\<lambda>_. False), int_wait = (\<lambda>_. False), int_waited = (\<lambda>_. False), chdir_ok = True, pipe_ok = True\<rparr>"

lemma calm_env: "calm calm_env"
  by (simp add: calm_def calm_env_def)

lemma words_examples:
  "words ''a &&& b'' = [''a'', ''&&&'', ''b'']" "words '' '' = []" "words ''exit'' = [''exit'']"
  by (simp_all add: words_def is_sep_def)

lemma typed_examples:
  "typed_ok calm_env ''a &&& b''" "typed_ok calm_env '' ''" "typed_ok calm_env ''exit''"
  by (simp_all add: typed_ok_def line_fits_def words_examples MAX_TOKEN_SIZE_def MAX_NUM_TOKENS_def calm_env_def)

text \<open>An interrupt that arrives just before the first \<open>fork\<close>: that command still runs, the second does not.\<close>

definition late_interrupt :: env where
  "late_interrupt = calm_env\<lparr>int_tested := (\<lambda>i. i = 1)\<rparr>"

lemma late_interrupt_run:
  "map_sum id (\<lambda>(ts, st). (halted st, trace st)) (serial_process late_interrupt (map Some [''a'', ''&&'', ''b''] @ [None]) shell_init) =
   Inr (None, [Interrupted, Spawn 101 [''a''] Plain, Waited 101])"
  by code_simp

theorem serial_in_order_witness:
  "\<exists>ts st' evs ps. serial_process late_interrupt (map Some [''a'', ''&&'', ''b''] @ [None]) shell_init = Inr (ts, st') \<and>
     trace st' = evs \<and> filter is_proc evs = runs ps [[''a''], [''b'']] \<and> quiet evs \<and> stop_execution st' \<and>
     evs = [Interrupted, Spawn 101 [''a''] Plain, Waited 101]"
proof -
  have h: "halted shell_init = None" "trace shell_init = []" by (simp_all add: shell_init_def)
  from serial_in_order [OF h(1), of late_interrupt "[''a'', ''&&'', ''b'']"] obtain ts st' evs ps where t:
    "serial_process late_interrupt (map Some [''a'', ''&&'', ''b''] @ [None]) shell_init = Inr (ts, st')"
    "trace st' = evs" "filter is_proc evs = runs ps [[''a''], [''b'']]" "quiet evs" "length ps \<le> 2"
    "length ps = 2 \<or> stop_execution st' \<or> halted st' \<noteq> None" by (auto simp: h(2))
  then have e: "halted st' = None" "evs = [Interrupted, Spawn 101 [''a''] Plain, Waited 101]"
    using late_interrupt_run by simp_all
  moreover have "length ps \<noteq> 2"
  proof
    assume "length ps = 2"
    then obtain p q where "ps = [p, q]" by (auto simp: numeral_2_eq_2 length_Suc_conv)
    then show False using t(3) e(2) by (simp add: runs_def)
  qed
  ultimately show ?thesis using t by blast
qed

theorem parallel_starts_all_then_waits_witness:
  "\<exists>ps st'. map_sum id snd (parallel_process calm_env (map Some [''a'', ''&&&'', ''b''] @ [None]) shell_init) = Inr st' \<and>
     trace st' = map2 (\<lambda>p c. Spawn p c Plain) ps [[''a''], [''b'']] @ map Waited ps"
  using parallel_starts_all_then_waits [OF calm_env, of shell_init "[''a'', ''&&&'', ''b'']"]
  by (auto simp: shell_init_def table_ok_def)

theorem crash_lines_witness:
  "shell_line calm_env '' '' shell_init = Inl NullDeref"
  using crash_lines [OF typed_examples(2), of shell_init] by (simp add: words_examples shell_init_def)

theorem parallel_table_never_emptied_witness:
  "shell_run (replicate 33 (Typed calm_env ''a &&& b'')) shell_init = Inl OutOfBounds"
  using parallel_table_never_emptied [OF calm_env typed_examples(1), of 33]
  by (simp add: words_examples parallel_line_def is_background_def)

text \<open>One command in the foreground, one in the background, then \<open>exit\<close>.\<close>

definition two_children :: "shell_action list" where
  "two_children = [Typed calm_env ''a'', Typed (calm_env\<lparr>fork_at := (\<lambda>i. 200)\<rparr>) ''b &'', Typed calm_env ''exit'']"

definition two_children_trace :: "shell_event list" where
  "two_children_trace = [Stdout ''$ '', Spawn 100 [''a''] Plain, Waited 100, Stdout ''$ '', Spawn 200 [''b''] Plain, Stdout ''$ '',
     Stdout ''Exiting the shell...'', Kill 200 SIGTERM]"

lemma two_children_run:
  "map_sum id (\<lambda>st. (halted st, trace st, take (bg_count st) (background_pids st))) (shell_run two_children shell_init) =
   Inr (Some 0, two_children_trace, [200])"
  by code_simp


theorem exit_leaves_no_child_witness:
  "\<exists>st. shell_run two_children shell_init = Inr st \<and> 200 \<in> set (spawned (trace st)) \<and> 200 \<notin> set (waited (trace st)) \<and>
     Kill 200 SIGTERM \<in> set (trace st)"
proof -
  obtain st where st: "shell_run two_children shell_init = Inr st" "halted st = Some 0" "trace st = two_children_trace"
    using two_children_run by (cases "shell_run two_children shell_init") auto
  have s: "200 \<in> set (spawned (trace st))" "200 \<notin> set (waited (trace st))" "\<not> too_many st"
    by (simp_all add: too_many_def st(3) two_children_trace_def)
  from exit_leaves_no_child [OF st(1,2) s(3)] s have "Kill 200 SIGTERM \<in> set (trace st)" by blast
  with st s show ?thesis by blast
qed

end
