(* ===== verification/ShellCleanup.thy ===== *)
theory ShellCleanup
  imports ShellLines
begin

text \<open>
  The rest of \<open>shell-code/my_shell.c\<close>: releasing the tokens at the end of a round, and what the child
  processes do between \<open>fork\<close> and \<open>execvp\<close> or \<open>exit\<close>, with the descriptors of a pipe.
\<close>

section \<open>Releasing the tokens\<close>

text \<open>
  \<open>for (i = 0; tokens[i] != NULL; i++) free(tokens[i]);\<close> Each word has a block of its own, which is named here
  by the cell that points to it. Result: the blocks released.
\<close>

function free_tokens :: "cells \<Rightarrow> nat \<Rightarrow> nat list outcome" where
  "free_tokens ts i =
     (if i < length ts then
        (case ts ! i of None \<Rightarrow> Inr [] | Some w \<Rightarrow> seq (free_tokens ts (Suc i)) (\<lambda>r. Inr (i # r)))
      else Inl OutOfBounds)"
  by pat_completeness auto
termination by (relation "measure (\<lambda>(ts, i). length ts - i)") auto

declare free_tokens.simps [simp del]

text \<open>A whole round, with the blocks that are released at its end.\<close>

definition shell_round :: "env \<Rightarrow> string \<Rightarrow> shell \<Rightarrow> (shell \<times> nat list) outcome" where
  "shell_round e s st =
     (let st = emit (Stdout ''$ '') (reap_background_processes e st) in
      seq (input_line s) (\<lambda>line.
        seq (tokenize (mem e) line) (\<lambda>ts.
          if ts ! 0 \<noteq> None \<and> the (ts ! 0) = ''exit''
          then seq (free_tokens ts 0) (\<lambda>r.
            Inr ((terminate_background_processes (emit (Stdout ''Exiting the shell...'') st))\<lparr>halted := Some 0\<rparr>, r))
          else seq (dispatch e ts (st\<lparr>stop_execution := False\<rparr>)) (\<lambda>(ts', st').
            if halted st' \<noteq> None then Inr (st', []) else seq (free_tokens ts' 0) (\<lambda>r. Inr (st', r))))))"

lemma free_tokens_words: "drop i ts = map Some ws @ None # r \<Longrightarrow> free_tokens ts i = Inr [i..<i + length ws]"
proof (induction ws arbitrary: i)
  case Nil
  then show ?case using drop_nth [of i ts None r] by (subst free_tokens.simps) simp
next
  case (Cons w ws)
  have d: "i < length ts" "ts ! i = Some w" "drop (Suc i) ts = map Some ws @ None # r"
    using drop_nth [of i ts "Some w" "map Some ws @ None # r"] Cons.prems by simp_all
  have "[i..<i + length (w # ws)] = i # [Suc i..<Suc i + length ws]" by (simp add: upt_conv_Cons del: upt_Suc)
  with Cons.IH [OF d(3)] d(1,2) show ?case by (subst free_tokens.simps) (simp del: upt_Suc)
qed

lemma free_tokens_first:
  assumes "k < length ts" "ts ! k = None" "\<forall>i<k. ts ! i \<noteq> None"
  shows "free_tokens ts 0 = Inr [0..<k]"
proof -
  have "take k ts = map Some (map the (take k ts))" using assms by (intro nth_equalityI) auto
  then have "drop 0 ts = map Some (map the (take k ts)) @ None # drop (Suc k) ts"
    using id_take_nth_drop [OF assms(1)] assms(2) by simp
  from free_tokens_words [OF this] show ?thesis using assms(1) by simp
qed

section \<open>Which cells a command cuts\<close>

text \<open>The cells of \<open>ts'\<close> are those of \<open>ts\<close>, but for some that held the word \<open>w\<close> and are \<open>NULL\<close>.\<close>

definition cut_to :: "string \<Rightarrow> cells \<Rightarrow> cells \<Rightarrow> bool" where
  "cut_to w ts ts' \<longleftrightarrow> list_all2 (\<lambda>c c'. c' = c \<or> c' = None \<and> c = Some w) ts ts'"

lemma cut_refl [simp]: "cut_to w ts ts"
  by (simp add: cut_to_def list_all2_same)

lemma cut_trans: "cut_to w ts ts' \<Longrightarrow> cut_to w ts' ts'' \<Longrightarrow> cut_to w ts ts''"
  unfolding cut_to_def list_all2_conv_all_nth by (metis option.distinct(1))

lemma cut_at: "i < length ts \<Longrightarrow> ts ! i = Some w \<Longrightarrow> cut_to w ts (ts[i := None])"
  unfolding cut_to_def list_all2_conv_all_nth by (auto simp: nth_list_update)

lemma cut_nth:
  assumes "cut_to w ts ts'"
  shows "length ts' = length ts" "i < length ts \<Longrightarrow> ts ! i = None \<Longrightarrow> ts' ! i = None"
    "i < length ts \<Longrightarrow> ts ! i \<noteq> Some w \<Longrightarrow> ts' ! i = ts ! i"
  using assms unfolding cut_to_def list_all2_conv_all_nth by auto

lemma serial_loop_cut: "serial_loop e ts tc ci st = Inr (ts', r) \<Longrightarrow> cut_to ''&&'' ts ts'"
proof (induction e ts tc ci st arbitrary: ts' r rule: serial_loop.induct)
  case (1 e ts tc ci st)
  let ?s = "sigint_if (int_before e tc) st"
  show ?case
  proof (cases "tc < length ts \<and> ts ! tc = Some ''&&'' \<and> \<not> stop_execution ?s")
    case True
    have c: "cut_to ''&&'' ts (ts[tc := None])" using True by (auto intro: cut_at)
    let ?r = "run_and_wait e tc (argv (ts[tc := None]) ci) ?s"
    show ?thesis
    proof (cases "halted ?r = None")
      case h: True
      then have "serial_loop e (ts[tc := None]) (Suc tc) (Suc tc) ?r = Inr (ts', r)"
        using "1.prems" True by (subst (asm) serial_loop.simps) (simp add: Let_def)
      from "1.IH"(1) [OF _ refl _ _ _ refl refl _ this] True h have "cut_to ''&&'' (ts[tc := None]) ts'" by simp
      with c show ?thesis by (rule cut_trans)
    next
      case False
      then show ?thesis using "1.prems" True c by (subst (asm) serial_loop.simps) (auto simp: Let_def)
    qed
  next
    case False
    then show ?thesis
      using "1.prems" "1.IH"(2) by (subst (asm) serial_loop.simps) (auto simp: Let_def split: if_splits option.splits)
  qed
qed

lemma parallel_loop_cut: "parallel_loop e ts tc ci st = Inr (ts', r) \<Longrightarrow> cut_to ''&&&'' ts ts'"
proof (induction e ts tc ci st arbitrary: ts' r rule: parallel_loop.induct)
  case (1 e ts tc ci st)
  let ?s = "sigint_if (int_before e tc) st"
  show ?case
  proof (cases "tc < length ts \<and> ts ! tc = Some ''&&&'' \<and> \<not> stop_execution ?s")
    case True
    have c: "cut_to ''&&&'' ts (ts[tc := None])" using True by (auto intro: cut_at)
    obtain st1 where st1: "run_parallel e tc (argv (ts[tc := None]) ci) ?s = Inr st1"
      "(if halted st1 \<noteq> None then Inr (ts[tc := None], tc, ci, st1)
        else parallel_loop e (ts[tc := None]) (Suc tc) (Suc tc) st1) = Inr (ts', r)"
      using "1.prems" True by (subst (asm) parallel_loop.simps) (auto simp: Let_def seq_Inr)
    show ?thesis
    proof (cases "halted st1 = None")
      case h: True
      then have "parallel_loop e (ts[tc := None]) (Suc tc) (Suc tc) st1 = Inr (ts', r)" using st1(2) by simp
      from "1.IH"(1) [OF _ refl _ _ _ refl st1(1) _ this] True h have "cut_to ''&&&'' (ts[tc := None]) ts'" by simp
      with c show ?thesis by (rule cut_trans)
    next
      case False
      then show ?thesis using st1(2) c by simp
    qed
  next
    case False
    then show ?thesis
      using "1.prems" "1.IH"(2) by (subst (asm) parallel_loop.simps) (auto simp: Let_def split: if_splits option.splits)
  qed
qed

text \<open>The first separator is cut unless an interrupt arrives before the loop has tested it; then nothing is cut.\<close>

lemma stop_sigint: "b \<Longrightarrow> stop_execution (sigint_if b st)"
  by (simp add: sigint_if_def handle_sigint_def)

lemma serial_first_cut:
  assumes "serial_loop e ts tc ci st = Inr (ts', r)" "\<not> stop_execution st" "tc \<le> i" "i < length ts" "ts ! i = Some ''&&''"
    "\<forall>j. tc \<le> j \<and> j < i \<longrightarrow> ts ! j \<noteq> None \<and> ts ! j \<noteq> Some ''&&''"
  shows "if \<exists>j. tc \<le> j \<and> j \<le> i \<and> int_before e j then ts' = ts else ts' ! i = None"
  using assms
proof (induction "i - tc" arbitrary: tc)
  case 0
  then have i: "tc = i" by simp
  show ?case
  proof (cases "int_before e i")
    case True
    then have "ts' = ts" using 0(2,5,6) unfolding i
      by (subst (asm) serial_loop.simps) (simp add: stop_sigint Let_def)
    then show ?thesis using True i by auto
  next
    case False
    then have s: "sigint_if (int_before e i) st = st" by (simp add: sigint_if_def)
    let ?ts = "ts[i := None]"
    have "cut_to ''&&'' ?ts ts'"
      using 0(2,3,5,6) unfolding i by (subst (asm) serial_loop.simps) (auto simp: s Let_def split: if_splits dest: serial_loop_cut)
    then have "ts' ! i = None" using 0(5) cut_nth(2) [of "''&&''" ?ts ts' i] by simp
    then show ?thesis using False i by auto
  qed
next
  case (Suc n)
  then obtain w where w: "tc < i" "ts ! tc = Some w" "w \<noteq> ''&&''" by fastforce
  show ?case
  proof (cases "int_before e tc")
    case True
    then have "ts' = ts" using Suc.prems(1,4) w
      by (subst (asm) serial_loop.simps) (simp add: stop_sigint Let_def)
    then show ?thesis using True w(1) by auto
  next
    case False
    then have s: "sigint_if (int_before e tc) st = st" by (simp add: sigint_if_def)
    have "serial_loop e ts (Suc tc) ci st = Inr (ts', r)"
      using Suc.prems(1,2,4) w by (subst (asm) serial_loop.simps) (simp add: s Let_def)
    from Suc.hyps(1) [OF _ this Suc.prems(2) _ Suc.prems(4,5)] Suc.hyps(2) Suc.prems(6) w(1)
    have "if \<exists>j. Suc tc \<le> j \<and> j \<le> i \<and> int_before e j then ts' = ts else ts' ! i = None" by simp
    moreover have "(\<exists>j. tc \<le> j \<and> j \<le> i \<and> int_before e j) \<longleftrightarrow> (\<exists>j. Suc tc \<le> j \<and> j \<le> i \<and> int_before e j)"
      using False by (metis Suc_leD Suc_leI le_neq_implies_less)
    ultimately show ?thesis by simp
  qed
qed

lemma parallel_first_cut:
  assumes "parallel_loop e ts tc ci st = Inr (ts', r)" "\<not> stop_execution st" "tc \<le> i" "i < length ts" "ts ! i = Some ''&&&''"
    "\<forall>j. tc \<le> j \<and> j < i \<longrightarrow> ts ! j \<noteq> None \<and> ts ! j \<noteq> Some ''&&&''"
  shows "if \<exists>j. tc \<le> j \<and> j \<le> i \<and> int_before e j then ts' = ts else ts' ! i = None"
  using assms
proof (induction "i - tc" arbitrary: tc)
  case 0
  then have i: "tc = i" by simp
  show ?case
  proof (cases "int_before e i")
    case True
    then have "ts' = ts" using 0(2,5,6) unfolding i
      by (subst (asm) parallel_loop.simps) (simp add: stop_sigint Let_def)
    then show ?thesis using True i by auto
  next
    case False
    then have s: "sigint_if (int_before e i) st = st" by (simp add: sigint_if_def)
    let ?ts = "ts[i := None]"
    have "cut_to ''&&&'' ?ts ts'"
      using 0(2,3,5,6) unfolding i by (subst (asm) parallel_loop.simps) (auto simp: s Let_def seq_Inr split: if_splits dest: parallel_loop_cut)
    then have "ts' ! i = None" using 0(5) cut_nth(2) [of "''&&&''" ?ts ts' i] by simp
    then show ?thesis using False i by auto
  qed
next
  case (Suc n)
  then obtain w where w: "tc < i" "ts ! tc = Some w" "w \<noteq> ''&&&''" by fastforce
  show ?case
  proof (cases "int_before e tc")
    case True
    then have "ts' = ts" using Suc.prems(1,4) w
      by (subst (asm) parallel_loop.simps) (simp add: stop_sigint Let_def)
    then show ?thesis using True w(1) by auto
  next
    case False
    then have s: "sigint_if (int_before e tc) st = st" by (simp add: sigint_if_def)
    have "parallel_loop e ts (Suc tc) ci st = Inr (ts', r)"
      using Suc.prems(1,2,4) w by (subst (asm) parallel_loop.simps) (simp add: s Let_def)
    from Suc.hyps(1) [OF _ this Suc.prems(2) _ Suc.prems(4,5)] Suc.hyps(2) Suc.prems(6) w(1)
    have "if \<exists>j. Suc tc \<le> j \<and> j \<le> i \<and> int_before e j then ts' = ts else ts' ! i = None" by simp
    moreover have "(\<exists>j. tc \<le> j \<and> j \<le> i \<and> int_before e j) \<longleftrightarrow> (\<exists>j. Suc tc \<le> j \<and> j \<le> i \<and> int_before e j)"
      using False by (metis Suc_leD Suc_leI le_neq_implies_less)
    ultimately show ?thesis by simp
  qed
qed

section \<open>What is released and what is leaked\<close>

definition index_of :: "string \<Rightarrow> string list \<Rightarrow> nat" where
  "index_of w ws = length (takeWhile (\<lambda>v. v \<noteq> w) ws)"

text \<open>
  The first cell that is cut in a line of the words \<open>ws\<close>: that of the first separator of its kind, unless an interrupt stops
  the loop before, and that of the last \<open>&\<close>; or the \<open>NULL\<close> behind the words.
\<close>

definition first_cut :: "env \<Rightarrow> string list \<Rightarrow> nat" where
  "first_cut e ws =
     (let n = length (cut_background ws);
          unless_stopped = (\<lambda>i. if list_ex (int_before e) [0..<Suc i] then n else i) in
      if ''&&'' \<in> set ws then unless_stopped (index_of ''&&'' ws)
      else if ''&&&'' \<in> set ws then unless_stopped (index_of ''&&&'' ws)
      else if is_background ws then n
      else index_of ''|'' ws)"

lemma index_of_in:
  assumes "w \<in> set ws"
  shows "index_of w ws < length ws" "ws ! index_of w ws = w"
  using assms by (induction ws) (auto simp: index_of_def)

lemma index_of_before: "i < index_of w ws \<Longrightarrow> i < length ws \<and> ws ! i \<noteq> w"
  unfolding index_of_def using nth_mem [of i "takeWhile (\<lambda>v. v \<noteq> w) ws"] takeWhile_nth [of i "\<lambda>v. v \<noteq> w" ws] length_takeWhile_le [of "\<lambda>v. v \<noteq> w" ws]
  by (auto dest!: set_takeWhileD)

lemma index_of_none: "w \<notin> set ws \<Longrightarrow> index_of w ws = length ws"
  unfolding index_of_def by (induction ws) auto

lemma index_of_butlast: "w \<in> set ws \<Longrightarrow> last ws \<noteq> w \<Longrightarrow> index_of w (butlast ws) = index_of w ws \<and> w \<in> set (butlast ws)"
proof (induction ws)
  case (Cons v ws)
  then show ?case by (cases "ws = []") (auto simp: index_of_def)
qed simp

text \<open>The array that \<open>dispatch\<close> hands on: the words without a last \<open>&\<close>, then \<open>NULL\<close>.\<close>

definition passed :: "string list \<Rightarrow> cells" where
  "passed ws = (if is_background ws then (map Some ws @ [None])[length ws - 1 := None] else map Some ws @ [None])"

lemma passed_words: "passed ws = map Some (cut_background ws) @ None # (if is_background ws then [None] else [])"
proof (cases "is_background ws")
  case True
  then obtain vs where "ws = vs @ [''&'']" unfolding is_background_def by (metis append_butlast_last_id)
  then show ?thesis using True by (simp add: passed_def cut_background_def list_update_append)
qed (simp add: passed_def cut_background_def)

lemma cut_background_length: "length (cut_background ws) \<le> length ws"
  by (simp add: cut_background_def)

lemma passed_nth:
  "length (passed ws) = Suc (length ws)" "i < length (cut_background ws) \<Longrightarrow> passed ws ! i = Some (cut_background ws ! i)"
  "passed ws ! length (cut_background ws) = None"
proof -
  show "length (passed ws) = Suc (length ws)" by (simp add: passed_def)
  show "passed ws ! i = Some (cut_background ws ! i)" if "i < length (cut_background ws)"
    using that unfolding passed_words by (simp add: nth_append)
  show "passed ws ! length (cut_background ws) = None" unfolding passed_words by (simp add: nth_append)
qed

lemma find_pipe_index:
  "drop i ts = map Some ws @ None # r \<Longrightarrow> length ws < n \<Longrightarrow>
     find_pipe ts i n = Inr (if ''|'' \<in> set ws then Some (i + index_of ''|'' ws) else None)"
proof (induction ws arbitrary: i n)
  case Nil
  then obtain m where "n = Suc m" by (cases n) auto
  with Nil drop_nth [of i ts None r] show ?case by (simp add: cell_def)
next
  case (Cons w ws)
  then obtain m where m: "n = Suc m" "length ws < m" by (cases n) auto
  have d: "i < length ts" "ts ! i = Some w" "drop (Suc i) ts = map Some ws @ None # r"
    using drop_nth [of i ts "Some w" "map Some ws @ None # r"] Cons.prems(1) by simp_all
  show ?case using Cons.IH [OF d(3) m(2)] m(1) d(1,2) by (auto simp: cell_def index_of_def)
qed

text \<open>The first \<open>NULL\<close> of an array in which only cells with the word \<open>w\<close> have been cut.\<close>

lemma cut_first_None:
  assumes cut: "cut_to w (passed ws) ts'" and k: "k \<le> length (cut_background ws)" "ts' ! k = None"
    and before: "\<forall>i<k. cut_background ws ! i \<noteq> w"
  shows "k < length ts'" "ts' ! k = None" "\<forall>i<k. ts' ! i \<noteq> None"
proof -
  show "k < length ts'" using cut_nth(1) [OF cut] k(1) cut_background_length [of ws] by (simp add: passed_nth(1))
  show "ts' ! k = None" by (rule k(2))
  show "\<forall>i<k. ts' ! i \<noteq> None"
    using before k(1) cut_nth(3) [OF cut] cut_background_length [of ws] by (auto simp: passed_nth)
qed

lemma looped_first_None:
  assumes w: "w \<in> set ws" "w \<noteq> ''&''" and cut: "cut_to w (passed ws) ts'"
    and first: "if \<exists>j. 0 \<le> j \<and> j \<le> index_of w ws \<and> int_before e j then ts' = passed ws else ts' ! index_of w ws = None"
  defines "k \<equiv> (if list_ex (int_before e) [0..<Suc (index_of w ws)] then length (cut_background ws) else index_of w ws)"
  shows "k < length ts'" "ts' ! k = None" "\<forall>i<k. ts' ! i \<noteq> None"
proof -
  have i: "index_of w (cut_background ws) = index_of w ws" "w \<in> set (cut_background ws)"
    using index_of_butlast [OF w(1)] w by (auto simp: cut_background_def is_background_def)
  have "list_ex (int_before e) [0..<Suc (index_of w ws)] \<longleftrightarrow> (\<exists>j. 0 \<le> j \<and> j \<le> index_of w ws \<and> int_before e j)"
    by (auto simp: list_ex_iff less_Suc_eq_le simp del: upt_Suc)
  then have "if list_ex (int_before e) [0..<Suc (index_of w ws)] then ts' = passed ws else ts' ! index_of w ws = None"
    using first by (simp only:)
  then consider (stopped) "k = length (cut_background ws)" "ts' = passed ws" | (cut) "k = index_of w ws" "ts' ! k = None"
    unfolding k_def by (cases "list_ex (int_before e) [0..<Suc (index_of w ws)]") (simp_all only: if_True if_False)
  then have "k < length ts' \<and> ts' ! k = None \<and> (\<forall>i<k. ts' ! i \<noteq> None)"
  proof cases
    case stopped
    then show ?thesis using cut_background_length [of ws] by (simp add: passed_nth)
  next
    case c: cut
    have "\<forall>i<k. cut_background ws ! i \<noteq> w" using index_of_before [of _ w "cut_background ws"] i(1) c(1) by simp
    then show ?thesis using cut_first_None [OF cut _ c(2)] index_of_in(1) [OF i(2)] i(1) c(1) by simp
  qed
  then show "k < length ts'" "ts' ! k = None" "\<forall>i<k. ts' ! i \<noteq> None" by blast+
qed

lemma dispatch_first_None:
  assumes "dispatch e (map Some ws @ [None]) st = Inr (ts', st')" "\<not> stop_execution st"
  shows "first_cut e ws < length ts' \<and> ts' ! first_cut e ws = None \<and> (\<forall>i<first_cut e ws. ts' ! i \<noteq> None)"
proof -
  have d: "dispatch e (map Some ws @ [None]) st =
      (if ''&&'' \<in> set ws then serial_process e (passed ws) st
       else if ''&&&'' \<in> set ws then parallel_process e (passed ws) st
       else if is_background ws then seq (background_process e (passed ws) st) (\<lambda>st. Inr (passed ws, st))
       else forground_process e (passed ws) st)"
    by (simp only: dispatch_def Let_def argv_tokens passed_def)
  have at: "i < length ws \<and> i = index_of w ws \<and> passed ws ! i = Some w \<and>
      (\<forall>j. 0 \<le> j \<and> j < i \<longrightarrow> passed ws ! j \<noteq> None \<and> passed ws ! j \<noteq> Some w)"
    if w: "w \<in> set ws" "w \<noteq> ''&''" "i = index_of w ws" for w i
  proof -
    have c: "index_of w (cut_background ws) = i" "w \<in> set (cut_background ws)"
      using index_of_butlast [OF w(1)] w by (auto simp: cut_background_def is_background_def)
    then have "i < length (cut_background ws)" "cut_background ws ! i = w" using index_of_in by blast+
    then show ?thesis
      using index_of_before [of _ w "cut_background ws"] c(1) w index_of_in(1) [OF w(1)] by (auto simp: passed_nth)
  qed
  consider (ser) "''&&'' \<in> set ws" | (par) "''&&'' \<notin> set ws" "''&&&'' \<in> set ws"
    | (bg) "''&&'' \<notin> set ws" "''&&&'' \<notin> set ws" "is_background ws"
    | (fg) "''&&'' \<notin> set ws" "''&&&'' \<notin> set ws" "\<not> is_background ws" by blast
  then show ?thesis
  proof cases
    case ser
    then obtain r where l: "serial_loop e (passed ws) 0 0 st = Inr (ts', r)"
      using assms(1) unfolding d by (auto simp: serial_process_def seq_Inr split: if_splits)
    note i = at [of "''&&''", OF ser _ refl]
    have "if \<exists>j. 0 \<le> j \<and> j \<le> index_of ''&&'' ws \<and> int_before e j then ts' = passed ws else ts' ! index_of ''&&'' ws = None"
      using serial_first_cut [OF l assms(2), of "index_of ''&&'' ws"] i by (simp add: passed_nth(1))
    from looped_first_None [OF ser _ serial_loop_cut [OF l] this] ser show ?thesis by (simp add: first_cut_def Let_def del: upt_Suc)
  next
    case par
    then obtain r where l: "parallel_loop e (passed ws) 0 0 st = Inr (ts', r)"
      using assms(1) unfolding d by (auto simp: parallel_process_def seq_Inr split: if_splits)
    note i = at [of "''&&&''", OF par(2) _ refl]
    have "if \<exists>j. 0 \<le> j \<and> j \<le> index_of ''&&&'' ws \<and> int_before e j then ts' = passed ws else ts' ! index_of ''&&&'' ws = None"
      using parallel_first_cut [OF l assms(2), of "index_of ''&&&'' ws"] i by (simp add: passed_nth(1))
    from looped_first_None [OF par(2) _ parallel_loop_cut [OF l] this] par show ?thesis by (simp add: first_cut_def Let_def del: upt_Suc)
  next
    case bg
    then have "ts' = passed ws" using assms(1) unfolding d by (auto simp: seq_Inr)
    then show ?thesis using bg cut_background_length [of ws] by (simp add: first_cut_def passed_nth)
  next
    case fg
    have p: "passed ws = map Some ws @ [None]" "cut_background ws = ws" using fg(3) by (simp_all add: passed_def cut_background_def)
    have f: "find_pipe (passed ws) 0 (Suc (length (passed ws))) = Inr (if ''|'' \<in> set ws then Some (index_of ''|'' ws) else None)"
      using find_pipe_index [of 0 "passed ws" ws "[]" "Suc (length (passed ws))"] by (simp add: p del: find_pipe.simps)
    have k: "first_cut e ws = index_of ''|'' ws" using fg by (simp add: first_cut_def)
    show ?thesis
    proof (cases "''|'' \<in> set ws")
      case True
      then have "ts' = (passed ws)[index_of ''|'' ws := None]"
        using assms(1) fg f unfolding d forground_process_def execute_pipe_def
        by (auto simp: Let_def simp del: find_pipe.simps split: if_splits)
      then show ?thesis using index_of_in [OF True] by (simp add: k p nth_append)
    next
      case False
      then have "ts' = passed ws"
        using assms(1) fg f unfolding d forground_process_def by (auto simp: seq_Inr simp del: find_pipe.simps split: if_splits)
      then show ?thesis using index_of_none [OF False] by (simp add: k p nth_append)
    qed
  qed
qed

lemma first_cut_word:
  "first_cut e ws \<le> length ws \<and> (first_cut e ws < length ws \<longrightarrow> ws ! first_cut e ws \<in> {''&&'', ''&&&'', ''&'', ''|''})"
proof -
  have n: "length (cut_background ws) \<le> length ws \<and> (length (cut_background ws) < length ws \<longrightarrow> ws ! length (cut_background ws) = ''&'')"
    by (auto simp: cut_background_def is_background_def last_conv_nth)
  have i: "index_of w ws \<le> length ws \<and> (index_of w ws < length ws \<longrightarrow> ws ! index_of w ws = w)" for w
    using index_of_in [of w ws] index_of_none [of w ws] by (cases "w \<in> set ws") simp_all
  show ?thesis
    using n i [of "''&&''"] i [of "''&&&''"] i [of "''|''"] unfolding first_cut_def Let_def by (simp del: upt_Suc)
qed

lemma first_cut_calm:
  assumes "\<forall>i. \<not> int_before e i"
  shows "first_cut e ws = length ws \<longleftrightarrow> \<not> is_background ws \<and> set ws \<inter> {''&&'', ''&&&'', ''|''} = {}"
proof -
  have "\<not> list_ex (int_before e) xs" for xs using assms by (simp add: list_ex_iff)
  moreover have "index_of w ws = length ws \<longleftrightarrow> w \<notin> set ws" for w
    using index_of_in(1) [of w ws] index_of_none [of w ws] by auto
  moreover have "length (cut_background ws) = length ws" if "\<not> is_background ws" using that by (simp add: cut_background_def)
  moreover have "length (cut_background ws) \<noteq> length ws" if "is_background ws"
    using that by (cases ws) (simp_all add: cut_background_def is_background_def)
  ultimately show ?thesis unfolding first_cut_def Let_def by (simp del: upt_Suc)
qed

section \<open>The child processes\<close>

text \<open>What a descriptor stands for.\<close>

datatype target = Terminal | PipeRead | PipeWrite | Other

type_synonym fds = "nat \<Rightarrow> target option"

definition dup2 :: "nat \<Rightarrow> nat \<Rightarrow> fds \<Rightarrow> fds" where
  "dup2 old new t = (case t old of None \<Rightarrow> t | Some x \<Rightarrow> t(new \<mapsto> x))"

definition close_fd :: "nat \<Rightarrow> fds \<Rightarrow> fds" where
  "close_fd fd t = t(fd := None)"

text \<open>After \<open>pipe(pipefd)\<close> with \<open>pipefd = {r, w}\<close>; both children inherit this table.\<close>

definition open_pipe :: "nat \<Rightarrow> nat \<Rightarrow> fds \<Rightarrow> fds" where
  "open_pipe r w t = t(r \<mapsto> PipeRead, w \<mapsto> PipeWrite)"

definition child_fds :: "nat \<Rightarrow> nat \<Rightarrow> stdio \<Rightarrow> fds \<Rightarrow> fds" where
  "child_fds r w io t =
     (case io of
        ToPipe \<Rightarrow> close_fd w (close_fd r (dup2 w 1 t))
      | FromPipe \<Rightarrow> close_fd r (close_fd w (dup2 r 0 t))
      | Plain \<Rightarrow> t)"

definition parent_fds :: "nat \<Rightarrow> nat \<Rightarrow> fds \<Rightarrow> fds" where
  "parent_fds r w t = close_fd w (close_fd r t)"

text \<open>
  How a child goes on: with the new program, or with a line on the given stream and an exit status. An empty command
  has \<open>NULL\<close> for a name: \<open>execvp\<close> refuses it, and a plain child then prints it.
\<close>

datatype child = Executes "string list" | Exits string int

definition child_process :: "(string \<Rightarrow> bool) \<Rightarrow> stdio \<Rightarrow> string list \<Rightarrow> child outcome" where
  "child_process found io args =
     (if args \<noteq> [] \<and> found (hd args) then Inr (Executes args)
      else if io = Plain then
        (if args = [] then Inl NullDeref else Inr (Exits (''command not found: '' @ hd args) 0))
      else Inr (Exits ''execvp'' 1))"

text \<open>The children of an event list, in order.\<close>

fun children :: "(string \<Rightarrow> bool) \<Rightarrow> shell_event list \<Rightarrow> child outcome list" where
  "children found [] = []"
| "children found (Spawn p args io # evs) = child_process found io args # children found evs"
| "children found (x # evs) = children found evs"

lemma children_append: "children found (xs @ ys) = children found xs @ children found ys"
  by (induction found xs rule: children.induct) auto

lemma children_filter: "children found (filter is_proc evs) = children found evs"
  by (induction found evs rule: children.induct) auto

lemma children_runs: "length ps \<le> length cs \<Longrightarrow> children found (runs ps cs) = map (child_process found Plain) (take (length ps) cs)"
proof (induction ps arbitrary: cs)
  case (Cons p ps)
  then obtain c cs' where "cs = c # cs'" by (cases cs) auto
  with Cons show ?case by (simp add: runs_def)
qed (simp add: runs_def)

text \<open>The children of a serial line: the commands it starts, each with its own words.\<close>

lemma serial_children:
  assumes "halted st = None"
  shows "\<exists>ts st' evs n. serial_process e (map Some ws @ [None]) st = Inr (ts, st') \<and> trace st' = trace st @ evs \<and>
     n \<le> length (cmds ''&&'' [] ws) \<and> children found evs = map (child_process found Plain) (take n (cmds ''&&'' [] ws)) \<and>
     (n = length (cmds ''&&'' [] ws) \<or> stop_execution st' \<or> halted st' \<noteq> None)"
proof -
  obtain ts' where t: "serial_process e (map Some ws @ [None]) st = Inr (ts', serial_spec e 0 [] ws st)"
    using serial_process_spec [OF tokens_array assms] by blast
  from serial_spec_adds [OF assms, of "[]" ws e 0] obtain evs ps where
    "trace (serial_spec e 0 [] ws st) = trace st @ evs" "length ps \<le> length (cmds ''&&'' [] ws)"
    "filter is_proc evs = runs ps (cmds ''&&'' [] ws)"
    "length ps = length (cmds ''&&'' [] ws) \<or> stop_execution (serial_spec e 0 [] ws st) \<or> halted (serial_spec e 0 [] ws st) \<noteq> None"
    unfolding serial_adds_def by blast
  moreover from this have "children found evs = map (child_process found Plain) (take (length ps) (cmds ''&&'' [] ws))"
    using children_filter [of found evs] children_runs [of ps "cmds ''&&'' [] ws" found] by simp
  ultimately show ?thesis using t by blast
qed

text \<open>In a line that begins with \<open>&&\<close> the first child prints a null pointer.\<close>

lemma empty_command_child: "map (child_process found Plain) (cmds ''&&'' [] [''&&'', ''ls'']) ! 0 = Inl NullDeref"
  by (simp add: child_process_def)

section \<open>Properties\<close>

text \<open>
  C35: The cleanup at the end of a round never leaves the array: a round has undefined behaviour exactly where the
  command has it, ends in the same state, and releases, each once, the blocks of the words in front of the first cell
  that the command has cut, all of them on \<open>exit\<close>. The other blocks are leaked, a separator first: so a line leaks when
  a separator was cut, and, if no interrupt stops the loop over its words, only a line without separators leaks nothing.
\<close>

theorem round_frees_prefix:
  assumes "typed_ok e s" and "halted st = None"
  shows "shell_round e s st =
       (case shell_line e s st of
          Inl u \<Rightarrow> Inl u
        | Inr st' \<Rightarrow> Inr (st',
            if words s \<noteq> [] \<and> hd (words s) = ''exit'' then [0..<length (words s)]
            else if halted st' = None then [0..<first_cut e (words s)] else []))
     \<and> first_cut e (words s) \<le> length (words s)
     \<and> (first_cut e (words s) < length (words s) \<longrightarrow> words s ! first_cut e (words s) \<in> {''&&'', ''&&&'', ''&'', ''|''})
     \<and> ((\<forall>i. \<not> int_before e i) \<longrightarrow>
         (first_cut e (words s) = length (words s) \<longleftrightarrow>
            \<not> is_background (words s) \<and> set (words s) \<inter> {''&&'', ''&&&'', ''|''} = {}))"
proof -
  let ?ts = "map Some (words s) @ [None]"
  have l: "input_line s = Inr (s @ [nl])" using assms(1) input_line_text [of s] by (simp add: typed_ok_def MAX_INPUT_SIZE_def)
  have t: "tokenize (mem e) (s @ [nl]) = Inr ?ts" using assms(1) tokenize_line [of "mem e" s] by (simp add: typed_ok_def)
  have x: "?ts ! 0 \<noteq> None \<and> the (?ts ! 0) = ''exit'' \<longleftrightarrow> words s \<noteq> [] \<and> hd (words s) = ''exit''" by (cases "words s") auto
  have all: "free_tokens ?ts 0 = Inr [0..<length (words s)]" using free_tokens_words [of 0 ?ts "words s" "[]"] by simp
  have cut: "free_tokens ts' 0 = Inr [0..<first_cut e (words s)]" if "dispatch e ?ts (prompted e st) = Inr (ts', st')" for ts' st'
    using dispatch_first_None [OF that] free_tokens_first by simp
  have "shell_round e s st = (case shell_line e s st of Inl u \<Rightarrow> Inl u
      | Inr st' \<Rightarrow> Inr (st', if words s \<noteq> [] \<and> hd (words s) = ''exit'' then [0..<length (words s)]
            else if halted st' = None then [0..<first_cut e (words s)] else []))"
    using cut unfolding shell_line_text [OF assms(1)] shell_round_def Let_def l seq.simps t x
    by (cases "dispatch e ?ts (prompted e st)") (auto simp: all prompted_def)
  then show ?thesis using first_cut_word [of e "words s"] first_cut_calm [of e "words s"] by blast
qed

text \<open>
  The pipe of a line with \<open>|\<close>: of the three processes only the first child holds its write end, as standard
  output, and only the second its read end, as standard input, so the reader comes to the end of its input when the
  writer has ended; everything else is as before.
\<close>

theorem pipe_descriptors:
  assumes "2 \<le> r" and "2 \<le> w" and "r \<noteq> w" and "t r = None" and "t w = None"
    and "\<forall>fd. t fd \<noteq> Some PipeRead \<and> t fd \<noteq> Some PipeWrite"
  shows "parent_fds r w (open_pipe r w t) = t \<and>
     child_fds r w ToPipe (open_pipe r w t) = t(1 \<mapsto> PipeWrite) \<and>
     child_fds r w FromPipe (open_pipe r w t) = t(0 \<mapsto> PipeRead)"
  using assms by (auto simp: parent_fds_def child_fds_def open_pipe_def close_fd_def dup2_def fun_eq_iff)

section \<open>Witnesses\<close>

definition console :: fds where
  "console fd = (if fd \<le> 2 then Some Terminal else None)"

theorem pipe_descriptors_witness:
  "child_fds 3 4 ToPipe (open_pipe 3 4 console) = console(1 \<mapsto> PipeWrite)"
proof -
  have "\<forall>fd. console fd \<noteq> Some PipeRead \<and> console fd \<noteq> Some PipeWrite" "console 3 = None" "console 4 = None"
    by (simp_all add: console_def)
  then show ?thesis using pipe_descriptors [of 3 4 console] by simp
qed

lemma piped_words: "words ''a | b'' = [''a'', ''|'', ''b'']"
  by (simp add: words_def is_sep_def)

lemma piped_typed: "typed_ok calm_env ''a | b''"
  by (simp add: typed_ok_def line_fits_def piped_words MAX_TOKEN_SIZE_def MAX_NUM_TOKENS_def calm_env_def)

theorem round_frees_prefix_witness:
  "\<exists>st. shell_line calm_env ''a | b'' shell_init = Inr st \<and> halted st = None \<and>
     shell_round calm_env ''a | b'' shell_init = Inr (st, [0]) \<and> words ''a | b'' = [''a'', ''|'', ''b'']"
proof -
  have "map_sum id halted (shell_line calm_env ''a | b'' shell_init) = Inr None" by code_simp
  then obtain st where st: "shell_line calm_env ''a | b'' shell_init = Inr st" "halted st = None"
    by (cases "shell_line calm_env ''a | b'' shell_init") auto
  have "first_cut calm_env [''a'', ''|'', ''b''] = 1" by code_simp
  moreover have "halted shell_init = None" by (simp add: shell_init_def)
  ultimately show ?thesis using round_frees_prefix [OF piped_typed, of shell_init] st by (simp add: piped_words)
qed

end
