(* ===== verification/Pthreads.thy ===== *)
theory Pthreads
  imports Lab_Prelude
begin

text \<open>
  Threads that share one mutex and condition variables (POSIX semantics): every shared access
  happens between acquiring and releasing the mutex, so a thread's code is a sequence of
  segments, each run while holding the mutex and ended by an unlock or a wait. A schedule is a
  list of actions; which sleeper a signal wakes and spurious wakeups are part of the schedule.
\<close>

section \<open>Threads and the mutex\<close>

text \<open>
  \<open>Enter l\<close>: blocked on the mutex, to continue at label \<open>l\<close>; \<open>Inside l\<close>: holds the mutex;
  \<open>Asleep c l\<close>: in \<open>pthread_cond_wait\<close> on \<open>c\<close>, to continue at \<open>l\<close>; \<open>Done\<close>: returned.
\<close>

datatype ('c, 'l) thread = Enter 'l | Inside 'l | Asleep 'c 'l | Done

datatype 'c wakeup = Signal 'c | Broadcast 'c

text \<open>How a segment ends: unlock and go on with the next segment, wait, or unlock and return.\<close>

datatype ('c, 'l) leave = Unlock 'l | Wait 'c 'l | Return

text \<open>The segments of a program: thread number, label, shared state.\<close>

type_synonym ('c, 'l, 's) code = "nat \<Rightarrow> 'l \<Rightarrow> 's \<Rightarrow> 's \<times> 'c wakeup list \<times> ('c, 'l) leave"

record ('c, 'l, 's) system =
  shared :: 's
  threads :: "('c, 'l) thread list"
  owner :: "nat option"

text \<open>
  \<open>Lock t\<close>: \<open>t\<close> gets the mutex; \<open>Segment t ws\<close>: the owner \<open>t\<close> runs its segment, its signals waking
  the threads \<open>ws\<close>; \<open>Spurious t\<close>: a spurious wakeup of \<open>t\<close>.
\<close>

datatype action = Lock nat | Segment nat "nat list" | Spurious nat

fun asleep_on :: "'c \<Rightarrow> ('c, 'l) thread \<Rightarrow> bool" where
  "asleep_on c (Asleep d l) = (c = d)"
| "asleep_on c p = False"

fun is_asleep :: "('c, 'l) thread \<Rightarrow> bool" where
  "is_asleep (Asleep c l) = True"
| "is_asleep p = False"

fun wake :: "('c, 'l) thread \<Rightarrow> ('c, 'l) thread" where
  "wake (Asleep c l) = Enter l"
| "wake p = p"

text \<open>A signal wakes one sleeper if there is any; a broadcast wakes all.\<close>

fun wakeups :: "'c wakeup list \<Rightarrow> nat list \<Rightarrow> ('c, 'l) thread list \<Rightarrow> ('c, 'l) thread list option" where
  "wakeups [] ws ps = (if ws = [] then Some ps else None)"
| "wakeups (Broadcast c # es) ws ps = wakeups es ws (map (\<lambda>p. if asleep_on c p then wake p else p) ps)"
| "wakeups (Signal c # es) ws ps =
     (if \<not> list_ex (asleep_on c) ps then wakeups es ws ps
      else (case ws of
              [] \<Rightarrow> None
            | w # ws' \<Rightarrow> if w < length ps \<and> asleep_on c (ps ! w) then wakeups es ws' (ps[w := wake (ps ! w)]) else None))"

fun after_leave :: "('c, 'l) leave \<Rightarrow> ('c, 'l) thread" where
  "after_leave (Unlock l) = Enter l"
| "after_leave (Wait c l) = Asleep c l"
| "after_leave Return = Done"

fun mon_step :: "('c, 'l, 's) code \<Rightarrow> action \<Rightarrow> ('c, 'l, 's) system \<Rightarrow> ('c, 'l, 's) system option" where
  "mon_step body (Lock t) st =
     (if t < length (threads st) \<and> owner st = None then
        (case threads st ! t of
           Enter l \<Rightarrow> Some (st\<lparr>threads := (threads st)[t := Inside l], owner := Some t\<rparr>)
         | _ \<Rightarrow> None)
      else None)"
| "mon_step body (Segment t ws) st =
     (if t < length (threads st) then
        (case threads st ! t of
           Inside l \<Rightarrow>
             (let (s', es, q) = body t l (shared st) in
              map_option (\<lambda>ps. st\<lparr>shared := s', threads := ps[t := after_leave q], owner := None\<rparr>)
                (wakeups es ws (threads st)))
         | _ \<Rightarrow> None)
      else None)"
| "mon_step body (Spurious t) st =
     (if t < length (threads st) \<and> is_asleep (threads st ! t)
      then Some (st\<lparr>threads := (threads st)[t := wake (threads st ! t)]\<rparr>) else None)"

text \<open>All threads start at the beginning of their code, the mutex is free.\<close>

definition mon_init :: "(nat \<Rightarrow> 'l) \<Rightarrow> nat \<Rightarrow> 's \<Rightarrow> ('c, 'l, 's) system" where
  "mon_init start n s = \<lparr>shared = s, threads = map (\<lambda>t. Enter (start t)) [0..<n], owner = None\<rparr>"

section \<open>Mutual exclusion\<close>

text \<open>The owner, and no other thread, is inside.\<close>

definition mutex_ok :: "('c, 'l, 's) system \<Rightarrow> bool" where
  "mutex_ok st \<longleftrightarrow> (\<forall>t<length (threads st). (\<exists>l. threads st ! t = Inside l) \<longleftrightarrow> owner st = Some t)
     \<and> (\<forall>t. owner st = Some t \<longrightarrow> t < length (threads st))"

text \<open>What wakeups do to one thread.\<close>

inductive woken :: "('c, 'l) thread \<Rightarrow> ('c, 'l) thread \<Rightarrow> bool" where
  stays: "woken p p"
| wakes: "woken (Asleep c l) (Enter l)"

inductive_simps woken_simps [simp]:
  "woken (Enter l) q" "woken (Inside l) q" "woken Done q" "woken p (Inside l)" "woken p Done" "woken p (Asleep c l)"

inductive_cases woken_Asleep: "woken (Asleep c l) q"

lemma woken_wake: "woken p (wake p)"
  by (cases p) (auto intro: woken.intros)

lemma woken_trans: "woken p q \<Longrightarrow> woken q r \<Longrightarrow> woken p r"
  by (auto elim!: woken.cases intro: woken.intros)

lemma woken_list_trans: "list_all2 woken xs ys \<Longrightarrow> list_all2 woken ys zs \<Longrightarrow> list_all2 woken xs zs"
  unfolding list_all2_conv_all_nth using woken_trans by metis

lemma wakeups_woken: "wakeups es ws ps = Some ps' \<Longrightarrow> list_all2 woken ps ps'"
proof (induction es ws ps rule: wakeups.induct)
  case (1 ws ps)
  then show ?case by (auto simp: list_all2_same intro: woken.stays split: if_splits)
next
  case (2 c es ws ps)
  then have "list_all2 woken (map (\<lambda>p. if asleep_on c p then wake p else p) ps) ps'" by simp
  moreover have "list_all2 woken ps (map (\<lambda>p. if asleep_on c p then wake p else p) ps)"
    by (auto simp: list_all2_conv_all_nth intro: woken_wake woken.stays)
  ultimately show ?case by (blast intro: woken_list_trans)
next
  case (3 c es ws ps)
  show ?case
  proof (cases "list_ex (asleep_on c) ps")
    case True
    with "3.prems" obtain w ws' where w: "ws = w # ws'" "w < length ps" "asleep_on c (ps ! w)"
      "wakeups es ws' (ps[w := wake (ps ! w)]) = Some ps'"
      by (auto split: list.splits if_splits)
    then have "list_all2 woken (ps[w := wake (ps ! w)]) ps'" using "3.IH"(2) True by auto
    moreover have "list_all2 woken ps (ps[w := wake (ps ! w)])"
      unfolding list_all2_conv_all_nth using w(2) by (simp add: nth_list_update woken_wake woken.stays)
    ultimately show ?thesis by (blast intro: woken_list_trans)
  next
    case False
    then show ?thesis using 3 by simp
  qed
qed

lemma wakeups_nth:
  assumes "wakeups es ws ps = Some ps'"
  shows "length ps' = length ps" "i < length ps \<Longrightarrow> woken (ps ! i) (ps' ! i)"
  using wakeups_woken [OF assms] by (auto simp: list_all2_conv_all_nth)

lemma mon_step_mutex_ok:
  assumes "mutex_ok st" "mon_step body a st = Some st'"
  shows "mutex_ok st'"
proof (cases a)
  case (Lock t)
  with assms show ?thesis by (auto simp: mutex_ok_def nth_list_update split: if_splits thread.splits)
next
  case (Segment t ws)
  with assms(2) obtain l s' es q ps where p: "t < length (threads st)" "threads st ! t = Inside l"
    "body t l (shared st) = (s', es, q)" "wakeups es ws (threads st) = Some ps"
    "st' = st\<lparr>shared := s', threads := ps[t := after_leave q], owner := None\<rparr>"
    by (auto split: if_splits thread.splits prod.splits)
  have "ps ! i \<noteq> Inside m" if i: "i < length ps" "i \<noteq> t" for i m
  proof
    assume "ps ! i = Inside m"
    with wakeups_nth [OF p(4)] i(1) have "threads st ! i = Inside m" "i < length (threads st)" by force+
    with assms(1) p(1,2) i(2) show False unfolding mutex_ok_def by (metis option.inject)
  qed
  moreover have "after_leave q \<noteq> Inside m" for m by (cases q) auto
  ultimately have "ps[t := after_leave q] ! i \<noteq> Inside m" if "i < length ps" for i m
    using that by (cases "i = t") simp_all
  then show ?thesis using p(5) by (auto simp: mutex_ok_def)
next
  case (Spurious t)
  with assms(2) obtain c l where p: "t < length (threads st)" "threads st ! t = Asleep c l"
    "st' = st\<lparr>threads := (threads st)[t := Enter l]\<rparr>"
    by (cases "threads st ! t") (auto split: if_splits)
  then have "owner st \<noteq> Some t" using assms(1) by (metis mutex_ok_def thread.distinct(7))
  with p assms(1) show ?thesis by (auto simp: mutex_ok_def nth_list_update)
qed

lemma mon_init_mutex_ok: "mutex_ok (mon_init start n s)"
  by (auto simp: mutex_ok_def mon_init_def)

text \<open>What one step does to one thread \<open>t\<close>: it is at most woken, or it acts itself.\<close>

inductive thread_step :: "('c, 'l, 's) code \<Rightarrow> 's \<Rightarrow> action \<Rightarrow> nat \<Rightarrow> ('c, 'l) thread \<Rightarrow> ('c, 'l) thread \<Rightarrow> bool"
  for body s where
  kept: "woken p p' \<Longrightarrow> thread_step body s a t p p'"
| locked: "thread_step body s (Lock t) t (Enter l) (Inside l)"
| ran: "body t l s = (s', es, q) \<Longrightarrow> thread_step body s (Segment t ws) t (Inside l) (after_leave q)"

lemma mon_step_nth:
  assumes "mon_step body a st = Some st'"
  shows "length (threads st') = length (threads st)"
    "u < length (threads st) \<Longrightarrow> thread_step body (shared st) a u (threads st ! u) (threads st' ! u)"
proof -
  have "length (threads st') = length (threads st) \<and>
    (\<forall>u<length (threads st). thread_step body (shared st) a u (threads st ! u) (threads st' ! u))"
  proof (cases a)
    case (Lock t)
    with assms obtain l where p: "t < length (threads st)" "threads st ! t = Enter l"
      "st' = st\<lparr>threads := (threads st)[t := Inside l], owner := Some t\<rparr>"
      by (auto split: if_splits thread.splits)
    have "thread_step body (shared st) a u (threads st ! u) ((threads st)[t := Inside l] ! u)"
      if "u < length (threads st)" for u
      using p(1,2) that Lock thread_step.locked thread_step.kept [OF woken.stays] by (cases "u = t") simp_all
    then show ?thesis using p(3) by simp
  next
    case (Segment t ws)
    with assms obtain l s' es q ps where p: "t < length (threads st)" "threads st ! t = Inside l"
      "body t l (shared st) = (s', es, q)" "wakeups es ws (threads st) = Some ps"
      "st' = st\<lparr>shared := s', threads := ps[t := after_leave q], owner := None\<rparr>"
      by (auto split: if_splits thread.splits prod.splits)
    have "thread_step body (shared st) a u (threads st ! u) (ps[t := after_leave q] ! u)" if "u < length (threads st)" for u
      using p(1-3) wakeups_nth [OF p(4)] that Segment
      by (cases "u = t") (auto intro: thread_step.intros)
    then show ?thesis using p(5) wakeups_nth(1) [OF p(4)] by simp
  next
    case (Spurious t)
    with assms have p: "t < length (threads st)" "st' = st\<lparr>threads := (threads st)[t := wake (threads st ! t)]\<rparr>"
      by (auto split: if_splits)
    have "thread_step body (shared st) a u (threads st ! u) ((threads st)[t := wake (threads st ! t)] ! u)"
      if "u < length (threads st)" for u
      using p(1) that thread_step.kept [OF woken.stays] thread_step.kept [OF woken_wake] by (cases "u = t") simp_all
    then show ?thesis using p(2) by simp
  qed
  then show "length (threads st') = length (threads st)"
    "u < length (threads st) \<Longrightarrow> thread_step body (shared st) a u (threads st ! u) (threads st' ! u)" by blast+
qed

section \<open>When nothing can happen\<close>

text \<open>No thread can take the mutex or run; only a spurious wakeup could go on.\<close>

definition stuck :: "('c, 'l, 's) code \<Rightarrow> ('c, 'l, 's) system \<Rightarrow> bool" where
  "stuck body st \<longleftrightarrow> (\<forall>t ws. mon_step body (Lock t) st = None \<and> mon_step body (Segment t ws) st = None)"

lemma wakeups_possible: "\<exists>ws ps'. wakeups es ws ps = Some ps'"
proof (induction es arbitrary: ps)
  case Nil
  show ?case by (intro exI [of _ "[]"] exI [of _ ps]) simp
next
  case (Cons e es)
  show ?case
  proof (cases e)
    case (Broadcast c)
    then show ?thesis using Cons by simp
  next
    case (Signal c)
    show ?thesis
    proof (cases "list_ex (asleep_on c) ps")
      case True
      then obtain w where w: "w < length ps" "asleep_on c (ps ! w)"
        by (auto simp: list_ex_iff in_set_conv_nth)
      from Cons [of "ps[w := wake (ps ! w)]"] obtain ws ps' where
        "wakeups es ws (ps[w := wake (ps ! w)]) = Some ps'" by blast
      then show ?thesis using Signal True w by (intro exI [of _ "w # ws"]) simp
    next
      case False
      then show ?thesis using Cons Signal by simp
    qed
  qed
qed

lemma stuck_iff:
  assumes "mutex_ok st"
  shows "stuck body st \<longleftrightarrow> (\<forall>p\<in>set (threads st). is_asleep p \<or> p = Done)"
proof
  assume s: "stuck body st"
  have no_inside: "threads st ! t \<noteq> Inside l" if "t < length (threads st)" for t l
  proof
    assume l: "threads st ! t = Inside l"
    obtain s' es q where b: "body t l (shared st) = (s', es, q)" by (cases "body t l (shared st)")
    obtain ws ps where w: "wakeups es ws (threads st) = Some ps" using wakeups_possible by blast
    have "mon_step body (Segment t ws) st \<noteq> None" using that l b w by simp
    then show False using s by (simp only: stuck_def) blast
  qed
  then have free: "owner st = None" using assms unfolding mutex_ok_def by (metis option.exhaust)
  have "is_asleep (threads st ! t) \<or> threads st ! t = Done" if t: "t < length (threads st)" for t
  proof (cases "threads st ! t")
    case (Enter l)
    then have "mon_step body (Lock t) st \<noteq> None" using t free by simp
    then show ?thesis using s by (simp only: stuck_def) blast
  qed (use no_inside [OF t] in auto)
  then show "\<forall>p\<in>set (threads st). is_asleep p \<or> p = Done" by (metis in_set_conv_nth)
next
  assume a: "\<forall>p\<in>set (threads st). is_asleep p \<or> p = Done"
  then show "stuck body st"
    unfolding stuck_def by (auto simp: all_set_conv_all_nth split: thread.splits)
qed

section \<open>Counting sleepers\<close>

definition num :: "('p \<Rightarrow> bool) \<Rightarrow> 'p list \<Rightarrow> nat" where
  "num f ps = length (filter f ps)"

lemma num_update:
  assumes "t < length ps"
  shows "int (num f (ps[t := p])) = int (num f ps) - of_bool (f (ps ! t)) + of_bool (f p)"
proof -
  have "num f ps = num f (take t ps @ ps ! t # drop (Suc t) ps)"
    using id_take_nth_drop [OF assms] by simp
  then show ?thesis using assms by (simp add: num_def upd_conv_take_nth_drop)
qed

lemma num_pos: "0 < num f ps \<longleftrightarrow> (\<exists>t<length ps. f (ps ! t))"
  unfolding num_def length_greater_0_conv filter_empty_conv by (metis in_set_conv_nth)

lemma num_two:
  assumes "t < length ps" "u < length ps" "t \<noteq> u" "f (ps ! t)" "f (ps ! u)"
  shows "2 \<le> num f ps"
proof -
  have "card {t, u} \<le> card {i. i < length ps \<and> f (ps ! i)}" using assms by (intro card_mono) auto
  then show ?thesis using assms(3) by (simp add: num_def length_filter_conv_card)
qed

definition sleepers :: "'c \<Rightarrow> ('c, 'l) thread list \<Rightarrow> nat" where
  "sleepers c = num (asleep_on c)"

lemma sleepers_update:
  "t < length ps \<Longrightarrow>
     int (sleepers c (ps[t := p])) = int (sleepers c ps) - of_bool (asleep_on c (ps ! t)) + of_bool (asleep_on c p)"
  unfolding sleepers_def by (rule num_update)

lemma asleep_on_wake [simp]: "\<not> asleep_on c (wake p)"
  by (cases p) auto

lemma asleep_on_unique: "asleep_on c p \<Longrightarrow> asleep_on d p \<longleftrightarrow> d = c"
  by (cases p) auto

lemma sleepers_pos: "0 < sleepers c ps \<longleftrightarrow> list_ex (asleep_on c) ps"
  unfolding sleepers_def num_pos list_ex_iff by (metis in_set_conv_nth)

text \<open>A signal wakes exactly one sleeper of its condition if there is one.\<close>

lemma signal_one:
  assumes "wakeups [Signal c] ws ps = Some ps'"
  obtains (nobody) "sleepers c ps = 0" "ps' = ps"
  | (one) w where "w < length ps" "asleep_on c (ps ! w)" "ps' = ps[w := wake (ps ! w)]"
proof (cases "list_ex (asleep_on c) ps")
  case True
  obtain w ws' where ws: "ws = w # ws'" using assms True by (cases ws) simp_all
  show ?thesis
  proof (cases "w < length ps \<and> asleep_on c (ps ! w) \<and> ws' = []")
    case True
    then show ?thesis using assms ws \<open>list_ex (asleep_on c) ps\<close> by (intro one [of w]) simp_all
  next
    case False
    then show ?thesis using assms ws \<open>list_ex (asleep_on c) ps\<close> by (simp split: if_split_asm)
  qed
next
  case False
  then show ?thesis using assms sleepers_pos [of c ps] by (intro nobody) (simp_all split: if_split_asm)
qed

lemma signal_sleepers:
  assumes "wakeups [Signal c] ws ps = Some ps'"
  shows "int (sleepers d ps') = int (sleepers d ps) - of_bool (d = c \<and> 0 < sleepers c ps)"
  using assms
proof (cases rule: signal_one)
  case (one w)
  have "0 < sleepers c ps" unfolding sleepers_pos list_ex_iff using one(1,2) nth_mem by blast
  then show ?thesis
    unfolding one(3) using sleepers_update [OF one(1), of d "wake (ps ! w)"] asleep_on_unique [OF one(2), of d] by simp
qed auto

lemma broadcast_sleepers:
  "sleepers d (map (\<lambda>p. if asleep_on c p then wake p else p) ps) = (if d = c then 0 else sleepers d ps)"
proof -
  have "asleep_on d (if asleep_on c p then wake p else p) \<longleftrightarrow> d \<noteq> c \<and> asleep_on d p" for p :: "('a, 'b) thread"
    using asleep_on_unique [of c p d] by auto
  then show ?thesis by (auto simp: sleepers_def num_def filter_map comp_def)
qed

lemma num_mono: "(\<And>t. t < length ps \<Longrightarrow> f (ps ! t) \<Longrightarrow> g (ps ! t)) \<Longrightarrow> num f ps \<le> num g ps"
proof -
  assume "\<And>t. t < length ps \<Longrightarrow> f (ps ! t) \<Longrightarrow> g (ps ! t)"
  then have "filter f ps = filter f (filter g ps)" by (auto simp: in_set_conv_nth intro!: filter_cong)
  then show ?thesis unfolding num_def by (metis length_filter_le)
qed

section \<open>Invariants of monitor programs\<close>

text \<open>The label a thread is at, whether or not it holds the mutex or sleeps.\<close>

fun label_of :: "('c, 'l) thread \<Rightarrow> 'l option" where
  "label_of (Enter l) = Some l" | "label_of (Inside l) = Some l" | "label_of (Asleep c l) = Some l"
| "label_of Done = None"

definition labels :: "('c, 'l, 's) system \<Rightarrow> 'l option list" where
  "labels st = map label_of (threads st)"

lemma label_woken: "woken p q \<Longrightarrow> label_of q = label_of p"
  by (auto elim: woken.cases)

lemma all_done_labels:
  assumes "\<forall>p\<in>set ps. p = Done"
  shows "map label_of ps = replicate (length ps) None"
proof -
  have "map label_of ps = map (\<lambda>_. None) ps" using assms by (intro map_cong) auto
  then show ?thesis by (simp add: map_replicate_const)
qed

lemma labels_wakeups: "wakeups es ws ps = Some ps' \<Longrightarrow> map label_of ps' = map label_of ps"
  using wakeups_woken [of es ws ps ps'] by (auto simp: list_all2_conv_all_nth label_woken intro!: nth_equalityI)

text \<open>Runs without spurious wakeups.\<close>

definition calm_step :: "('c, 'l, 's) code \<Rightarrow> action \<Rightarrow> ('c, 'l, 's) system \<Rightarrow> ('c, 'l, 's) system option" where
  "calm_step body a st = (case a of Spurious t \<Rightarrow> None | _ \<Rightarrow> mon_step body a st)"

lemma calm_stepE:
  assumes "calm_step body a st = Some st'"
  obtains (locks) t l where "a = Lock t" "t < length (threads st)" "threads st ! t = Enter l"
    "st' = st\<lparr>threads := (threads st)[t := Inside l], owner := Some t\<rparr>"
  | (runs) t ws l s' es q ps where "a = Segment t ws" "t < length (threads st)" "threads st ! t = Inside l"
    "body t l (shared st) = (s', es, q)" "wakeups es ws (threads st) = Some ps"
    "st' = st\<lparr>shared := s', threads := ps[t := after_leave q], owner := None\<rparr>"
  using assms
  by (cases a) (auto simp: calm_step_def split: if_splits thread.splits prod.splits)

lemma calm_exec: "exec (calm_step body) st sched = Some st' \<Longrightarrow> exec (mon_step body) st sched = Some st'"
proof (induction sched arbitrary: st)
  case (Cons a sched)
  then show ?case by (cases a) (auto simp: calm_step_def simp del: mon_step.simps split: option.splits)
qed simp

lemma exec_threads_length: "exec (mon_step body) st sched = Some st' \<Longrightarrow> length (threads st') = length (threads st)"
  by (induction sched arbitrary: st) (auto dest: mon_step_nth(1) split: option.splits)

fun is_spurious :: "action \<Rightarrow> bool" where
  "is_spurious (Spurious t) = True"
| "is_spurious a = False"

definition spurious_count :: "action list \<Rightarrow> nat" where
  "spurious_count sched = length (filter is_spurious sched)"

text \<open>Counting threads by their labels is not changed by wakeups.\<close>

lemma num_labels_wakeups:
  assumes "wakeups es ws ps = Some ps'"
  shows "num (\<lambda>p. g (label_of p)) ps' = num (\<lambda>p. g (label_of p)) ps"
proof -
  have "num (\<lambda>p. g (label_of p)) qs = length (filter g (map label_of qs))" for qs :: "('a, 'b) thread list"
    by (simp add: num_def filter_map comp_def)
  from this [of ps] this [of ps'] show ?thesis unfolding labels_wakeups [OF assms] by simp
qed

text \<open>
  A monitor invariant on the threads: preserved by taking the mutex and by every segment with
  its wakeups; with the further law for spurious wakeups it holds in all runs.
\<close>

locale calm_monitor =
  fixes body :: "('c, 'l, 's) code"
    and inv :: "'s \<Rightarrow> ('c, 'l) thread list \<Rightarrow> bool"
  assumes lock_inv: "t < length ps \<Longrightarrow> ps ! t = Enter l \<Longrightarrow> inv s ps \<Longrightarrow> inv s (ps[t := Inside l])"
    and segment_inv: "t < length ps \<Longrightarrow> ps ! t = Inside l \<Longrightarrow> inv s ps \<Longrightarrow> body t l s = (s', es, q) \<Longrightarrow>
       wakeups es ws ps = Some ps' \<Longrightarrow> inv s' (ps'[t := after_leave q])"

sublocale calm_monitor \<subseteq> calm: step_invariant "calm_step body" "\<lambda>st. mutex_ok st \<and> inv (shared st) (threads st)"
proof
  fix st st' :: "('c, 'l, 's) system" and a
  assume i: "mutex_ok st \<and> inv (shared st) (threads st)" and s: "calm_step body a st = Some st'"
  have "inv (shared st') (threads st')"
  proof (cases a)
    case (Lock t)
    with i s show ?thesis by (auto simp: calm_step_def intro: lock_inv split: if_splits thread.splits)
  next
    case (Segment t ws)
    with i s show ?thesis by (auto simp: calm_step_def intro: segment_inv split: if_splits thread.splits prod.splits)
  next
    case (Spurious t)
    with s show ?thesis by (simp add: calm_step_def)
  qed
  moreover have "mon_step body a st = Some st'" using s by (cases a) (auto simp: calm_step_def)
  ultimately show "mutex_ok st' \<and> inv (shared st') (threads st')" using mon_step_mutex_ok i by blast
qed

locale monitor = calm_monitor body inv
  for body :: "('c, 'l, 's) code" and inv :: "'s \<Rightarrow> ('c, 'l) thread list \<Rightarrow> bool" +
  assumes spurious_inv: "t < length ps \<Longrightarrow> ps ! t = Asleep c l \<Longrightarrow> inv s ps \<Longrightarrow> inv s (ps[t := Enter l])"

sublocale monitor \<subseteq> step_invariant "mon_step body" "\<lambda>st. mutex_ok st \<and> inv (shared st) (threads st)"
proof
  fix st st' :: "('c, 'l, 's) system" and a
  assume i: "mutex_ok st \<and> inv (shared st) (threads st)" and s: "mon_step body a st = Some st'"
  show "mutex_ok st' \<and> inv (shared st') (threads st')"
  proof (cases "\<exists>t. a = Spurious t")
    case True
    then obtain t where t: "a = Spurious t" ..
    with i s have "inv (shared st') (threads st')"
      by (cases "threads st ! t") (auto intro: spurious_inv split: if_splits)
    then show ?thesis using mon_step_mutex_ok i s by blast
  next
    case False
    then have "calm_step body a st = Some st'" using s by (cases a) (auto simp: calm_step_def)
    then show ?thesis using calm.step_inv i by blast
  qed
qed

text \<open>An invariant on the labels only has to be checked for the segments.\<close>

locale labelled_monitor =
  fixes body :: "('c, 'l, 's) code"
    and linv :: "'s \<Rightarrow> 'l option list \<Rightarrow> bool"
  assumes segment_linv: "t < length ls \<Longrightarrow> ls ! t = Some l \<Longrightarrow> linv s ls \<Longrightarrow> body t l s = (s', es, q) \<Longrightarrow>
       linv s' (ls[t := label_of (after_leave q)])"

sublocale labelled_monitor \<subseteq> monitor body "\<lambda>s ps. linv s (map label_of ps)"
proof
  fix t l s and ps :: "('c, 'l) thread list"
  assume "t < length ps" "ps ! t = Enter l" "linv s (map label_of ps)"
  moreover from this have "map label_of (ps[t := Inside l]) = map label_of ps"
    by (simp add: map_update list_update_same_conv)
  ultimately show "linv s (map label_of (ps[t := Inside l]))" by simp
next
  fix t l s s' es q ws and ps ps' :: "('c, 'l) thread list"
  assume a: "t < length ps" "ps ! t = Inside l" "linv s (map label_of ps)" "body t l s = (s', es, q)"
    "wakeups es ws ps = Some ps'"
  from segment_linv [of t "map label_of ps" l, OF _ _ a(3,4)] a(1,2)
  have "linv s' ((map label_of ps)[t := label_of (after_leave q)])" by simp
  then show "linv s' (map label_of (ps'[t := after_leave q]))"
    using labels_wakeups [OF a(5)] by (simp add: map_update)
next
  fix t c l s and ps :: "('c, 'l) thread list"
  assume "t < length ps" "ps ! t = Asleep c l" "linv s (map label_of ps)"
  moreover from this have "map label_of (ps[t := Enter l]) = map label_of ps"
    by (simp add: map_update list_update_same_conv)
  ultimately show "linv s (map label_of (ps[t := Enter l]))" by simp
qed

section \<open>Programs that end\<close>

lemma sum_map_update:
  fixes f :: "'a \<Rightarrow> nat"
  assumes "t < length ps"
  shows "sum_list (map f (ps[t := p])) + f (ps ! t) = sum_list (map f ps) + f p"
proof -
  have "map f ps ! t \<le> sum_list (map f ps)" using assms by (intro member_le_sum_list) simp_all
  then show ?thesis using assms by (simp add: map_update sum_list_update)
qed

text \<open>
  A program whose threads spend points and whose shared state stores some: taking the mutex costs a point, and a
  segment with its wakeups costs some, from what the threads and the store have together.
\<close>

locale spending_monitor = calm_monitor body inv
  for body :: "('c, 'l, 's) code" and inv :: "'s \<Rightarrow> ('c, 'l) thread list \<Rightarrow> bool" +
  fixes points :: "('c, 'l) thread \<Rightarrow> nat" and store :: "'s \<Rightarrow> nat"
  assumes lock_points: "points (Inside l) < points (Enter l)"
    and segment_points: "t < length ps \<Longrightarrow> ps ! t = Inside l \<Longrightarrow> inv s ps \<Longrightarrow> body t l s = (s', es, q) \<Longrightarrow>
       wakeups es ws ps = Some ps' \<Longrightarrow>
       store s' + sum_list (map points (ps'[t := after_leave q])) < store s + sum_list (map points ps)"

sublocale spending_monitor \<subseteq> spends: bounded_runs "calm_step body" "\<lambda>st. mutex_ok st \<and> inv (shared st) (threads st)"
  "\<lambda>st. store (shared st) + sum_list (map points (threads st))"
proof
  fix st st' and a
  assume inv: "mutex_ok st \<and> inv (shared st) (threads st)" and step: "calm_step body a st = Some st'"
  from step show "store (shared st') + sum_list (map points (threads st')) < store (shared st) + sum_list (map points (threads st))"
  proof (cases rule: calm_stepE)
    case (locks t l)
    then show ?thesis using sum_map_update [OF locks(2), of points "Inside l"] lock_points [of l] by simp
  next
    case (runs t ws l s' es q ps)
    then show ?thesis using segment_points [OF runs(2,3) _ runs(4,5)] inv by simp
  qed
qed

text \<open>
  Every label has a weight, the number of segments without a wait that are ahead at most: a segment that waits wakes
  nobody and keeps the weight, every other one decreases it. Without spurious wakeups such a program ends,
  because only segments that decrease the weight wake anybody.
\<close>

locale weighted_code =
  fixes body :: "('c, 'l, 's) code" and weight :: "'l \<Rightarrow> nat"
  assumes wait_weight: "body t l s = (s', es, Wait c l') \<Longrightarrow> es = [] \<and> weight l' \<le> weight l"
    and unlock_weight: "body t l s = (s', es, Unlock l') \<Longrightarrow> weight l' < weight l"
    and return_weight: "body t l s = (s', es, Return) \<Longrightarrow> 0 < weight l"
begin

fun thread_weight :: "('c, 'l) thread \<Rightarrow> nat" where
  "thread_weight p = (case label_of p of None \<Rightarrow> 0 | Some l \<Rightarrow> weight l)"

fun awake :: "('c, 'l) thread \<Rightarrow> nat" where
  "awake (Enter l) = 2" | "awake (Inside l) = 1" | "awake p = 0"

definition fuel :: "('c, 'l, 's) system \<Rightarrow> nat" where
  "fuel st = (2 * length (threads st) + 2) * sum_list (map thread_weight (threads st)) + sum_list (map awake (threads st))"

lemma awake_bound: "sum_list (map awake ps) \<le> 2 * length ps"
proof (induction ps)
  case (Cons p ps)
  then show ?case by (cases p) simp_all
qed simp

lemma weights_wakeups:
  assumes "wakeups es ws ps = Some ps'"
  shows "map thread_weight ps' = map thread_weight ps"
proof -
  have "map thread_weight qs = map (\<lambda>l. case l of None \<Rightarrow> 0 | Some l \<Rightarrow> weight l) (map label_of qs)" for qs by simp
  then show ?thesis using labels_wakeups [OF assms] by metis
qed

lemma segment_fuel:
  assumes t: "t < length ps" "ps ! t = Inside l" and step: "body t l s = (s', es, q)" and w: "wakeups es ws ps = Some ps'"
  shows "(2 * length ps + 2) * sum_list (map thread_weight (ps'[t := after_leave q])) + sum_list (map awake (ps'[t := after_leave q])) <
     (2 * length ps + 2) * sum_list (map thread_weight ps) + sum_list (map awake ps)"
proof -
  have len: "length ps' = length ps" using wakeups_woken [OF w] by (simp add: list_all2_lengthD)
  note weights = sum_map_update [of t ps thread_weight "after_leave q", OF t(1), unfolded t(2)]
  have same: "map thread_weight (ps'[t := x]) = map thread_weight (ps[t := x])" for x
    using weights_wakeups [OF w] by (simp add: map_update)
  show ?thesis
  proof (cases "\<exists>c l'. q = Wait c l'")
    case True
    then obtain c l' where q: "q = Wait c l'" by blast
    then have "es = []" "weight l' \<le> weight l" using wait_weight step by blast+
    then have "ps' = ps" using w by (simp split: if_splits)
    moreover have "sum_list (map thread_weight (ps[t := after_leave q])) \<le> sum_list (map thread_weight ps)"
      using weights q \<open>weight l' \<le> weight l\<close> by simp
    moreover have "sum_list (map awake (ps[t := after_leave q])) < sum_list (map awake ps)"
      using sum_map_update [of t ps awake "after_leave q", OF t(1), unfolded t(2)] q by simp
    ultimately show ?thesis by (simp only:) (intro add_le_less_mono mult_le_mono2)
  next
    case False
    then have "sum_list (map thread_weight (ps[t := after_leave q])) < sum_list (map thread_weight ps)"
      using weights step unlock_weight return_weight by (cases q) force+
    then have "(2 * length ps + 2) * Suc (sum_list (map thread_weight (ps[t := after_leave q]))) \<le>
        (2 * length ps + 2) * sum_list (map thread_weight ps)"
      by (intro mult_le_mono2) simp
    moreover have "sum_list (map awake (ps'[t := after_leave q])) \<le> 2 * length ps"
      using awake_bound [of "ps'[t := after_leave q]"] len by simp
    ultimately show ?thesis unfolding same by (simp add: algebra_simps)
  qed
qed

end

sublocale weighted_code \<subseteq> ends: bounded_runs "calm_step body" "\<lambda>st. True" fuel
proof
  fix st st' and a
  assume "calm_step body a st = Some st'"
  then show "fuel st' < fuel st"
  proof (cases rule: calm_stepE)
    case (locks t l)
    then show ?thesis
      using sum_map_update [OF locks(2), of awake "Inside l"] sum_map_update [OF locks(2), of thread_weight "Inside l"]
      by (simp add: fuel_def)
  next
    case (runs t ws l s' es q ps)
    have "length ps = length (threads st)" using wakeups_woken [OF runs(5)] by (simp add: list_all2_lengthD)
    then show ?thesis using segment_fuel [OF runs(2-5)] by (simp add: fuel_def runs(6))
  qed
qed simp

context weighted_code begin

lemma init_fuel: "fuel (mon_init start n s) = (2 * n + 2) * (\<Sum>t\<leftarrow>[0..<n]. weight (start t)) + 2 * n"
proof -
  have "map awake (threads (mon_init start n s)) = map (\<lambda>t. 2) [0..<n]" by (simp add: mon_init_def)
  moreover have "map thread_weight (threads (mon_init start n s)) = map (\<lambda>t. weight (start t)) [0..<n]" by (simp add: mon_init_def)
  ultimately show ?thesis
    unfolding fuel_def by (simp only: map_replicate_const sum_list_replicate) (simp add: mon_init_def)
qed

lemma run_bound:
  "exec (calm_step body) (mon_init start n s) sched = Some st \<Longrightarrow>
     length sched \<le> (2 * n + 2) * (\<Sum>t\<leftarrow>[0..<n]. weight (start t)) + 2 * n"
  using ends.run_length [OF TrueI] init_fuel by metis

text \<open>A spurious wakeup gives back two points, so a run with spurious wakeups is longer by three steps for each at most.\<close>

lemma any_step_fuel:
  assumes "mon_step body a st = Some st'"
  shows "1 + fuel st' \<le> fuel st + 3 * spurious_count [a]"
proof (cases "is_spurious a")
  case True
  then obtain t where a: "a = Spurious t" by (cases a) auto
  with assms obtain c l where p: "t < length (threads st)" "threads st ! t = Asleep c l"
    "st' = st\<lparr>threads := (threads st)[t := Enter l]\<rparr>"
    by (cases "threads st ! t") (auto split: if_splits)
  show ?thesis
    using sum_map_update [OF p(1), of thread_weight "Enter l", unfolded p(2)] sum_map_update [OF p(1), of awake "Enter l", unfolded p(2)]
    by (simp add: fuel_def p(3) a spurious_count_def)
next
  case False
  then have "calm_step body a st = Some st'" using assms by (cases a) (simp_all add: calm_step_def)
  from ends.step_fuel [OF TrueI this] show ?thesis by simp
qed

lemma run_fuel: "exec (mon_step body) st sched = Some st' \<Longrightarrow> length sched + fuel st' \<le> fuel st + 3 * spurious_count sched"
proof (induction sched arbitrary: st)
  case (Cons a sched)
  then obtain st1 where "mon_step body a st = Some st1" "exec (mon_step body) st1 sched = Some st'" by (auto split: option.splits)
  from any_step_fuel [OF this(1)] Cons.IH [OF this(2)] show ?case by (simp add: spurious_count_def split: if_splits)
qed (simp add: spurious_count_def)

lemma any_run_bound:
  "exec (mon_step body) (mon_init start n s) sched = Some st \<Longrightarrow>
     length sched \<le> (2 * n + 2) * (\<Sum>t\<leftarrow>[0..<n]. weight (start t)) + 2 * n + 3 * spurious_count sched"
  using run_fuel [of "mon_init start n s" sched st] by (simp add: init_fuel)

end

end
