(* ===== verification/MasterWorker.thy ===== *)
theory MasterWorker
  imports Pthreads "HOL-Library.Multiset"
begin

text \<open>
  The bounded buffer of \<open>pthreads-sync-code/master-worker/master-worker.c\<close>: masters that produce
  the numbers up to \<open>total_items\<close>, workers that consume them, one mutex, two condition variables.
  Threads \<open>0..<M\<close> are the masters, the rest are the workers.
\<close>

section \<open>The program\<close>

text \<open>
  \<open>produced\<close> and \<open>consumed\<close> are the two kinds of output lines, with the thread that printed them;
  \<open>overrun\<close> becomes true where the code would use the buffer outside its allocated cells.
\<close>

record buf =
  item_to_produce :: int
  curr_buf_size :: int
  buffer :: "int list"
  produced :: "(int \<times> nat) list"
  consumed :: "(int \<times> nat) list"
  overrun :: bool

datatype mw_cond = NotFull | NotEmpty

text \<open>Where a thread continues: at the top of its loop or in its inner waiting loop.\<close>

datatype mw_label = MTop | MFull | WTop | WEmpty

type_synonym mw_step = "buf \<times> mw_cond wakeup list \<times> (mw_cond, mw_label) leave"

definition produce :: "nat \<Rightarrow> buf \<Rightarrow> mw_step" where
  "produce t s =
     (let i = curr_buf_size s; ok = (0 \<le> i \<and> nat i < length (buffer s)) in
      (s\<lparr>buffer := (if ok then (buffer s)[nat i := item_to_produce s] else buffer s),
         produced := produced s @ [(item_to_produce s, t)],
         curr_buf_size := i + 1, item_to_produce := item_to_produce s + 1,
         overrun := (overrun s \<or> \<not> ok)\<rparr>,
       [Signal NotEmpty], Unlock MTop))"

definition consume :: "nat \<Rightarrow> buf \<Rightarrow> mw_step" where
  "consume t s =
     (if curr_buf_size s > 0 then
        (let i = curr_buf_size s - 1; ok = (nat i < length (buffer s)) in
         (s\<lparr>curr_buf_size := i,
            consumed := consumed s @ (if ok then [(buffer s ! nat i, t)] else []),
            overrun := (overrun s \<or> \<not> ok)\<rparr>,
          [Signal NotFull], Unlock WTop))
      else (s, [], Unlock WTop))"

text \<open>\<open>while (curr_buf_size >= max_buf_size) wait\<close>, then the item.\<close>

definition master_full :: "int \<Rightarrow> nat \<Rightarrow> buf \<Rightarrow> mw_step" where
  "master_full mx t s = (if curr_buf_size s \<ge> mx then (s, [], Wait NotFull MFull) else produce t s)"

definition worker_empty :: "int \<Rightarrow> nat \<Rightarrow> buf \<Rightarrow> mw_step" where
  "worker_empty items t s =
     (if curr_buf_size s = 0 \<and> item_to_produce s < items then (s, [], Wait NotEmpty WEmpty) else consume t s)"

fun mw_code :: "int \<Rightarrow> int \<Rightarrow> (mw_cond, mw_label, buf) code" where
  "mw_code items mx t MTop s = (if item_to_produce s \<ge> items then (s, [], Return) else master_full mx t s)"
| "mw_code items mx t MFull s = master_full mx t s"
| "mw_code items mx t WTop s =
     (if curr_buf_size s = 0 \<and> item_to_produce s \<ge> items then (s, [], Return) else worker_empty items t s)"
| "mw_code items mx t WEmpty s = worker_empty items t s"

definition buf_init :: "int \<Rightarrow> buf" where
  "buf_init mx = \<lparr>item_to_produce = 0, curr_buf_size = 0, buffer = replicate (nat mx) 0,
     produced = [], consumed = [], overrun = False\<rparr>"

definition mw_init :: "int \<Rightarrow> nat \<Rightarrow> nat \<Rightarrow> (mw_cond, mw_label, buf) system" where
  "mw_init mx masters workers =
     mon_init (\<lambda>t. if t < masters then MTop else WTop) (masters + workers) (buf_init mx)"

text \<open>
  \<open>main\<close>, from its arguments to the joins: the usage message or the created threads (calls of \<open>malloc\<close> and
  \<open>pthread_create\<close> are not checked; they succeed here), and the states in which all joins have returned.
\<close>

definition mw_main :: "nat \<Rightarrow> int \<Rightarrow> int \<Rightarrow> int \<Rightarrow> (mw_cond, mw_label, buf) system option" where
  "mw_main argc max_buf_size num_workers num_masters =
     (if argc < 5 then None else Some (mw_init max_buf_size (nat num_masters) (nat num_workers)))"

definition mw_joined :: "(mw_cond, mw_label, buf) system \<Rightarrow> bool" where
  "mw_joined st \<longleftrightarrow> (\<forall>p\<in>set (threads st). p = Done)"

text \<open>Runs of the program: \<open>items\<close>, buffer size, number of masters and of workers, schedule.\<close>

definition mw_run :: "int \<Rightarrow> int \<Rightarrow> nat \<Rightarrow> nat \<Rightarrow> action list \<Rightarrow> (mw_cond, mw_label, buf) system option" where
  "mw_run items mx masters workers = exec (mon_step (mw_code items mx)) (mw_init mx masters workers)"

section \<open>The invariant\<close>

definition buf_ok :: "int \<Rightarrow> buf \<Rightarrow> bool" where
  "buf_ok mx s \<longleftrightarrow> \<not> overrun s \<and> length (buffer s) = nat mx \<and> 0 \<le> curr_buf_size s \<and>
     nat (curr_buf_size s) \<le> nat mx \<and> 0 \<le> item_to_produce s \<and>
     map fst (produced s) = [0..item_to_produce s - 1] \<and>
     mset [0..item_to_produce s - 1] = mset (map fst (consumed s)) + mset (take (nat (curr_buf_size s)) (buffer s))"

definition full :: "mw_label option list \<Rightarrow> int" where
  "full ls = int (count_list ls (Some MFull))"

text \<open>
  Every master that sleeps in the inner loop may still produce one item. A master has returned
  only after the last item was produced, a worker only when, with one master, nothing is left.
\<close>

definition mw_linv :: "int \<Rightarrow> int \<Rightarrow> nat \<Rightarrow> nat \<Rightarrow> buf \<Rightarrow> mw_label option list \<Rightarrow> bool" where
  "mw_linv items mx masters workers s ls \<longleftrightarrow> buf_ok mx s \<and> length ls = masters + workers \<and>
     (\<forall>t<masters. ls ! t \<in> {None, Some MTop, Some MFull} \<and> (ls ! t = None \<longrightarrow> items \<le> item_to_produce s)) \<and>
     (\<forall>t<workers. ls ! (masters + t) \<in> {None, Some WTop, Some WEmpty} \<and>
        (ls ! (masters + t) = None \<longrightarrow> items \<le> item_to_produce s \<and> (masters \<le> 1 \<longrightarrow> curr_buf_size s = 0))) \<and>
     (items \<le> 0 \<longrightarrow> item_to_produce s = 0 \<and> full ls = 0) \<and>
     (0 < items \<longrightarrow> item_to_produce s + full ls \<le> items + int masters - 1)"

lemma upto_snoc: "0 \<le> i \<Longrightarrow> [0..i] = [0..i - 1] @ [i]"
  by (simp add: upto_rec2)

lemma produce_ok:
  fixes t :: nat
  assumes ok: "buf_ok mx s" and room: "curr_buf_size s < mx"
  defines "s' \<equiv> fst (produce t s)"
  shows "buf_ok mx s'" "item_to_produce s' = item_to_produce s + 1"
proof -
  let ?i = "curr_buf_size s" and ?v = "item_to_produce s"
  from ok have b: "0 \<le> ?i" "length (buffer s) = nat mx" "0 \<le> ?v" by (auto simp: buf_ok_def)
  then have i: "nat ?i < length (buffer s)" using room by simp
  have "take (nat (?i + 1)) ((buffer s)[nat ?i := ?v]) = take (nat ?i) (buffer s) @ [?v]"
    using i b(1) by (simp add: nat_add_distrib take_Suc_conv_app_nth)
  then show "buf_ok mx s'"
    using ok room b i upto_snoc [OF b(3)] unfolding s'_def produce_def Let_def
    by (simp add: buf_ok_def)
  show "item_to_produce s' = item_to_produce s + 1" by (simp add: s'_def produce_def Let_def)
qed

lemma consume_ok:
  fixes t :: nat
  assumes ok: "buf_ok mx s"
  defines "s' \<equiv> fst (consume t s)"
  shows "buf_ok mx s'" "item_to_produce s' = item_to_produce s"
    "curr_buf_size s = 0 \<longrightarrow> curr_buf_size s' = 0"
proof -
  let ?i = "curr_buf_size s"
  show "buf_ok mx s'"
  proof (cases "0 < ?i")
    case True
    from ok have b: "nat ?i \<le> length (buffer s)" by (auto simp: buf_ok_def)
    with True have i: "nat (?i - 1) < length (buffer s)" by simp
    have "nat ?i = Suc (nat (?i - 1))" using True by simp
    then have "take (nat ?i) (buffer s) = take (nat (?i - 1)) (buffer s) @ [buffer s ! nat (?i - 1)]"
      using i by (simp only: take_Suc_conv_app_nth)
    moreover have "nat (?i - 1) \<le> nat mx" using ok by (auto simp: buf_ok_def)
    ultimately show ?thesis
      using ok True i unfolding s'_def consume_def Let_def by (simp add: buf_ok_def)
  next
    case False
    then show ?thesis using ok by (simp add: s'_def consume_def)
  qed
qed (simp_all add: s'_def consume_def Let_def)

lemma count_list_update:
  "t < length ls \<Longrightarrow> int (count_list (ls[t := x]) v) =
     int (count_list ls v) - (if ls ! t = v then 1 else 0) + (if x = v then 1 else 0)"
proof -
  assume t: "t < length ls"
  have "count_list ls v = count_list (take t ls @ ls ! t # drop (Suc t) ls) v"
    using id_take_nth_drop [OF t] by simp
  then show ?thesis using t by (simp add: upd_conv_take_nth_drop)
qed

lemma full_update:
  "t < length ls \<Longrightarrow> full (ls[t := x]) =
     full ls - (if ls ! t = Some MFull then 1 else 0) + (if x = Some MFull then 1 else 0)"
  unfolding full_def by (rule count_list_update)

lemma full_nonneg: "0 \<le> full ls" "t < length ls \<Longrightarrow> ls ! t = Some MFull \<Longrightarrow> 1 \<le> full ls"
  unfolding full_def using count_list_0_iff [of ls "Some MFull"] nth_mem [of t ls] by (auto simp: Suc_leI)

text \<open>Only masters are ever in the inner loop of a master.\<close>

lemma full_le:
  assumes "\<forall>t<length ls. ls ! t = Some MFull \<longrightarrow> t < masters"
  shows "full ls \<le> int masters"
proof -
  have "Some MFull \<notin> set (drop masters ls)"
  proof
    assume "Some MFull \<in> set (drop masters ls)"
    then obtain i where "i < length (drop masters ls)" "drop masters ls ! i = Some MFull"
      unfolding in_set_conv_nth by blast
    then have "masters + i < length ls" "ls ! (masters + i) = Some MFull" by simp_all
    with assms have "masters + i < masters" by blast
    then show False by simp
  qed
  then have "count_list (drop masters ls) (Some MFull) = 0" by (simp add: count_list_0_iff)
  then have "count_list ls (Some MFull) = count_list (take masters ls) (Some MFull)"
    by (metis add.right_neutral append_take_drop_id count_list_append)
  also have "\<dots> \<le> length (take masters ls)" by (rule count_le_length)
  finally show ?thesis by (simp add: full_def)
qed

lemma linv_full:
  assumes "mw_linv items mx masters workers s ls" "t < length ls" "ls ! t = Some MFull"
  shows "t < masters"
proof (rule ccontr)
  assume "\<not> t < masters"
  then have "t - masters < workers" "masters + (t - masters) = t" using assms(1,2) by (auto simp: mw_linv_def)
  then show False using assms(1,3) unfolding mw_linv_def by (metis insert_iff mw_label.distinct option.distinct(1) option.inject singletonD)
qed

lemma master_room:
  assumes inv: "mw_linv items mx masters workers s ls" and t: "t < masters" "t < length ls" "ls ! t \<noteq> Some MFull"
  shows "full ls \<le> int masters - 1"
proof -
  have "full (ls[t := Some MFull]) \<le> int masters"
    using linv_full [OF inv] t by (intro full_le) (auto simp: nth_list_update)
  then show ?thesis using t by (simp add: full_update)
qed

text \<open>A master's label is changed.\<close>

lemma linv_master:
  assumes inv: "mw_linv items mx masters workers s ls" and t: "t < masters"
    and ok: "buf_ok mx s'" and item: "item_to_produce s \<le> item_to_produce s'"
    and x: "x \<in> {None, Some MTop, Some MFull}" "x = None \<Longrightarrow> items \<le> item_to_produce s'"
    and w: "masters \<le> 1 \<Longrightarrow> items \<le> item_to_produce s \<Longrightarrow> curr_buf_size s = 0 \<Longrightarrow> curr_buf_size s' = 0"
    and low: "items \<le> 0 \<Longrightarrow> item_to_produce s' = 0 \<and> full (ls[t := x]) = 0"
    and high: "0 < items \<Longrightarrow> item_to_produce s' + full (ls[t := x]) \<le> items + int masters - 1"
  shows "mw_linv items mx masters workers s' (ls[t := x])"
proof -
  have m: "(ls[t := x]) ! u \<in> {None, Some MTop, Some MFull} \<and>
      ((ls[t := x]) ! u = None \<longrightarrow> items \<le> item_to_produce s')" if "u < masters" for u
  proof (cases "u = t")
    case True
    then show ?thesis using x inv t by (auto simp: mw_linv_def)
  next
    case False
    then show ?thesis using inv that item unfolding mw_linv_def by fastforce
  qed
  have k: "(ls[t := x]) ! (masters + u) \<in> {None, Some WTop, Some WEmpty} \<and>
      ((ls[t := x]) ! (masters + u) = None \<longrightarrow> items \<le> item_to_produce s' \<and> (masters \<le> 1 \<longrightarrow> curr_buf_size s' = 0))"
    if "u < workers" for u
  proof -
    have "ls ! (masters + u) \<in> {None, Some WTop, Some WEmpty}"
      "ls ! (masters + u) = None \<longrightarrow> items \<le> item_to_produce s \<and> (masters \<le> 1 \<longrightarrow> curr_buf_size s = 0)"
      using inv that by (simp_all add: mw_linv_def)
    moreover have "(ls[t := x]) ! (masters + u) = ls ! (masters + u)" using t by simp
    ultimately show ?thesis using item w by auto
  qed
  have "length (ls[t := x]) = masters + workers" using inv by (simp add: mw_linv_def)
  then show ?thesis using ok low high m k unfolding mw_linv_def by blast
qed

text \<open>A worker's label is changed.\<close>

lemma linv_worker:
  assumes inv: "mw_linv items mx masters workers s ls" and t: "masters \<le> t" "t < length ls"
    and ok: "buf_ok mx s'" and item: "item_to_produce s' = item_to_produce s"
    and x: "x \<in> {None, Some WTop, Some WEmpty}"
      "x = None \<Longrightarrow> items \<le> item_to_produce s \<and> curr_buf_size s' = 0"
    and w: "curr_buf_size s = 0 \<Longrightarrow> curr_buf_size s' = 0"
  shows "mw_linv items mx masters workers s' (ls[t := x])"
proof -
  have nf: "ls ! t \<noteq> Some MFull" using linv_full [OF inv t(2)] t(1) by auto
  then have f: "full (ls[t := x]) = full ls" using t x(1) by (auto simp: full_update)
  have m: "(ls[t := x]) ! u = ls ! u" if "u < masters" for u using that t by simp
  have k: "(ls[t := x]) ! (masters + u) \<in> {None, Some WTop, Some WEmpty} \<and>
      ((ls[t := x]) ! (masters + u) = None \<longrightarrow> items \<le> item_to_produce s' \<and> (masters \<le> 1 \<longrightarrow> curr_buf_size s' = 0))"
    if "u < workers" for u
  proof (cases "masters + u = t")
    case True
    then show ?thesis using x t item by auto
  next
    case False
    then show ?thesis using inv that item w unfolding mw_linv_def by fastforce
  qed
  show ?thesis using inv ok item f m k unfolding mw_linv_def by simp
qed

lemma master_full_linv:
  assumes inv: "mw_linv items mx masters workers s ls" and t: "t < masters" "t < length ls"
    and at: "ls ! t = Some MFull \<or> item_to_produce s < items"
    and step: "master_full mx t s = (s', es, q)"
  shows "mw_linv items mx masters workers s' (ls[t := label_of (after_leave q)])"
proof -
  have ok: "buf_ok mx s" using inv by (simp add: mw_linv_def)
  have pos: "0 < items"
  proof (rule ccontr)
    assume n: "\<not> 0 < items"
    then have "full ls = 0" "item_to_produce s = 0" using inv by (simp_all add: mw_linv_def)
    then show False using at n full_nonneg(2) [OF t(2)] by auto
  qed
  then have high: "item_to_produce s + full ls \<le> items + int masters - 1" using inv by (simp add: mw_linv_def)
  have sum: "item_to_produce s + full ls - (if ls ! t = Some MFull then 1 else 0) + 1 \<le> items + int masters - 1"
    using at high master_room [OF inv t] by auto
  show ?thesis
  proof (cases "curr_buf_size s \<ge> mx")
    case True
    then have s': "s' = s" "q = Wait NotFull MFull" using step by (simp_all add: master_full_def)
    show ?thesis
      unfolding s' by (rule linv_master [OF inv t(1) ok]) (use pos sum t in \<open>auto simp: full_update\<close>)
  next
    case False
    then have p: "produce t s = (s', es, q)" using step by (simp add: master_full_def)
    then have q: "q = Unlock MTop" by (simp add: produce_def Let_def)
    have pr: "buf_ok mx s'" "item_to_produce s' = item_to_produce s + 1"
      using produce_ok [OF ok, of t] False p by simp_all
    have no: "items \<le> item_to_produce s \<Longrightarrow> \<not> masters \<le> 1"
      using at high full_nonneg(2) [OF t(2)] t(1) by auto
    show ?thesis
      unfolding q by (rule linv_master [OF inv t(1) pr(1)])
        (use pos sum t pr(2) no in \<open>auto simp: full_update\<close>)
  qed
qed

lemma worker_empty_linv:
  assumes inv: "mw_linv items mx masters workers s ls" and t: "masters \<le> t" "t < length ls"
    and step: "worker_empty items t s = (s', es, q)"
  shows "mw_linv items mx masters workers s' (ls[t := label_of (after_leave q)])"
proof -
  have ok: "buf_ok mx s" using inv by (simp add: mw_linv_def)
  show ?thesis
  proof (cases "curr_buf_size s = 0 \<and> item_to_produce s < items")
    case True
    then have "s' = s" "q = Wait NotEmpty WEmpty" using step by (simp_all add: worker_empty_def)
    then show ?thesis using linv_worker [OF inv t ok refl, of "Some WEmpty"] by simp
  next
    case False
    then have c: "consume t s = (s', es, q)" using step by (simp only: worker_empty_def if_False)
    then have "q = Unlock WTop" by (auto simp: consume_def Let_def split: if_splits)
    moreover have "buf_ok mx s'" "item_to_produce s' = item_to_produce s"
      "curr_buf_size s = 0 \<longrightarrow> curr_buf_size s' = 0" using consume_ok [OF ok, of t] c by simp_all
    ultimately show ?thesis using linv_worker [OF inv t, of s' "Some WTop"] by simp
  qed
qed

text \<open>The label tells a master from a worker.\<close>

lemma linv_who:
  assumes inv: "mw_linv items mx masters workers s ls" and t: "t < length ls" "ls ! t = Some l"
  shows "if l = MTop \<or> l = MFull then t < masters else masters \<le> t"
proof (cases "t < masters")
  case True
  then have "ls ! t \<in> {None, Some MTop, Some MFull}" using inv by (simp add: mw_linv_def)
  then show ?thesis using t(2) True by auto
next
  case False
  then have "t - masters < workers" "masters + (t - masters) = t" using inv t(1) by (auto simp: mw_linv_def)
  then have "ls ! t \<in> {None, Some WTop, Some WEmpty}" using inv unfolding mw_linv_def by metis
  then show ?thesis using t(2) False by auto
qed

lemma mw_code_linv:
  assumes t: "t < length ls" "ls ! t = Some l" and inv: "mw_linv items mx masters workers s ls"
    and step: "mw_code items mx t l s = (s', es, q)"
  shows "mw_linv items mx masters workers s' (ls[t := label_of (after_leave q)])"
proof -
  have ok: "buf_ok mx s" using inv by (simp add: mw_linv_def)
  have who: "if l = MTop \<or> l = MFull then t < masters else masters \<le> t" using linv_who [OF inv t] .
  show ?thesis
  proof (cases l)
    case MTop
    show ?thesis
    proof (cases "item_to_produce s \<ge> items")
      case True
      then have s': "s' = s" "q = Return" using step MTop by simp_all
      have "t < masters" using who MTop by simp
      then show ?thesis
        unfolding s' by (rule linv_master [OF inv _ ok])
          (use True inv t MTop in \<open>auto simp: full_update mw_linv_def\<close>)
    next
      case False
      then show ?thesis using who MTop step t by (intro master_full_linv [OF inv]) auto
    qed
  next
    case MFull
    then show ?thesis using who step t by (intro master_full_linv [OF inv]) auto
  next
    case WTop
    show ?thesis
    proof (cases "curr_buf_size s = 0 \<and> item_to_produce s \<ge> items")
      case True
      then have "s' = s" "q = Return" using step WTop by simp_all
      then show ?thesis using linv_worker [OF inv _ t(1) ok] who WTop True by simp
    next
      case False
      then show ?thesis using who WTop step t by (intro worker_empty_linv [OF inv]) (auto split: if_splits)
    qed
  next
    case WEmpty
    then show ?thesis using who step t by (intro worker_empty_linv [OF inv]) auto
  qed
qed

interpretation mw: labelled_monitor "mw_code items mx" "mw_linv items mx masters workers"
  for items mx masters workers
  by unfold_locales (rule mw_code_linv)

lemma mw_init_linv: "mw_linv items mx masters workers (shared (mw_init mx masters workers)) (map label_of (threads (mw_init mx masters workers)))"
proof -
  let ?ls = "map label_of (threads (mw_init mx masters workers))"
  have nth: "?ls ! t = Some (if t < masters then MTop else WTop)" if "t < masters + workers" for t
    using that by (simp add: mw_init_def mon_init_def)
  have "Some MFull \<notin> set ?ls" by (auto simp: mw_init_def mon_init_def split: if_splits)
  then have "full ?ls = 0" by (simp add: full_def count_list_0_iff)
  moreover have "buf_ok mx (buf_init mx)" by (simp add: buf_ok_def buf_init_def)
  moreover have "length ?ls = masters + workers" by (simp add: mw_init_def mon_init_def)
  moreover have "masters = 0 \<or> 1 \<le> masters" by linarith
  ultimately show ?thesis
    unfolding mw_linv_def using nth by (auto simp: mw_init_def mon_init_def buf_init_def)
qed

lemma mw_run_inv:
  assumes "mw_run items mx masters workers sched = Some st"
  shows "mutex_ok st \<and> mw_linv items mx masters workers (shared st) (map label_of (threads st))"
proof -
  have "mutex_ok (mw_init mx masters workers)" by (simp add: mw_init_def mon_init_mutex_ok)
  from mw.exec_inv [OF conjI [OF this mw_init_linv] assms [unfolded mw_run_def]] show ?thesis .
qed

text \<open>What it means that all threads have returned: nothing more will be produced, and with one master nothing is left.\<close>

lemma mw_all_done:
  assumes run: "mw_run items mx masters workers sched = Some st" and all: "\<forall>p\<in>set (threads st). p = Done"
  shows "0 < masters \<Longrightarrow> items \<le> item_to_produce (shared st)"
    "masters \<le> 1 \<Longrightarrow> 0 < workers \<Longrightarrow> curr_buf_size (shared st) = 0"
proof -
  let ?ls = "map label_of (threads st)"
  have inv: "mw_linv items mx masters workers (shared st) ?ls" using mw_run_inv [OF run] by simp
  have d: "?ls ! t = None" if "t < masters + workers" for t
  proof -
    have t: "t < length (threads st)" using that inv by (simp add: mw_linv_def)
    then have "threads st ! t = Done" using all nth_mem by blast
    then show ?thesis using t by simp
  qed
  show "0 < masters \<Longrightarrow> items \<le> item_to_produce (shared st)"
    using d [of 0] inv unfolding mw_linv_def by auto
  show "masters \<le> 1 \<Longrightarrow> 0 < workers \<Longrightarrow> curr_buf_size (shared st) = 0"
    using d [of "masters + 0"] inv unfolding mw_linv_def by (metis add_strict_left_mono)
qed

section \<open>Properties\<close>

text \<open>
  C2: Under every schedule, with any numbers of masters and workers: at most one thread is
  inside the mutex, the buffer is never used outside its cells, the numbers are produced in
  order, each once, and every number produced was consumed exactly once or is still in the
  buffer.
\<close>

theorem mw_conserves_items:
  assumes "mw_run items mx masters workers sched = Some st"
  shows "mutex_ok st \<and> \<not> overrun (shared st) \<and>
     map fst (produced (shared st)) = [0..item_to_produce (shared st) - 1] \<and>
     mset (map fst (produced (shared st))) =
       mset (map fst (consumed (shared st))) + mset (take (nat (curr_buf_size (shared st))) (buffer (shared st)))"
  using mw_run_inv [OF assms] by (auto simp: mw_linv_def buf_ok_def)

text \<open>
  The masters never produce more than one extra item per further master: with \<open>M\<close> masters at
  most \<open>items + M - 1\<close> numbers, so with one master exactly the requested ones.
\<close>

theorem mw_item_bound:
  assumes "mw_run items mx masters workers sched = Some st" and "0 < items"
  shows "item_to_produce (shared st) \<le> items + int masters - 1"
  using mw_run_inv [OF assms(1)] assms(2) full_nonneg(1) [of "map label_of (threads st)"]
  by (auto simp: mw_linv_def)

text \<open>
  With one master, when all threads have returned, the requested numbers were consumed, each
  exactly once, and nothing is left in the buffer.
\<close>

theorem mw_single_master_exact:
  assumes "mw_run items mx 1 workers sched = Some st" and "0 < items" and "0 < workers"
    and "\<forall>p\<in>set (threads st). p = Done"
  shows "mset (map fst (consumed (shared st))) = mset [0..items - 1] \<and> curr_buf_size (shared st) = 0"
proof -
  note inv = mw_run_inv [OF assms(1)]
  have "items \<le> item_to_produce (shared st)" "curr_buf_size (shared st) = 0"
    using mw_all_done [OF assms(1,4)] assms(3) by simp_all
  moreover have "item_to_produce (shared st) \<le> items"
    using inv assms(2) full_nonneg(1) [of "map label_of (threads st)"] by (auto simp: mw_linv_def)
  ultimately show ?thesis using inv by (simp add: mw_linv_def buf_ok_def)
qed

text \<open>
  With two masters the program can produce one number more than requested, and leave it in
  the buffer with all threads returned: a master that waited for room does not look at
  \<open>total_items\<close> again.
\<close>

theorem mw_two_masters_overproduce:
  "\<exists>sched st. mw_run 2 1 2 1 sched = Some st \<and> threads st = [Done, Done, Done] \<and>
     item_to_produce (shared st) = 3 \<and> curr_buf_size (shared st) = 1"
proof -
  let ?sched = "[Lock 0, Segment 0 [], Lock 1, Segment 1 [], Lock 0, Segment 0 [],
      Lock 2, Segment 2 [0], Lock 0, Segment 0 [], Lock 2, Segment 2 [1],
      Lock 2, Segment 2 [], Lock 0, Segment 0 [], Lock 1, Segment 1 [], Lock 1, Segment 1 []]"
  have "mw_run 2 1 2 1 ?sched = Some \<lparr>shared = \<lparr>item_to_produce = 3, curr_buf_size = 1, buffer = [2],
      produced = [(0, 0), (1, 0), (2, 1)], consumed = [(0, 2), (1, 2)], overrun = False\<rparr>,
      threads = [Done, Done, Done], owner = None\<rparr>"
    by code_simp
  then show ?thesis by (intro exI conjI, assumption) simp_all
qed

text \<open>
  Even with one master, a worker can sleep forever: when the last number has been consumed
  nobody signals \<open>not_empty\<close> any more, so a second worker that waits on it never returns and the
  final \<open>pthread_join\<close> never ends.
\<close>

theorem mw_worker_sleeps_forever:
  "\<exists>sched st. mw_run 1 1 1 2 sched = Some st \<and> stuck (mw_code 1 1) st \<and>
     threads st ! 2 = Asleep NotEmpty WEmpty \<and> item_to_produce (shared st) = 1"
proof -
  let ?sched = "[Lock 1, Segment 1 [], Lock 2, Segment 2 [], Lock 0, Segment 0 [1], Lock 0, Segment 0 [],
      Lock 1, Segment 1 [], Lock 1, Segment 1 []]"
  let ?st = "\<lparr>shared = \<lparr>item_to_produce = 1, curr_buf_size = 0, buffer = [0],
      produced = [(0, 0)], consumed = [(0, 1)], overrun = False\<rparr>,
      threads = [Done, Done, Asleep NotEmpty WEmpty], owner = None\<rparr>"
  have r: "mw_run 1 1 1 2 ?sched = Some ?st" by code_simp
  with mw_run_inv [OF r] have "stuck (mw_code 1 1) ?st" by (simp add: stuck_iff)
  with r show ?thesis by (intro exI [of _ ?sched] exI [of _ ?st]) simp
qed

section \<open>Witnesses\<close>

lemma demo_run: "mw_run 1 1 1 1 [Lock 0, Segment 0 [], Lock 0, Segment 0 [], Lock 1, Segment 1 [], Lock 1, Segment 1 []] =
  Some \<lparr>shared = \<lparr>item_to_produce = 1, curr_buf_size = 0, buffer = [0], produced = [(0, 0)], consumed = [(0, 1)],
     overrun = False\<rparr>, threads = [Done, Done], owner = None\<rparr>"
  by code_simp

theorem mw_conserves_items_witness:
  "\<exists>sched st. mw_run 1 1 1 1 sched = Some st \<and> threads st = [Done, Done] \<and>
     mset (map fst (produced (shared st))) = mset (map fst (consumed (shared st))) \<and> map fst (consumed (shared st)) = [0]"
  using mw_conserves_items [OF demo_run] by - (rule exI, rule exI, rule conjI, rule demo_run, simp)

theorem mw_item_bound_witness:
  "\<exists>sched st. mw_run 1 1 1 1 sched = Some st \<and> item_to_produce (shared st) = 1 \<and> item_to_produce (shared st) \<le> 1 + int 1 - 1"
  using mw_item_bound [OF demo_run] by - (rule exI, rule exI, rule conjI, rule demo_run, simp)

theorem mw_single_master_exact_witness:
  "\<exists>sched st. mw_run 1 1 1 1 sched = Some st \<and> mset (map fst (consumed (shared st))) = mset [0..1 - 1]"
  using mw_single_master_exact [OF demo_run] by - (rule exI, rule exI, rule conjI, rule demo_run, simp)

end
