(* ===== verification/MwCheck.thy ===== *)
theory MwCheck
  imports MasterWorker CString
begin

text \<open>
  The test of \<open>pthreads-sync-code/master-worker\<close>: \<open>test-master-worker.sh\<close> gives the output of \<open>master-worker\<close>
  to \<open>check.awk\<close>, which counts for each number below \<open>MAX\<close> (here \<open>max_nr\<close>), the number of requested items, how often it
  was produced and consumed. Both sides are modelled on the text between them.
\<close>

section \<open>The output\<close>

definition print_produced :: "int \<Rightarrow> nat \<Rightarrow> string" where
  "print_produced v master = ''Produced '' @ show_int v @ '' by master '' @ show_nat master @ [nl]"

definition print_consumed :: "int \<Rightarrow> nat \<Rightarrow> string" where
  "print_consumed v worker = ''Consumed '' @ show_int v @ '' by worker '' @ show_nat worker @ [nl]"

text \<open>The calls of a run, with the thread that makes them; workers are numbered from 0 after the masters.\<close>

datatype out_line = Produced int nat | Consumed int nat

fun print_line :: "nat \<Rightarrow> out_line \<Rightarrow> string" where
  "print_line masters (Produced v t) = print_produced v t"
| "print_line masters (Consumed v t) = print_consumed v (t - masters)"

definition output_of :: "buf \<Rightarrow> out_line multiset" where
  "output_of s = image_mset (\<lambda>(v, t). Produced v t) (mset (produced s)) +
     image_mset (\<lambda>(v, t). Consumed v t) (mset (consumed s))"

section \<open>The checker\<close>

text \<open>The records of a text, and the first two fields of a record, empty where there is none.\<close>

fun records :: "string \<Rightarrow> string list" where
  "records [] = []"
| "records (c # s) =
     (if c = nl then [] # records s
      else (case records s of [] \<Rightarrow> [[c]] | r # rs \<Rightarrow> (c # r) # rs))"

definition blank_char :: "char \<Rightarrow> bool" where
  "blank_char c \<longleftrightarrow> c = CHR '' '' \<or> c = CHR 0x09"

definition field1 :: "string \<Rightarrow> string" where
  "field1 r = takeWhile (\<lambda>c. \<not> blank_char c) (dropWhile blank_char r)"

definition field2 :: "string \<Rightarrow> string" where
  "field2 r = field1 (dropWhile (\<lambda>c. \<not> blank_char c) (dropWhile blank_char r))"

text \<open>
  \<open>$2 < MAX\<close>: a field that is a decimal numeral is compared as a number, any other here as a string. (awk
  also reads fractions as numbers; the counts of such fields are never looked at.)
\<close>

definition unsigned :: "string \<Rightarrow> string" where
  "unsigned w = (if w \<noteq> [] \<and> hd w \<in> {CHR ''-'', CHR ''+''} then tl w else w)"

definition is_numeral :: "string \<Rightarrow> bool" where
  "is_numeral w \<longleftrightarrow> unsigned w \<noteq> [] \<and> list_all c_isdigit (unsigned w)"

definition numeral_value :: "string \<Rightarrow> int" where
  "numeral_value w = (if w \<noteq> [] \<and> hd w = CHR ''-'' then - digits_val (unsigned w) else digits_val (unsigned w))"

fun str_less :: "string \<Rightarrow> string \<Rightarrow> bool" where
  "str_less s [] = False"
| "str_less [] (d # t) = True"
| "str_less (c # s) (d # t) = (of_char c < (of_char d :: nat) \<or> c = d \<and> str_less s t)"

definition awk_less :: "string \<Rightarrow> int \<Rightarrow> bool" where
  "awk_less w m =
     (if is_numeral w then numeral_value w < m
      else str_less w (show_int m))"

text \<open>The arrays are indexed by strings; an element that was never set counts as 0.\<close>

record counts =
  prod :: "string \<Rightarrow> nat"
  cons :: "string \<Rightarrow> nat"

definition check_begin :: counts where
  "check_begin = \<lparr>prod = (\<lambda>i. 0), cons = (\<lambda>i. 0)\<rparr>"

definition check_line :: "int \<Rightarrow> string \<Rightarrow> counts \<Rightarrow> counts" where
  "check_line max_nr r c =
     (let k = field2 r in
      if field1 r = ''Produced'' \<and> awk_less k max_nr then c\<lparr>prod := (prod c)(k := prod c k + 1)\<rparr>
      else if field1 r = ''Consumed'' \<and> awk_less k max_nr then c\<lparr>cons := (cons c)(k := cons c k + 1)\<rparr>
      else c)"

text \<open>The loop of the \<open>END\<close> block, with the number of rounds left.\<close>

fun count_loop :: "int \<Rightarrow> nat \<Rightarrow> counts \<Rightarrow> int \<Rightarrow> int" where
  "count_loop i 0 c n = n"
| "count_loop i (Suc k) c n =
     count_loop (i + 1) k c (if prod c (show_int i) = 1 \<and> cons c (show_int i) = 1 then n + 1 else n)"

definition check_message :: "int \<Rightarrow> int \<Rightarrow> string" where
  "check_message max_nr n =
     (if n = max_nr then ''OK. All test cases passed!'' @ [nl]
      else ''Please check your code. '' @ show_int (max_nr - n) @ ''/'' @ show_int max_nr @ '' test cases failed!'' @ [nl])"

definition check_end :: "int \<Rightarrow> counts \<Rightarrow> string" where
  "check_end max_nr c = check_message max_nr (count_loop 0 (nat max_nr) c 0)"

definition check_awk :: "int \<Rightarrow> string \<Rightarrow> string" where
  "check_awk max_nr s = check_end max_nr (fold (check_line max_nr) (records s) check_begin)"

section \<open>Reading back what was printed\<close>

lemma show_int_value: "is_numeral (show_int v)" "numeral_value (show_int v) = v"
proof -
  have u: "unsigned (show_int v) = show_nat (nat \<bar>v\<bar>)"
  proof (cases "v < 0")
    case False
    obtain d ds where d: "show_nat (nat v) = d # ds" using show_nat [of "nat v"] by (cases "show_nat (nat v)") auto
    then have "c_isdigit d" using show_nat [of "nat v"] by simp
    from isdigit_not [OF this] show ?thesis using False d by (simp add: show_int_def unsigned_def)
  qed (simp add: show_int_def unsigned_def)
  show "is_numeral (show_int v)" using show_nat [of "nat \<bar>v\<bar>"] by (simp add: is_numeral_def u list_all_iff)
  have "show_int v \<noteq> [] \<and> hd (show_int v) = CHR ''-'' \<longleftrightarrow> v < 0"
    using show_nat [of "nat v"] isdigit_not(4) by (cases "show_nat (nat v)") (auto simp: show_int_def)
  then show "numeral_value (show_int v) = v"
    using show_nat [of "nat v"] show_nat [of "nat (- v)"] by (simp add: numeral_value_def u abs_if)
qed

lemma show_int_inj [simp]: "show_int v = show_int w \<longleftrightarrow> v = w"
  by (metis show_int_value(2))

lemma awk_less_int [simp]: "awk_less (show_int v) m \<longleftrightarrow> v < m"
  by (simp add: awk_less_def show_int_value)

lemma show_chars:
  "c \<in> set (show_int v) \<Longrightarrow> \<not> blank_char c \<and> c \<noteq> nl" "c \<in> set (show_nat n) \<Longrightarrow> c \<noteq> nl"
  using show_int_chars [of c v] show_nat [of n] by (auto simp: c_isdigit_def blank_char_def)

lemma records_line: "nl \<notin> set r \<Longrightarrow> records (r @ nl # s) = r # records s"
  by (induction r) auto

lemma field1_word: "\<forall>c\<in>set w. \<not> blank_char c \<Longrightarrow> w \<noteq> [] \<Longrightarrow> field1 (w @ CHR '' '' # r) = w"
  by (cases w) (simp_all add: field1_def takeWhile_append blank_char_def)

lemma field1_blank: "field1 (CHR '' '' # r) = field1 r"
  by (simp add: field1_def blank_char_def)

text \<open>A record of the output, and its fields.\<close>

definition line_text :: "nat \<Rightarrow> out_line \<Rightarrow> string" where
  "line_text masters l = butlast (print_line masters l)"

lemma print_line_text: "print_line masters l = line_text masters l @ [nl]" "nl \<notin> set (line_text masters l)"
  using show_chars
  by (cases l; force simp: line_text_def print_produced_def print_consumed_def butlast_append)+

lemma records_output: "records (concat (map (print_line masters) ls)) = map (line_text masters) ls"
  by (induction ls) (simp_all add: print_line_text records_line)

lemma two_fields:
  assumes "\<forall>c\<in>set w. \<not> blank_char c" and "w \<noteq> []"
  shows "field1 (w @ CHR '' '' # show_int v @ CHR '' '' # r) = w"
    and "field2 (w @ CHR '' '' # show_int v @ CHR '' '' # r) = show_int v"
proof -
  show "field1 (w @ CHR '' '' # show_int v @ CHR '' '' # r) = w" using assms by (rule field1_word)
  have "dropWhile blank_char (w @ x) = w @ x" for x using assms by (cases w) auto
  moreover have "dropWhile (\<lambda>c. \<not> blank_char c) (w @ CHR '' '' # x) = CHR '' '' # x" for x
    using assms by (simp add: dropWhile_append blank_char_def)
  moreover have "show_int v \<noteq> []" using show_nat by (simp add: show_int_def)
  ultimately show "field2 (w @ CHR '' '' # show_int v @ CHR '' '' # r) = show_int v"
    using show_chars(1) by (simp add: field2_def field1_blank field1_word)
qed

lemma line_fields:
  "field1 (line_text masters (Produced v t)) = ''Produced''" "field2 (line_text masters (Produced v t)) = show_int v"
  "field1 (line_text masters (Consumed v t)) = ''Consumed''" "field2 (line_text masters (Consumed v t)) = show_int v"
  using two_fields [of "''Produced''" v "''by master '' @ show_nat t"]
    two_fields [of "''Consumed''" v "''by worker '' @ show_nat (t - masters)"]
  by (simp_all add: line_text_def print_produced_def print_consumed_def blank_char_def butlast_append)

section \<open>What it counts\<close>

fun produced_value :: "out_line \<Rightarrow> int option" where
  "produced_value (Produced v t) = Some v"
| "produced_value (Consumed v t) = None"

fun consumed_value :: "out_line \<Rightarrow> int option" where
  "consumed_value (Produced v t) = None"
| "consumed_value (Consumed v t) = Some v"

lemma check_line_out:
  "check_line max_nr (line_text masters (Produced v t)) c =
     (if v < max_nr then c\<lparr>prod := (prod c)(show_int v := prod c (show_int v) + 1)\<rparr> else c)"
  "check_line max_nr (line_text masters (Consumed v t)) c =
     (if v < max_nr then c\<lparr>cons := (cons c)(show_int v := cons c (show_int v) + 1)\<rparr> else c)"
  by (simp_all add: check_line_def line_fields Let_def)

lemma check_lines_count:
  assumes "i < max_nr"
  shows "prod (fold (check_line max_nr) (map (line_text masters) ls) c) (show_int i) =
      prod c (show_int i) + count (image_mset produced_value (mset ls)) (Some i)"
    "cons (fold (check_line max_nr) (map (line_text masters) ls) c) (show_int i) =
      cons c (show_int i) + count (image_mset consumed_value (mset ls)) (Some i)"
proof (induction ls arbitrary: c)
  case (Cons l ls)
  { case 1 show ?case using assms by (cases l) (auto simp: Cons.IH check_line_out) }
  { case 2 show ?case using assms by (cases l) (auto simp: Cons.IH check_line_out) }
qed simp_all

lemma card_filter_insert:
  assumes "finite B" and "i \<notin> B"
  shows "card {v \<in> insert i B. P v} = (if P i then 1 else 0) + card {v \<in> B. P v}"
proof -
  have "{v \<in> insert i B. P v} = (if P i then insert i {v \<in> B. P v} else {v \<in> B. P v})" by auto
  then show ?thesis using assms by simp
qed

lemma count_loop_card:
  "count_loop i k c n =
     n + int (card {v \<in> {i..<i + int k}. prod c (show_int v) = 1 \<and> cons c (show_int v) = 1})"
proof (induction k arbitrary: i n)
  case (Suc k)
  have "{i..<i + int (Suc k)} = insert i {i + 1..<i + 1 + int k}" by auto
  moreover have "i \<notin> {i + 1..<i + 1 + int k}" by simp
  ultimately show ?case unfolding count_loop.simps Suc
    using card_filter_insert [of "{i + 1..<i + 1 + int k}" i "\<lambda>v. prod c (show_int v) = 1 \<and> cons c (show_int v) = 1"]
    by (simp only: finite_atLeastLessThan_int split: if_splits) simp
qed simp

lemma check_awk_card:
  assumes "0 \<le> max_nr"
  shows "check_awk max_nr (concat (map (print_line masters) ls)) =
    check_message max_nr (int (card {i \<in> {0..<max_nr}. count (image_mset produced_value (mset ls)) (Some i) = 1 \<and>
       count (image_mset consumed_value (mset ls)) (Some i) = 1}))"
proof -
  let ?c = "fold (check_line max_nr) (map (line_text masters) ls) check_begin"
  have "{v \<in> {0..<max_nr}. prod ?c (show_int v) = 1 \<and> cons ?c (show_int v) = 1} =
      {i \<in> {0..<max_nr}. count (image_mset produced_value (mset ls)) (Some i) = 1 \<and>
         count (image_mset consumed_value (mset ls)) (Some i) = 1}"
    by (rule Collect_cong) (use check_lines_count in \<open>auto simp: check_begin_def\<close>)
  then show ?thesis using assms by (simp add: check_awk_def check_end_def records_output count_loop_card)
qed

lemma output_values:
  "image_mset produced_value (output_of s) =
     image_mset Some (mset (map fst (produced s))) + replicate_mset (length (consumed s)) None"
  "image_mset consumed_value (output_of s) =
     image_mset Some (mset (map fst (consumed s))) + replicate_mset (length (produced s)) None"
proof -
  have p: "image_mset produced_value (image_mset (\<lambda>(v, t). Consumed v t) (mset xs)) = replicate_mset (length xs) None"
    "image_mset consumed_value (image_mset (\<lambda>(v, t). Produced v t) (mset xs)) = replicate_mset (length xs) None" for xs
    by (induction xs) auto
  have q: "image_mset produced_value (image_mset (\<lambda>(v, t). Produced v t) (mset xs)) = image_mset Some (mset (map fst xs))"
    "image_mset consumed_value (image_mset (\<lambda>(v, t). Consumed v t) (mset xs)) = image_mset Some (mset (map fst xs))" for xs
    by (induction xs) auto
  show "image_mset produced_value (output_of s) =
     image_mset Some (mset (map fst (produced s))) + replicate_mset (length (consumed s)) None"
    "image_mset consumed_value (output_of s) =
     image_mset Some (mset (map fst (consumed s))) + replicate_mset (length (produced s)) None"
    by (simp_all add: output_of_def p q add.commute del: mset_map)
qed

lemma count_image_Some: "count (image_mset Some M) (Some i) = count M i"
  by (induction M) auto

section \<open>Properties\<close>

lemma one_of_two:
  assumes "finite A" and "\<And>i. i \<in> A \<Longrightarrow> f i + count (mset xs) i = (1::nat)" and "\<And>x. x \<in> set xs \<Longrightarrow> P x \<longleftrightarrow> x \<in> A"
  shows "card {i \<in> A. f i = 1} + length (filter P xs) = card A"
proof -
  let ?ys = "filter P xs"
  have sub: "set ?ys \<subseteq> A" using assms(3) by auto
  have "count (mset ?ys) a = 1" if a: "a \<in> set ?ys" for a
  proof -
    have "0 < count (mset xs) a" using a by simp
    moreover have "count (mset xs) a \<le> 1" using assms(2) [of a] sub a by fastforce
    ultimately show ?thesis using a by (auto intro: le_antisym)
  qed
  then have "distinct ?ys" unfolding distinct_count_atmost_1 by (metis count_mset_0_iff)
  then have "length ?ys = card (set ?ys)" using distinct_card by metis
  moreover have "f i = 1 \<longleftrightarrow> i \<notin> set xs" if "i \<in> A" for i
    using assms(2) [OF that] count_mset_0_iff [of xs i] by linarith
  then have "{i \<in> A. f i = 1} = A - set ?ys" using assms(3) by auto
  ultimately show ?thesis using assms(1) sub by (simp add: card_Diff_subset card_mono)
qed

text \<open>
  C13: The whole test: of a run that ends, whatever the schedule and the order of the lines in its output, the checker
  reports exactly how many of the requested numbers were left in the buffer, and that all passed when there are none, as
  always with one master. It does not see numbers beyond the requested ones, which several masters can leave there.
\<close>

theorem checker_passes_consumed_runs:
  assumes "mw_run items mx masters workers sched = Some st" and "mw_joined st"
    and "0 < items" and "0 < masters" and "mset ls = output_of (shared st)"
  shows "let left = filter (\<lambda>v. v < items) (take (nat (curr_buf_size (shared st))) (buffer (shared st)));
             answer = check_awk items (concat (map (print_line masters) ls))
         in answer = (if left = [] then ''OK. All test cases passed!'' @ [nl]
              else ''Please check your code. '' @ show_int (int (length left)) @ ''/'' @ show_int items @
                '' test cases failed!'' @ [nl]) \<and>
            (masters = 1 \<and> 0 < workers \<longrightarrow> left = [])"
proof -
  let ?s = "shared st"
  let ?rest = "take (nat (curr_buf_size ?s)) (buffer ?s)"
  let ?left = "filter (\<lambda>v. v < items) ?rest"
  note fin = mw_all_done [OF assms(1) assms(2) [unfolded mw_joined_def]]
  have k: "items \<le> item_to_produce ?s" using fin(1) assms(4) by simp
  have ok: "buf_ok mx ?s" using mw_run_inv [OF assms(1)] by (simp add: mw_linv_def)
  have one: "count (mset (map fst (produced ?s))) i = 1" if "i \<in> {0..<items}" for i
  proof -
    have p: "map fst (produced ?s) = [0..item_to_produce ?s - 1]" using ok by (simp add: buf_ok_def)
    have "i \<in> set [0..item_to_produce ?s - 1]" using that k by simp
    then show ?thesis unfolding p using distinct_upto [of 0 "item_to_produce ?s - 1"] by (simp add: distinct_count_atmost_1)
  qed
  have sum: "count (mset (map fst (produced ?s))) i = count (mset (map fst (consumed ?s))) i + count (mset ?rest) i" for i
    using ok by (simp add: buf_ok_def del: mset_map)
  have nonneg: "0 \<le> v" if "v \<in> set ?rest" for v
  proof -
    have "mset ?rest \<subseteq># mset [0..item_to_produce ?s - 1]" using ok by (simp add: buf_ok_def)
    from mset_subset_eqD [OF this, of v] have "v \<in> set [0..item_to_produce ?s - 1]" using that by simp
    then show ?thesis by simp
  qed
  let ?consumed = "{i \<in> {0..<items}. count (mset (map fst (consumed ?s))) i = 1}"
  have "card ?consumed + length ?left = card {0..<items}"
    using one sum nonneg by (intro one_of_two) (simp_all add: del: mset_map)
  then have "int (card ?consumed) = items - int (length ?left)" using assms(3) by simp
  moreover have "{i \<in> {0..<items}. count (mset (map fst (produced ?s))) i = 1 \<and> count (mset (map fst (consumed ?s))) i = 1} = ?consumed"
    using one by blast
  ultimately have "check_awk items (concat (map (print_line masters) ls)) = check_message items (items - int (length ?left))"
    using check_awk_card [of items masters ls] assms(3) by (simp add: assms(5) output_values count_image_Some del: mset_map)
  then have "check_awk items (concat (map (print_line masters) ls)) =
      (if ?left = [] then ''OK. All test cases passed!'' @ [nl]
       else ''Please check your code. '' @ show_int (int (length ?left)) @ ''/'' @ show_int items @ '' test cases failed!'' @ [nl])"
    unfolding check_message_def by (cases "?left = []") simp_all
  moreover have "?left = []" if "masters = 1 \<and> 0 < workers" using fin(2) that by simp
  ultimately show ?thesis unfolding Let_def by blast
qed

theorem checker_passes_consumed_runs_witness:
  "check_awk 1 (print_produced 0 0 @ print_consumed 0 0) = ''OK. All test cases passed!'' @ [nl]"
proof -
  have "mw_joined \<lparr>shared = \<lparr>item_to_produce = 1, curr_buf_size = 0, buffer = [0], produced = [(0, 0)], consumed = [(0, 1)],
     overrun = False\<rparr>, threads = [Done, Done], owner = None\<rparr>" by (simp add: mw_joined_def)
  from checker_passes_consumed_runs [OF demo_run this, of "[Produced 0 0, Consumed 0 1]"]
  show ?thesis by (simp add: output_of_def Let_def)
qed

end
