(* ===== verification/MwLiveness.thy ===== *)
theory MwLiveness
  imports MasterWorker
begin

text \<open>
  Progress of \<open>pthreads-sync-code/master-worker/master-worker.c\<close>: no wakeup that matters is lost, so the program never
  comes to a standstill before all requested numbers are produced and consumed, and without spurious
  wakeups every run is bounded.
\<close>

section \<open>The ends of a segment\<close>

lemma mw_segment_cases:
  assumes step: "mw_code items mx t l s = (s', es, q)" and pos: "0 \<le> curr_buf_size s"
  obtains (quit) "l = MTop \<or> l = WTop \<and> curr_buf_size s = 0" "items \<le> item_to_produce s" "s' = s" "es = []" "q = Return"
  | (sleep_full) "l = MTop \<or> l = MFull" "mx \<le> curr_buf_size s" "s' = s" "es = []" "q = Wait NotFull MFull"
  | (produced) "l = MTop \<or> l = MFull" "curr_buf_size s < mx" "(s', es, q) = produce t s"
  | (sleep_empty) "l = WTop \<or> l = WEmpty" "curr_buf_size s = 0" "s' = s" "es = []" "q = Wait NotEmpty WEmpty"
  | (consumed) "l = WTop \<or> l = WEmpty" "0 < curr_buf_size s" "(s', es, q) = consume t s"
  | (idle) "l = WEmpty" "curr_buf_size s = 0" "s' = s" "es = []" "q = Unlock WTop"
proof -
  consider (top) "l = MTop \<or> l = WTop \<and> curr_buf_size s = 0" "items \<le> item_to_produce s"
    | (master) "l = MTop \<or> l = MFull" "master_full mx t s = (s', es, q)"
    | (worker) "l = WTop \<or> l = WEmpty" "worker_empty items t s = (s', es, q)" "l = WTop \<longrightarrow> curr_buf_size s \<noteq> 0 \<or> item_to_produce s < items"
    using step by (cases l) (auto split: if_splits)
  then show ?thesis
  proof cases
    case top
    show ?thesis by (rule quit) (use top step in auto)
  next
    case master
    show ?thesis
    proof (cases "mx \<le> curr_buf_size s")
      case True
      show ?thesis by (rule sleep_full) (use master True in \<open>auto simp: master_full_def\<close>)
    next
      case False
      show ?thesis by (rule produced) (use master False in \<open>auto simp: master_full_def\<close>)
    qed
  next
    case worker
    consider "0 < curr_buf_size s" | "curr_buf_size s = 0" "item_to_produce s < items" | "curr_buf_size s = 0" "items \<le> item_to_produce s"
      using pos by linarith
    then show ?thesis
    proof cases
      case 1
      show ?thesis by (rule consumed) (use worker 1 in \<open>auto simp: worker_empty_def\<close>)
    next
      case 2
      show ?thesis by (rule sleep_empty) (use worker 2 in \<open>auto simp: worker_empty_def\<close>)
    next
      case 3
      show ?thesis by (rule idle) (use worker 3 in \<open>auto simp: worker_empty_def consume_def\<close>)
    qed
  qed
qed

section \<open>No lost wakeup\<close>

text \<open>Masters that were woken in the inner loop and have not acted yet; workers that do not sleep.\<close>

fun woken_master :: "(mw_cond, mw_label) thread \<Rightarrow> bool" where
  "woken_master (Enter l) = (l = MFull)"
| "woken_master (Inside l) = (l = MFull)"
| "woken_master p = False"

fun awake_worker :: "(mw_cond, mw_label) thread \<Rightarrow> bool" where
  "awake_worker (Enter l) = (l = WTop \<or> l = WEmpty)"
| "awake_worker (Inside l) = (l = WTop \<or> l = WEmpty)"
| "awake_worker p = False"

fun sleep_ok :: "(mw_cond, mw_label) thread \<Rightarrow> bool" where
  "sleep_ok (Asleep c l) = (l = (case c of NotFull \<Rightarrow> MFull | NotEmpty \<Rightarrow> WEmpty))"
| "sleep_ok p = True"

text \<open>
  If a worker sleeps there are at least as many awake workers as numbers in the buffer; if a master sleeps there are at
  least as many woken masters as free cells. Once a worker has returned all that the buffer holds is beyond
  the requested numbers.
\<close>

definition live_inv :: "int \<Rightarrow> int \<Rightarrow> nat \<Rightarrow> buf \<Rightarrow> (mw_cond, mw_label) thread list \<Rightarrow> bool" where
  "live_inv items mx masters s ps \<longleftrightarrow> buf_ok mx s \<and> (\<forall>p\<in>set ps. sleep_ok p) \<and>
     (0 < sleepers NotEmpty ps \<longrightarrow> curr_buf_size s \<le> int (num awake_worker ps)) \<and>
     (0 < sleepers NotFull ps \<longrightarrow> mx - curr_buf_size s \<le> int (num woken_master ps)) \<and>
     (\<forall>t. masters \<le> t \<and> t < length ps \<and> ps ! t = Done \<longrightarrow>
        items \<le> item_to_produce s \<and> (\<forall>v\<in>set (take (nat (curr_buf_size s)) (buffer s)). items \<le> v))"

text \<open>A signal to sleepers of \<open>c\<close> as far as the counts are concerned.\<close>

lemma signal_counts:
  assumes "wakeups [Signal c] ws ps = Some ps'" and ok: "\<forall>p\<in>set ps. sleep_ok p"
  shows "\<forall>p\<in>set ps'. sleep_ok p"
    "int (num awake_worker ps') = int (num awake_worker ps) + of_bool (c = NotEmpty \<and> 0 < sleepers c ps)"
    "int (num woken_master ps') = int (num woken_master ps) + of_bool (c = NotFull \<and> 0 < sleepers c ps)"
proof -
  have "(\<forall>p\<in>set ps'. sleep_ok p) \<and>
    int (num awake_worker ps') = int (num awake_worker ps) + of_bool (c = NotEmpty \<and> 0 < sleepers c ps) \<and>
    int (num woken_master ps') = int (num woken_master ps) + of_bool (c = NotFull \<and> 0 < sleepers c ps)"
    using assms(1)
  proof (cases rule: signal_one)
    case nobody
    then show ?thesis using ok by simp
  next
    case (one w)
    have pos: "0 < sleepers c ps" unfolding sleepers_pos list_ex_iff using one(1,2) nth_mem by blast
    obtain l where l: "ps ! w = Asleep c l" using one(2) by (cases "ps ! w") auto
    then have "sleep_ok (Asleep c l)" using ok one(1) nth_mem by metis
    then have "l = (case c of NotFull \<Rightarrow> MFull | NotEmpty \<Rightarrow> WEmpty)" by simp
    then have "sleep_ok (Enter l)" "awake_worker (Enter l) \<longleftrightarrow> c = NotEmpty" "woken_master (Enter l) \<longleftrightarrow> c = NotFull"
      by (cases c; simp)+
    then show ?thesis
      unfolding one(3) l wake.simps using ok pos l num_update [OF one(1), of _ "Enter l"] set_update_subset_insert [of ps w "Enter l"]
      by auto
  qed
  then show "\<forall>p\<in>set ps'. sleep_ok p"
    "int (num awake_worker ps') = int (num awake_worker ps) + of_bool (c = NotEmpty \<and> 0 < sleepers c ps)"
    "int (num woken_master ps') = int (num woken_master ps) + of_bool (c = NotFull \<and> 0 < sleepers c ps)" by blast+
qed

text \<open>Threads that have returned stay so, and no others appear by wakeups.\<close>

lemma wakeups_Done:
  assumes "wakeups es ws ps = Some ps'" "u < length ps"
  shows "ps' ! u = Done \<longleftrightarrow> ps ! u = Done"
  using wakeups_nth(2) [OF assms] by (cases "ps ! u") (auto elim: woken.cases)

text \<open>The invariant survives a segment if the counts do.\<close>

lemma live_invI:
  assumes "buf_ok mx s'" "\<forall>p\<in>set ps. sleep_ok p" "t < length ps" "sleep_ok p"
    and "0 < sleepers NotEmpty (ps[t := p]) \<Longrightarrow> curr_buf_size s' \<le> int (num awake_worker (ps[t := p]))"
    and "0 < sleepers NotFull (ps[t := p]) \<Longrightarrow> mx - curr_buf_size s' \<le> int (num woken_master (ps[t := p]))"
    and "\<And>u. masters \<le> u \<Longrightarrow> u < length ps \<Longrightarrow> ps[t := p] ! u = Done \<Longrightarrow>
        items \<le> item_to_produce s' \<and> (\<forall>v\<in>set (take (nat (curr_buf_size s')) (buffer s')). items \<le> v)"
  shows "live_inv items mx masters s' (ps[t := p])"
  using assms set_update_subset_insert [of ps t p] unfolding live_inv_def by auto

text \<open>It survives a change of one thread that does not put it to sleep and keeps it awake if it was.\<close>

lemma num_update_mono:
  assumes "t < length ps" "f (ps ! t) \<Longrightarrow> f p"
  shows "num f ps \<le> num f (ps[t := p])"
proof -
  have "of_bool (f (ps ! t)) \<le> (of_bool (f p) :: int)" using assms(2) by simp
  with num_update [OF assms(1), of f p] show ?thesis by linarith
qed

lemma live_inv_more:
  assumes inv: "live_inv items mx masters s ps" and t: "t < length ps" and p: "sleep_ok p"
    and keep: "\<And>c. asleep_on c p \<Longrightarrow> asleep_on c (ps ! t)" "awake_worker (ps ! t) \<Longrightarrow> awake_worker p"
      "woken_master (ps ! t) \<Longrightarrow> woken_master p" "p = Done \<Longrightarrow> ps ! t = Done"
  shows "live_inv items mx masters s (ps[t := p])"
proof -
  have s: "0 < sleepers c ps" if "0 < sleepers c (ps[t := p])" for c
  proof -
    have "\<exists>u<length ps. asleep_on c (ps[t := p] ! u)" using that num_pos [of "asleep_on c" "ps[t := p]"] by (simp add: sleepers_def)
    then obtain u where u: "u < length ps" "asleep_on c (ps[t := p] ! u)" by blast
    then have "asleep_on c (ps ! u)" using keep(1) t by (cases "u = t") simp_all
    with u(1) show ?thesis unfolding sleepers_def num_pos by blast
  qed
  have n: "num awake_worker ps \<le> num awake_worker (ps[t := p])" "num woken_master ps \<le> num woken_master (ps[t := p])"
    using num_update_mono [OF t] keep(2,3) by blast+
  have d: "ps ! u = Done" if "ps[t := p] ! u = Done" for u using that keep(4) t by (cases "u = t") simp_all
  have i: "buf_ok mx s" "\<forall>p\<in>set ps. sleep_ok p" "0 < sleepers NotEmpty ps \<Longrightarrow> curr_buf_size s \<le> int (num awake_worker ps)"
      "0 < sleepers NotFull ps \<Longrightarrow> mx - curr_buf_size s \<le> int (num woken_master ps)"
    using inv by (auto simp: live_inv_def)
  show ?thesis
  proof (rule live_invI [OF i(1,2) t p])
    show "curr_buf_size s \<le> int (num awake_worker (ps[t := p]))" if "0 < sleepers NotEmpty (ps[t := p])"
      using i(3) [OF s [OF that]] n(1) by linarith
    show "mx - curr_buf_size s \<le> int (num woken_master (ps[t := p]))" if "0 < sleepers NotFull (ps[t := p])"
      using i(4) [OF s [OF that]] n(2) by linarith
    show "items \<le> item_to_produce s \<and> (\<forall>v\<in>set (take (nat (curr_buf_size s)) (buffer s)). items \<le> v)"
      if "masters \<le> u" "u < length ps" "ps[t := p] ! u = Done" for u
      using inv that(1,2) d [OF that(3)] unfolding live_inv_def by blast
  qed
qed

lemma produce_tail:
  assumes "buf_ok mx s" "curr_buf_size s < mx" "(s', es, q) = produce t s" "items \<le> item_to_produce s"
    "\<forall>v\<in>set (take (nat (curr_buf_size s)) (buffer s)). items \<le> v"
  shows "\<forall>v\<in>set (take (nat (curr_buf_size s')) (buffer s')). items \<le> v"
proof -
  let ?i = "curr_buf_size s"
  have i: "0 \<le> ?i" "nat ?i < length (buffer s)" using assms(1,2) by (auto simp: buf_ok_def)
  have s': "curr_buf_size s' = ?i + 1" "buffer s' = (buffer s)[nat ?i := item_to_produce s]"
    using assms(3) i by (simp_all add: produce_def Let_def)
  have "take (nat (?i + 1)) ((buffer s)[nat ?i := item_to_produce s]) = take (nat ?i) (buffer s) @ [item_to_produce s]"
    using i by (simp add: nat_add_distrib take_Suc_conv_app_nth)
  then show ?thesis using assms(4,5) by (auto simp: s')
qed

lemma consume_tail:
  assumes "0 < curr_buf_size s" "(s', es, q) = consume t s" "v \<in> set (take (nat (curr_buf_size s')) (buffer s'))"
  shows "v \<in> set (take (nat (curr_buf_size s)) (buffer s))"
proof -
  have "curr_buf_size s' = curr_buf_size s - 1" "buffer s' = buffer s" using assms(1,2) by (simp_all add: consume_def Let_def)
  moreover have "set (take (nat (curr_buf_size s - 1)) (buffer s)) \<subseteq> set (take (nat (curr_buf_size s)) (buffer s))"
    by (rule set_take_subset_set_take) simp
  ultimately show ?thesis using assms(3) by auto
qed

lemma live_invD:
  assumes "live_inv items mx masters s ps"
  shows "buf_ok mx s" "\<forall>p\<in>set ps. sleep_ok p"
    "0 < sleepers NotEmpty ps \<Longrightarrow> curr_buf_size s \<le> int (num awake_worker ps)"
    "0 < sleepers NotFull ps \<Longrightarrow> mx - curr_buf_size s \<le> int (num woken_master ps)"
    "\<And>u. masters \<le> u \<Longrightarrow> u < length ps \<Longrightarrow> ps ! u = Done \<Longrightarrow>
      items \<le> item_to_produce s \<and> (\<forall>v\<in>set (take (nat (curr_buf_size s)) (buffer s)). items \<le> v)"
  using assms by (auto simp: live_inv_def)

text \<open>Threads other than those that have just returned had returned before.\<close>

lemma returned_before:
  assumes "wakeups es ws ps = Some ps'" "u < length ps'" "ps'[t := p] ! u = Done" "p \<noteq> Done"
  shows "ps ! u = Done"
  using assms(2-) wakeups_Done [OF assms(1), of u] wakeups_nth(1) [OF assms(1)] by (cases "u = t") auto

text \<open>A master puts a number into the buffer and wakes a worker; a worker takes one and wakes a master.\<close>

lemma produce_live:
  assumes t: "t < length ps" "ps ! t = Inside l" and inv: "live_inv items mx masters s ps"
    and produced: "l = MTop \<or> l = MFull" "curr_buf_size s < mx" "(s', es, q) = produce t s"
    and w: "wakeups es ws ps = Some ps'"
  shows "live_inv items mx masters s' (ps'[t := after_leave q])"
proof -
  note ok = live_invD(1,2) [OF inv] and c = live_invD(3,4) [OF inv] and tail = live_invD(5) [OF inv]
  have t': "t < length ps'" "ps' ! t = Inside l" using wakeups_nth(1) [OF w] wakeups_nth(2) [OF w t(1)] t by simp_all
  note upd = num_update [OF t'(1), unfolded t'(2)] sleepers_update [OF t'(1), unfolded t'(2)]
  note old = returned_before [OF w]
  have s': "curr_buf_size s' = curr_buf_size s + 1" "item_to_produce s' = item_to_produce s + 1" "es = [Signal NotEmpty]" "q = Unlock MTop"
    using produced(3) by (simp_all add: produce_def Let_def)
  note sig = signal_counts [OF w [unfolded s'(3)] ok(2)] signal_sleepers [OF w [unfolded s'(3)]]
  have ok': "buf_ok mx s'" using produce_ok(1) [OF ok(1) produced(2), of t] produced(3) by (metis fst_conv)
  have d: "items \<le> item_to_produce s' \<and> (\<forall>v\<in>set (take (nat (curr_buf_size s')) (buffer s')). items \<le> v)"
    if "masters \<le> u" "u < length ps'" "ps'[t := Enter MTop] ! u = Done" for u
    using tail [OF that(1) _ old [OF that(2,3)]] that(2) wakeups_nth(1) [OF w] produce_tail [OF ok(1) produced(2,3)] s'(2) by auto
  have n: "sleepers NotFull (ps'[t := Enter MTop]) = sleepers NotFull ps"
    "int (num woken_master (ps'[t := Enter MTop])) = int (num woken_master ps) - of_bool (l = MFull)"
    using produced(1) upd(2) [of NotFull "Enter MTop"] upd(1) [of woken_master "Enter MTop"] sig(3) sig(4) [of NotFull] by auto
  have m: "mx - curr_buf_size s' \<le> int (num woken_master (ps'[t := Enter MTop]))" if "0 < sleepers NotFull (ps'[t := Enter MTop])"
    using c(2) that n s'(1) by (auto split: if_splits)
  show ?thesis
    unfolding s'(4) after_leave.simps
    by (rule live_invI [OF ok' sig(1) t'(1)])
      (use produced(1) c(1) m sig(2,4) upd [of _ "Enter MTop"] s'(1) d in \<open>auto split: if_splits\<close>)
qed

lemma consume_live:
  assumes t: "t < length ps" "ps ! t = Inside l" and inv: "live_inv items mx masters s ps"
    and consumed: "l = WTop \<or> l = WEmpty" "0 < curr_buf_size s" "(s', es, q) = consume t s"
    and w: "wakeups es ws ps = Some ps'"
  shows "live_inv items mx masters s' (ps'[t := after_leave q])"
proof -
  note ok = live_invD(1,2) [OF inv] and c = live_invD(3,4) [OF inv] and tail = live_invD(5) [OF inv]
  have t': "t < length ps'" "ps' ! t = Inside l" using wakeups_nth(1) [OF w] wakeups_nth(2) [OF w t(1)] t by simp_all
  note upd = num_update [OF t'(1), unfolded t'(2)] sleepers_update [OF t'(1), unfolded t'(2)]
  note old = returned_before [OF w]
  have s': "curr_buf_size s' = curr_buf_size s - 1" "item_to_produce s' = item_to_produce s" "es = [Signal NotFull]" "q = Unlock WTop"
    using consumed(2,3) by (simp_all add: consume_def Let_def)
  note sig = signal_counts [OF w [unfolded s'(3)] ok(2)] signal_sleepers [OF w [unfolded s'(3)]]
  have ok': "buf_ok mx s'" using consume_ok(1) [OF ok(1), of t] consumed(3) by (metis fst_conv)
  have d: "items \<le> item_to_produce s' \<and> (\<forall>v\<in>set (take (nat (curr_buf_size s')) (buffer s')). items \<le> v)"
    if "masters \<le> u" "u < length ps'" "ps'[t := Enter WTop] ! u = Done" for u
    using tail [OF that(1) _ old [OF that(2,3)]] that(2) wakeups_nth(1) [OF w] consume_tail [OF consumed(2,3)] s'(2) by auto
  have n: "sleepers NotEmpty (ps'[t := Enter WTop]) = sleepers NotEmpty ps"
    "num awake_worker (ps'[t := Enter WTop]) = num awake_worker ps"
    using consumed(1) upd(2) [of NotEmpty "Enter WTop"] upd(1) [of awake_worker "Enter WTop"] sig(2) sig(4) [of NotEmpty] by auto
  have m: "curr_buf_size s' \<le> int (num awake_worker (ps'[t := Enter WTop]))" if "0 < sleepers NotEmpty (ps'[t := Enter WTop])"
    using c(1) that n s'(1) by auto
  show ?thesis
    unfolding s'(4) after_leave.simps
    by (rule live_invI [OF ok' sig(1) t'(1)])
      (use consumed(1) c(2) m sig(3,4) upd [of _ "Enter WTop"] s'(1) d in \<open>auto split: if_splits\<close>)
qed

lemma mw_segment_live:
  assumes t: "t < length ps" "ps ! t = Inside l" and inv: "live_inv items mx masters s ps"
    and who: "if l = MTop \<or> l = MFull then t < masters else masters \<le> t"
    and step: "mw_code items mx t l s = (s', es, q)" and w: "wakeups es ws ps = Some ps'"
  shows "live_inv items mx masters s' (ps'[t := after_leave q])"
proof -
  note ok = live_invD(1,2) [OF inv] and c = live_invD(3,4) [OF inv] and tail = live_invD(5) [OF inv]
  have pos: "0 \<le> curr_buf_size s" using ok(1) by (simp add: buf_ok_def)
  have old: "ps ! u = Done" if "u < length ps" "ps[t := p] ! u = Done" "p \<noteq> Done" for u p
    using that by (cases "u = t") auto
  note upd = num_update [OF t(1), unfolded t(2)] sleepers_update [OF t(1), unfolded t(2)]
  from step pos show ?thesis
  proof (cases rule: mw_segment_cases)
    case quit
    then have p: "ps' = ps" using w by (simp split: if_splits)
    have d: "items \<le> item_to_produce s \<and> (\<forall>v\<in>set (take (nat (curr_buf_size s)) (buffer s)). items \<le> v)"
      if u: "masters \<le> u" "u < length ps" "ps[t := Done] ! u = Done" for u
    proof (cases "u = t")
      case True
      then show ?thesis using quit(1,2) who u(1) by auto
    next
      case False
      then show ?thesis using tail u by simp
    qed
    have n: "curr_buf_size s \<le> int (num awake_worker (ps[t := Done]))" if "0 < sleepers NotEmpty (ps[t := Done])"
    proof (cases "l = MTop")
      case True
      then show ?thesis using that c(1) upd [of _ Done] p by auto
    next
      case False
      then show ?thesis using quit(1) by simp
    qed
    have "\<not> woken_master (Inside l)" using quit(1) by auto
    note c = c this
    show ?thesis
      unfolding p quit(3,5) after_leave.simps
      by (rule live_invI [OF ok t(1)]) (use n c(2,3) d upd [of _ Done] p in auto)
  next
    case sleep_full
    then have p: "ps' = ps" using w by (simp split: if_splits)
    have n: "num awake_worker (ps[t := Asleep NotFull MFull]) = num awake_worker ps"
      "sleepers NotEmpty (ps[t := Asleep NotFull MFull]) = sleepers NotEmpty ps"
      using sleep_full(1) upd(1) [of awake_worker "Asleep NotFull MFull"] upd(2) [of NotEmpty "Asleep NotFull MFull"] p by auto
    have m: "mx - curr_buf_size s \<le> int (num woken_master (ps[t := Asleep NotFull MFull]))" using sleep_full(2) by linarith
    show ?thesis
      unfolding p sleep_full(3,5) after_leave.simps
      by (rule live_invI [OF ok t(1)]) (use n m c tail old [of _ "Asleep NotFull MFull"] p in auto)
  next
    case sleep_empty
    then have p: "ps' = ps" using w by (simp split: if_splits)
    have n: "num woken_master (ps[t := Asleep NotEmpty WEmpty]) = num woken_master ps"
      "sleepers NotFull (ps[t := Asleep NotEmpty WEmpty]) = sleepers NotFull ps"
      if "l \<noteq> MFull"
      using that upd(1) [of woken_master "Asleep NotEmpty WEmpty"] upd(2) [of NotFull "Asleep NotEmpty WEmpty"] p by auto
    have m: "curr_buf_size s \<le> int (num awake_worker (ps[t := Asleep NotEmpty WEmpty]))" using sleep_empty(2) by linarith
    show ?thesis
      unfolding p sleep_empty(3,5) after_leave.simps
      by (rule live_invI [OF ok t(1)]) (use sleep_empty(1) n m c tail old [of _ "Asleep NotEmpty WEmpty"] p in auto)
  next
    case idle
    then have p: "ps' = ps" using w by (simp split: if_splits)
    show ?thesis
      unfolding p idle(3,5) after_leave.simps
      by (rule live_invI [OF ok t(1)]) (use idle(1,2) c tail old [of _ "Enter WTop"] upd [of _ "Enter WTop"] p in auto)
  next
    case produced
    then show ?thesis using produce_live [OF t inv _ _ _ w] by blast
  next
    case consumed
    then show ?thesis using consume_live [OF t inv _ _ _ w] by blast
  qed
qed

text \<open>Both invariants together, under every schedule.\<close>

definition mw_live :: "int \<Rightarrow> int \<Rightarrow> nat \<Rightarrow> nat \<Rightarrow> buf \<Rightarrow> (mw_cond, mw_label) thread list \<Rightarrow> bool" where
  "mw_live items mx masters workers s ps \<longleftrightarrow>
     mw_linv items mx masters workers s (map label_of ps) \<and> live_inv items mx masters s ps"

interpretation mw_progress: monitor "mw_code items mx" "mw_live items mx masters workers" for items mx masters workers
proof
  fix t l s and ps :: "(mw_cond, mw_label) thread list"
  assume t: "t < length ps" "ps ! t = Enter l" and inv: "mw_live items mx masters workers s ps"
  have "live_inv items mx masters s (ps[t := Inside l])"
    by (rule live_inv_more [OF _ t(1)]) (use inv t(2) in \<open>auto simp: mw_live_def\<close>)
  then show "mw_live items mx masters workers s (ps[t := Inside l])"
    using inv t mw.lock_inv [OF t] by (simp add: mw_live_def)
next
  fix t l s s' es q ws and ps ps' :: "(mw_cond, mw_label) thread list"
  assume a: "t < length ps" "ps ! t = Inside l" "mw_live items mx masters workers s ps" "mw_code items mx t l s = (s', es, q)"
    "wakeups es ws ps = Some ps'"
  have inv: "mw_linv items mx masters workers s (map label_of ps)" "live_inv items mx masters s ps"
    using a(3) by (simp_all add: mw_live_def)
  have who: "if l = MTop \<or> l = MFull then t < masters else masters \<le> t" using linv_who [OF inv(1), of t l] a(1,2) by simp
  show "mw_live items mx masters workers s' (ps'[t := after_leave q])"
    unfolding mw_live_def
    using mw.segment_inv [OF a(1,2) inv(1) a(4,5)] mw_segment_live [OF a(1,2) inv(2) who a(4,5)] by blast
next
  fix t c l s and ps :: "(mw_cond, mw_label) thread list"
  assume t: "t < length ps" "ps ! t = Asleep c l" and inv: "mw_live items mx masters workers s ps"
  have "sleep_ok (Asleep c l)" using inv t nth_mem unfolding mw_live_def live_inv_def by metis
  then have "live_inv items mx masters s (ps[t := Enter l])"
    by (intro live_inv_more [OF _ t(1)]) (use inv t(2) in \<open>auto simp: mw_live_def\<close>)
  then show "mw_live items mx masters workers s (ps[t := Enter l])"
    using inv t mw.spurious_inv [OF t] by (simp add: mw_live_def)
qed

lemma mw_init_live: "mw_live items mx masters workers (shared (mw_init mx masters workers)) (threads (mw_init mx masters workers))"
proof -
  let ?ps = "threads (mw_init mx masters workers)"
  have ps: "?ps = map (\<lambda>t. Enter (if t < masters then MTop else WTop)) [0..<masters + workers]"
    by (simp add: mw_init_def mon_init_def)
  have "sleepers c ?ps = 0" for c unfolding ps by (auto simp: sleepers_def num_def)
  moreover have "mw_linv items mx masters workers (shared (mw_init mx masters workers)) (map label_of ?ps)" by (rule mw_init_linv)
  ultimately show ?thesis by (auto simp: mw_live_def live_inv_def mw_linv_def ps)
qed

lemma mw_run_live:
  assumes "mw_run items mx masters workers sched = Some st"
  shows "mutex_ok st \<and> mw_live items mx masters workers (shared st) (threads st)"
proof -
  have "mutex_ok (mw_init mx masters workers)" by (simp add: mw_init_def mon_init_mutex_ok)
  from mw_progress.exec_inv [OF conjI [OF this mw_init_live] assms [unfolded mw_run_def]] show ?thesis .
qed

text \<open>Counting numbers that are produced once and either consumed or still stored.\<close>

lemma consumed_once:
  assumes ok: "buf_ok mx s" and v: "0 \<le> v" "v < item_to_produce s"
    and left: "v \<notin> set (take (nat (curr_buf_size s)) (buffer s))"
  shows "count (mset (map fst (consumed s))) v = 1"
proof -
  have "mset [0..item_to_produce s - 1] = mset (map fst (consumed s)) + mset (take (nat (curr_buf_size s)) (buffer s))"
    using ok by (simp add: buf_ok_def)
  then have "count (mset [0..item_to_produce s - 1]) v = count (mset (map fst (consumed s))) v"
    using left by (simp add: count_mset_0_iff)
  then show ?thesis using v by (simp add: distinct_count_atmost_1 [THEN iffD1, OF distinct_upto])
qed

section \<open>Standstill\<close>

lemma mw_stuck:
  assumes live: "mw_live items mx masters workers s ps" and still: "\<forall>p\<in>set ps. is_asleep p \<or> p = Done"
    and pos: "0 < mx" "0 < masters" "0 < workers"
  shows "items \<le> item_to_produce s \<and> (\<forall>v\<in>set (take (nat (curr_buf_size s)) (buffer s)). items \<le> v)"
proof -
  have inv: "mw_linv items mx masters workers s (map label_of ps)" "live_inv items mx masters s ps"
    using live by (simp_all add: mw_live_def)
  have len: "length ps = masters + workers" using inv(1) by (simp add: mw_linv_def)
  have idle: "\<not> awake_worker p \<and> \<not> woken_master p" if "is_asleep p \<or> p = Done" for p using that by (cases p) auto
  have "num awake_worker ps = 0" "num woken_master ps = 0" using still idle unfolding num_def by (auto simp: filter_empty_conv)
  then have c: "0 < sleepers NotEmpty ps \<Longrightarrow> curr_buf_size s \<le> 0" "0 < sleepers NotFull ps \<Longrightarrow> mx \<le> curr_buf_size s"
    using inv(2) by (auto simp: live_inv_def)
  have sleeping: "ps ! t = Done \<or> 0 < sleepers (if t < masters then NotFull else NotEmpty) ps" if t: "t < length ps" for t
  proof (cases "ps ! t = Done")
    case False
    then obtain c l where p: "ps ! t = Asleep c l" using still t by (metis is_asleep.elims(2) nth_mem)
    have "sleep_ok (ps ! t)" using inv(2) t nth_mem by (auto simp: live_inv_def)
    then have "c = (if t < masters then NotFull else NotEmpty)"
      using linv_who [OF inv(1), of t l] t p by (auto split: mw_cond.splits if_splits)
    then have "asleep_on (if t < masters then NotFull else NotEmpty) (ps ! t)" using p by simp
    then show ?thesis using t unfolding sleepers_def num_pos by blast
  qed simp
  have w: "ps ! masters = Done \<or> curr_buf_size s \<le> 0" using sleeping [of masters] c(1) len pos(3) by auto
  have m: "items \<le> item_to_produce s" if "ps ! 0 = Done"
    using inv(1) that pos(2) len unfolding mw_linv_def by (metis label_of.simps(4) nth_map trans_less_add1)
  have tail: "items \<le> item_to_produce s \<and> (\<forall>v\<in>set (take (nat (curr_buf_size s)) (buffer s)). items \<le> v)" if "ps ! masters = Done"
    using inv(2) that len pos(3) by (auto simp: live_inv_def)
  show ?thesis
  proof (cases "ps ! masters = Done")
    case True
    then show ?thesis by (rule tail)
  next
    case False
    then have "curr_buf_size s \<le> 0" using w by simp
    then have "ps ! 0 = Done" using sleeping [of 0] c(2) pos len by auto
    then show ?thesis using m \<open>curr_buf_size s \<le> 0\<close> by simp
  qed
qed

section \<open>Termination without spurious wakeups\<close>

text \<open>
  A number that is still to be produced pays for its production and consumption and for the two threads they
  wake, each of which runs once more.
\<close>

fun thread_fuel :: "(mw_cond, mw_label) thread \<Rightarrow> nat" where
  "thread_fuel (Enter l) = (if l = WEmpty then 4 else 2)"
| "thread_fuel (Inside l) = (if l = WEmpty then 3 else 1)"
| "thread_fuel p = 0"

lemma signal_fuel:
  assumes "wakeups [Signal c] ws ps = Some ps'" and ok: "\<forall>p\<in>set ps. sleep_ok p"
  shows "sum_list (map thread_fuel ps') \<le> sum_list (map thread_fuel ps) + (case c of NotEmpty \<Rightarrow> 4 | NotFull \<Rightarrow> 2)"
  using assms(1)
proof (cases rule: signal_one)
  case (one w)
  obtain l where l: "ps ! w = Asleep c l" using one(2) by (cases "ps ! w") auto
  then have "sleep_ok (Asleep c l)" using ok one(1) nth_mem by metis
  then show ?thesis
    using sum_map_update [OF one(1), of thread_fuel "wake (ps ! w)"] unfolding one(3) l by (cases c) simp_all
qed simp

lemma mw_segment_fuel:
  assumes t: "t < length ps" "ps ! t = Inside l" and inv: "mw_live items mx masters workers s ps"
    and step: "mw_code items mx t l s = (s', es, q)" and w: "wakeups es ws ps = Some ps'"
  shows "10 * nat (items + int masters - 1 - item_to_produce s') + 4 * nat (curr_buf_size s') +
      sum_list (map thread_fuel (ps'[t := after_leave q])) <
    10 * nat (items + int masters - 1 - item_to_produce s) + 4 * nat (curr_buf_size s) + sum_list (map thread_fuel ps)"
proof -
  have live: "mw_linv items mx masters workers s (map label_of ps)" "buf_ok mx s" "\<forall>p\<in>set ps. sleep_ok p"
    using inv by (auto simp: mw_live_def live_inv_def)
  have pos: "0 \<le> curr_buf_size s" "0 \<le> item_to_produce s" using live(2) by (simp_all add: buf_ok_def)
  have t': "t < length ps'" "ps' ! t = Inside l" using wakeups_nth(1) [OF w] wakeups_nth(2) [OF w t(1)] t by simp_all
  note upd = sum_map_update [OF t'(1), of thread_fuel "after_leave q", unfolded t'(2)]
  from step pos(1) show ?thesis
  proof (cases rule: mw_segment_cases)
    case quit
    then have "ps' = ps" using w by (simp split: if_splits)
    then show ?thesis using upd quit by (cases "l = WEmpty") auto
  next
    case sleep_full
    then have "ps' = ps" using w by (simp split: if_splits)
    then show ?thesis using upd sleep_full by (cases "l = WEmpty") auto
  next
    case sleep_empty
    then have "ps' = ps" using w by (simp split: if_splits)
    then show ?thesis using upd sleep_empty by (cases "l = WEmpty") auto
  next
    case idle
    then have "ps' = ps" using w by (simp split: if_splits)
    then show ?thesis using upd idle by auto
  next
    case produced
    have s': "curr_buf_size s' = curr_buf_size s + 1" "item_to_produce s' = item_to_produce s + 1" "es = [Signal NotEmpty]" "q = Unlock MTop"
      using produced(3) by (simp_all add: produce_def Let_def)
    have "mw_linv items mx masters workers s' ((map label_of ps)[t := label_of (after_leave q)])"
      using mw_code_linv [OF _ _ live(1) step] t by simp
    then have "item_to_produce s' \<le> items + int masters - 1"
      using s'(2) pos(2) full_nonneg(1) [of "(map label_of ps)[t := label_of (after_leave q)]"]
      by (cases "0 < items") (auto simp: mw_linv_def)
    then show ?thesis
      using signal_fuel [OF w [unfolded s'(3)] live(3)] upd produced(1) s'(1,2,4) pos by auto
  next
    case consumed
    have s': "curr_buf_size s' = curr_buf_size s - 1" "item_to_produce s' = item_to_produce s" "es = [Signal NotFull]" "q = Unlock WTop"
      using consumed(2,3) by (simp_all add: consume_def Let_def)
    show ?thesis
      using signal_fuel [OF w [unfolded s'(3)] live(3)] upd consumed(1,2) s'(1,2,4) pos by auto
  qed
qed

interpretation mw_ends: spending_monitor "mw_code items mx" "mw_live items mx masters workers" thread_fuel
  "\<lambda>s. 10 * nat (items + int masters - 1 - item_to_produce s) + 4 * nat (curr_buf_size s)"
  for items mx masters workers
  by unfold_locales (simp, rule mw_segment_fuel)

section \<open>Properties\<close>

text \<open>
  C12: The program never comes to a standstill early: with at least one master, one worker and one cell, under every
  schedule and with spurious wakeups, when no thread can go on (all have returned or sleep) every requested
  number has been produced and consumed exactly once. Only the end of some threads can fail.
\<close>

theorem mw_standstill_complete:
  assumes "mw_run items mx masters workers sched = Some st" and "stuck (mw_code items mx) st"
    and "0 < mx" and "0 < masters" and "0 < workers"
  shows "items \<le> item_to_produce (shared st) \<and>
     (\<forall>v\<in>{0..<items}. count (mset (map fst (consumed (shared st)))) v = 1)"
proof -
  note run = mw_run_live [OF assms(1)]
  have still: "\<forall>p\<in>set (threads st). is_asleep p \<or> p = Done" using stuck_iff [of st] run assms(2) by blast
  have ok: "buf_ok mx (shared st)" using run by (simp add: mw_live_def live_inv_def)
  have e: "items \<le> item_to_produce (shared st)"
    "\<forall>v\<in>set (take (nat (curr_buf_size (shared st))) (buffer (shared st))). items \<le> v"
    using mw_stuck [OF _ still assms(3-5)] run by blast+
  then show ?thesis using consumed_once [OF ok] by fastforce
qed

theorem mw_standstill_complete_witness:
  "\<exists>sched st. mw_run 1 1 1 2 sched = Some st \<and> stuck (mw_code 1 1) st \<and>
     threads st ! 2 = Asleep NotEmpty WEmpty \<and> count (mset (map fst (consumed (shared st)))) 0 = 1"
proof -
  obtain sched st where r: "mw_run 1 1 1 2 sched = Some st" "stuck (mw_code 1 1) st" "threads st ! 2 = Asleep NotEmpty WEmpty"
    using mw_worker_sleeps_forever by blast
  from mw_standstill_complete [OF r(1,2)] have "count (mset (map fst (consumed (shared st)))) 0 = 1" by simp
  with r show ?thesis by blast
qed

text \<open>
  C34: Without spurious wakeups every run of the program is finite: at most ten steps for each number the masters
  can produce and two for each thread, whatever the schedule.
\<close>

theorem mw_terminates:
  assumes "exec (calm_step (mw_code items mx)) (mw_init mx masters workers) sched = Some st"
  shows "length sched \<le> 10 * nat (items + int masters - 1) + 2 * (masters + workers)"
proof -
  have ps: "threads (mw_init mx masters workers) = map (\<lambda>t. Enter (if t < masters then MTop else WTop)) [0..<masters + workers]"
    by (simp add: mw_init_def mon_init_def)
  have "map thread_fuel (threads (mw_init mx masters workers)) = map (\<lambda>t. 2) [0..<masters + workers]" unfolding ps by simp
  then have "sum_list (map thread_fuel (threads (mw_init mx masters workers))) = 2 * (masters + workers)"
    by (simp only: map_replicate_const sum_list_replicate) simp
  moreover have "mutex_ok (mw_init mx masters workers)" by (simp add: mw_init_def mon_init_mutex_ok)
  ultimately show ?thesis
    using mw_ends.spends.run_length [OF conjI [OF _ mw_init_live] assms] by (simp add: mw_init_def mon_init_def buf_init_def)
qed

theorem mw_terminates_witness:
  "\<exists>sched st. exec (calm_step (mw_code 1 1)) (mw_init 1 1 1) sched = Some st \<and> length sched = 8 \<and>
     length sched \<le> 10 * nat (1 + int 1 - 1) + 2 * (1 + 1)"
proof -
  let ?sched = "[Lock 0, Segment 0 [], Lock 0, Segment 0 [], Lock 1, Segment 1 [], Lock 1, Segment 1 []]"
  have "exec (calm_step (mw_code 1 1)) (mw_init 1 1 1) ?sched \<noteq> None"
    by code_simp
  then obtain st where st: "exec (calm_step (mw_code 1 1)) (mw_init 1 1 1) ?sched = Some st" by blast
  have "length ?sched = 8" by simp
  with st mw_terminates [OF st] show ?thesis by blast
qed

end
