(* ===== verification/Skeleton.thy ===== *)
theory Skeleton
  imports CString
begin

text \<open>
  \<open>pthreads-sync-code/master-worker/master-worker-skeleton.c\<close>: the masters of the exercise before it is
  solved, without any synchronisation and without workers. Every read and write of a shared variable is a
  step of its own, and the steps of the masters interleave in any order; of the orders in which C may
  evaluate the assignment to the buffer the one from left to right is taken.
\<close>

section \<open>The program\<close>

text \<open>
  Where a master is in its loop: at the test, before it reads \<open>curr_buf_size\<close>, before it writes it back, before it reads
  the item, before it stores it, before the output line, before and within \<open>item_to_produce++\<close>, returned.
\<close>

datatype skel_pc = STest | SIndex | SBump int | SItem int | SStore int int | SPrint | SLoad | SInc int | SDone

record skel =
  item_to_produce :: int
  curr_buf_size :: int
  buffer :: "int list"
  produced :: "(int \<times> nat) list"
  overrun :: bool
  masters :: "skel_pc list"

definition goto :: "nat \<Rightarrow> skel_pc \<Rightarrow> skel \<Rightarrow> skel" where
  "goto t p st = st\<lparr>masters := (masters st)[t := p]\<rparr>"

definition skel_step :: "int \<Rightarrow> nat \<Rightarrow> skel \<Rightarrow> skel option" where
  "skel_step total_items t st =
     (if t < length (masters st) then
        (case masters st ! t of
           STest \<Rightarrow> Some (goto t (if item_to_produce st \<ge> total_items then SDone else SIndex) st)
         | SIndex \<Rightarrow> Some (goto t (SBump (curr_buf_size st)) st)
         | SBump c \<Rightarrow> Some (goto t (SItem c) (st\<lparr>curr_buf_size := c + 1\<rparr>))
         | SItem c \<Rightarrow> Some (goto t (SStore c (item_to_produce st)) st)
         | SStore c v \<Rightarrow>
             Some (goto t SPrint
               (if 0 \<le> c \<and> nat c < length (buffer st) then st\<lparr>buffer := (buffer st)[nat c := v]\<rparr> else st\<lparr>overrun := True\<rparr>))
         | SPrint \<Rightarrow> Some (goto t SLoad (st\<lparr>produced := produced st @ [(item_to_produce st, t)]\<rparr>))
         | SLoad \<Rightarrow> Some (goto t (SInc (item_to_produce st)) st)
         | SInc v \<Rightarrow> Some (goto t STest (st\<lparr>item_to_produce := v + 1\<rparr>))
         | SDone \<Rightarrow> None)
      else None)"

definition skel_init :: "int \<Rightarrow> nat \<Rightarrow> skel" where
  "skel_init max_buf_size num_masters = \<lparr>item_to_produce = 0, curr_buf_size = 0, buffer = replicate (nat max_buf_size) 0,
     produced = [], overrun = False, masters = replicate num_masters STest\<rparr>"

text \<open>
  \<open>main\<close> up to the creation of the masters: the usage message, or the program that starts. The results of \<open>malloc\<close>
  and \<open>pthread_create\<close> are not looked at; the calls succeed here, and cells not yet written show as 0.
\<close>

definition skel_main :: "nat \<Rightarrow> int \<Rightarrow> int \<Rightarrow> skel option" where
  "skel_main argc max_buf_size num_masters =
     (if argc < 5 then None else Some (skel_init max_buf_size (nat num_masters)))"

text \<open>The joins: the masters that \<open>main\<close> reports, in order, once all of them have returned.\<close>

definition skel_joins :: "skel \<Rightarrow> nat list option" where
  "skel_joins st = (if \<forall>p\<in>set (masters st). p = SDone then Some [0..<length (masters st)] else None)"

text \<open>The lines of the program; nobody calls the second function, which is there for the exercise.\<close>

definition skel_print_produced :: "int \<Rightarrow> nat \<Rightarrow> string" where
  "skel_print_produced v master = ''Produced '' @ show_int v @ '' by master '' @ show_int (int master) @ [nl]"

definition skel_print_consumed :: "int \<Rightarrow> nat \<Rightarrow> string" where
  "skel_print_consumed v worker = ''Consumed '' @ show_int v @ '' by worker '' @ show_int (int worker) @ [nl]"

definition skel_usage :: string where
  "skel_usage = ''./master-worker #total_items #max_buf_size #num_workers #masters e.g. ./exe 10000 1000 4 3'' @ [nl]"

definition skel_joined :: "nat \<Rightarrow> string" where
  "skel_joined i = ''master '' @ show_int (int i) @ '' joined'' @ [nl]"

text \<open>
  The whole program: what the masters and what \<open>main\<close> has printed, and the status; \<open>None\<close> while \<open>main\<close> waits for a master. The
  two outputs interleave when there are several masters. A store past the end of the buffer is undefined.
\<close>

definition skel_program :: "nat \<Rightarrow> int \<Rightarrow> int \<Rightarrow> int \<Rightarrow> nat list \<Rightarrow> (string \<times> string \<times> int) option outcome" where
  "skel_program argc total_items max_buf_size num_masters sched =
     (case skel_main argc max_buf_size num_masters of
        None \<Rightarrow> Inr (Some ([], skel_usage, 1))
      | Some st \<Rightarrow>
          (case exec (skel_step total_items) st sched of
             None \<Rightarrow> Inr None
           | Some st \<Rightarrow>
               if overrun st then Inl OutOfBounds
               else Inr (map_option (\<lambda>is. (concat (map (\<lambda>(v, t). skel_print_produced v t) (produced st)),
                   concat (map skel_joined is), 0)) (skel_joins st))))"

section \<open>One master\<close>

text \<open>The first \<open>k\<close> items are in the buffer, as far as it goes.\<close>

definition stored :: "int \<Rightarrow> skel \<Rightarrow> bool" where
  "stored k st \<longleftrightarrow> (overrun st \<longleftrightarrow> int (length (buffer st)) < k) \<and>
     (\<forall>j<length (buffer st). int j < k \<longrightarrow> buffer st ! j = int j)"

fun pc_ok :: "int \<Rightarrow> skel_pc \<Rightarrow> skel \<Rightarrow> bool" where
  "pc_ok n STest st = (curr_buf_size st = item_to_produce st \<and> stored (item_to_produce st) st)"
| "pc_ok n SIndex st = (curr_buf_size st = item_to_produce st \<and> stored (item_to_produce st) st \<and> item_to_produce st < n)"
| "pc_ok n (SBump c) st = (c = item_to_produce st \<and> stored c st \<and> c < n)"
| "pc_ok n (SItem c) st = (c = item_to_produce st \<and> curr_buf_size st = c + 1 \<and> stored c st \<and> c < n)"
| "pc_ok n (SStore c v) st = (c = item_to_produce st \<and> v = c \<and> curr_buf_size st = c + 1 \<and> stored c st \<and> c < n)"
| "pc_ok n SPrint st = (curr_buf_size st = item_to_produce st + 1 \<and> stored (item_to_produce st + 1) st \<and> item_to_produce st < n)"
| "pc_ok n SLoad st = (curr_buf_size st = item_to_produce st + 1 \<and> stored (item_to_produce st + 1) st \<and> item_to_produce st < n)"
| "pc_ok n (SInc v) st = (v = item_to_produce st \<and> curr_buf_size st = v + 1 \<and> stored (v + 1) st \<and> v < n)"
| "pc_ok n SDone st = (curr_buf_size st = item_to_produce st \<and> stored (item_to_produce st) st \<and> n \<le> item_to_produce st)"

definition lines_out :: "skel_pc \<Rightarrow> skel \<Rightarrow> int" where
  "lines_out p st = (case p of SLoad \<Rightarrow> item_to_produce st + 1 | SInc v \<Rightarrow> item_to_produce st + 1 | _ \<Rightarrow> item_to_produce st)"

definition skel_inv :: "int \<Rightarrow> int \<Rightarrow> skel \<Rightarrow> bool" where
  "skel_inv n mx st \<longleftrightarrow> (\<exists>p. masters st = [p] \<and> pc_ok n p st \<and> produced st = map (\<lambda>i. (i, 0)) [0..lines_out p st - 1]) \<and>
     0 \<le> item_to_produce st \<and> item_to_produce st \<le> max n 0 \<and> length (buffer st) = nat mx"

lemma stored_next:
  assumes "stored c st" "0 \<le> c"
  shows "stored (c + 1) (if nat c < length (buffer st) then st\<lparr>buffer := (buffer st)[nat c := c]\<rparr> else st\<lparr>overrun := True\<rparr>)"
  using assms by (auto simp: stored_def nth_list_update)

lemma stored_cong: "buffer st' = buffer st \<Longrightarrow> overrun st' = overrun st \<Longrightarrow> stored k st' = stored k st"
  by (simp add: stored_def)

lemma skel_step_inv:
  assumes inv: "skel_inv n mx st" and step: "skel_step n t st = Some st'"
  shows "skel_inv n mx st'"
proof -
  obtain p where p: "masters st = [p]" "pc_ok n p st" "produced st = map (\<lambda>i. (i, 0)) [0..lines_out p st - 1]"
    and r: "0 \<le> item_to_produce st" "item_to_produce st \<le> max n 0" "length (buffer st) = nat mx"
    using inv by (auto simp: skel_inv_def)
  have t: "t = 0" using step p(1) by (simp add: skel_step_def split: if_splits)
  show ?thesis
  proof (cases p)
    case (SStore c v)
    let ?st = "if nat c < length (buffer st) then st\<lparr>buffer := (buffer st)[nat c := c]\<rparr> else st\<lparr>overrun := True\<rparr>"
    have "v = c" "0 \<le> c" using p(2) SStore r(1) by simp_all
    then have "st' = goto 0 SPrint ?st" using step p(1) SStore t by (auto simp: skel_step_def)
    moreover have "stored (c + 1) ?st" using p(2) SStore r(1) by (intro stored_next) auto
    ultimately show ?thesis using p r SStore
      by (auto simp: skel_inv_def goto_def lines_out_def stored_def)
  next
    case SPrint
    have "[0..item_to_produce st] = [0..item_to_produce st - 1] @ [item_to_produce st]" using r(1) by (rule upto_rec2)
    then show ?thesis using step p r SPrint t
      by (auto simp: skel_step_def skel_inv_def goto_def lines_out_def stored_def)
  qed (use step p r t in \<open>auto simp: skel_step_def skel_inv_def goto_def lines_out_def stored_def split: if_splits\<close>)
qed

text \<open>Steps left: eight for each item and one for the last test.\<close>

fun pc_steps :: "skel_pc \<Rightarrow> nat" where
  "pc_steps STest = 1" | "pc_steps SIndex = 8" | "pc_steps (SBump c) = 7" | "pc_steps (SItem c) = 6"
| "pc_steps (SStore c v) = 5" | "pc_steps SPrint = 4" | "pc_steps SLoad = 3" | "pc_steps (SInc v) = 2" | "pc_steps SDone = 0"

definition skel_fuel :: "int \<Rightarrow> skel \<Rightarrow> nat" where
  "skel_fuel n st =
     (let p = masters st ! 0; i = item_to_produce st in
      if p \<in> {STest, SDone} then 8 * nat (n - i) + pc_steps p else 8 * nat (n - i - 1) + pc_steps p)"

lemma skel_step_fuel:
  assumes inv: "skel_inv n mx st" and step: "skel_step n t st = Some st'"
  shows "skel_fuel n st' < skel_fuel n st"
proof -
  obtain p where p: "masters st = [p]" "pc_ok n p st" using inv by (auto simp: skel_inv_def)
  have t: "t = 0" using step p(1) by (simp add: skel_step_def split: if_splits)
  show ?thesis
    by (cases p) (use step p t in \<open>auto simp: skel_step_def skel_fuel_def goto_def Let_def nat_diff_distrib' split: if_splits\<close>)
qed

interpretation skeleton: bounded_runs "skel_step n" "skel_inv n mx" "skel_fuel n" for n mx
  by unfold_locales (rule skel_step_inv skel_step_fuel; assumption)+

section \<open>Properties\<close>

text \<open>
  With one master the unsynchronised loop ends after \<open>8 * n + 1\<close> steps at most; when it has ended
  it has produced the numbers below \<open>n\<close> in order and stored those that fit. It writes past the end of
  the buffer exactly when there are more items than cells: nothing makes it wait.
\<close>

theorem skeleton_one_master:
  assumes "0 \<le> n" and "0 \<le> mx" and "exec (skel_step n) (skel_init mx 1) sched = Some st"
  shows "length sched \<le> 8 * nat n + 1 \<and>
     (skel_step n 0 st = None \<longrightarrow> produced st = map (\<lambda>i. (i, 0)) [0..n - 1] \<and> curr_buf_size st = n \<and>
        (overrun st \<longleftrightarrow> mx < n) \<and> (\<forall>j<nat (min mx n). buffer st ! j = int j) \<and> skel_joins st = Some [0])"
proof -
  have "skel_inv n mx (skel_init mx 1)" using assms(1,2) by (simp add: skel_inv_def skel_init_def stored_def lines_out_def)
  note run = skeleton.exec_inv [OF this assms(3)] skeleton.run_length [OF this assms(3)]
  have "length sched \<le> skel_fuel n (skel_init mx 1)" using run by simp
  then have len: "length sched \<le> 8 * nat n + 1" by (simp add: skel_fuel_def skel_init_def)
  obtain p where p: "masters st = [p]" "pc_ok n p st" "produced st = map (\<lambda>i. (i, 0)) [0..lines_out p st - 1]"
    and r: "0 \<le> item_to_produce st" "item_to_produce st \<le> max n 0" "length (buffer st) = nat mx"
    using run by (auto simp: skel_inv_def)
  have "produced st = map (\<lambda>i. (i, 0)) [0..n - 1] \<and> curr_buf_size st = n \<and>
        (overrun st \<longleftrightarrow> mx < n) \<and> (\<forall>j<nat (min mx n). buffer st ! j = int j) \<and> skel_joins st = Some [0]" if none: "skel_step n 0 st = None"
  proof -
    have "p = SDone" using none p(1) by (cases p) (simp_all add: skel_step_def)
    moreover from this have "item_to_produce st = n" "curr_buf_size st = n" "stored n st" "lines_out p st = n"
      using p(2) r(2) assms(1) by (auto simp: lines_out_def)
    ultimately show ?thesis using p(1,3) r(3) assms(2) by (auto simp: stored_def skel_joins_def)
  qed
  then show ?thesis using len by blast
qed

text \<open>
  So with one master the program prints a line for each item and is joined when the buffer has room for all items, and
  is undefined otherwise.
\<close>

lemma skeleton_program_one_master:
  assumes "5 \<le> argc" and "0 \<le> n" and "0 \<le> mx" and "exec (skel_step n) (skel_init mx 1) sched = Some st"
    and "skel_step n 0 st = None"
  shows "skel_program argc n mx 1 sched =
     (if mx < n then Inl OutOfBounds
      else Inr (Some (concat (map (\<lambda>i. skel_print_produced i 0) [0..n - 1]), skel_joined 0, 0)))"
  using skeleton_one_master [OF assms(2-4)] assms
  by (simp add: skel_program_def skel_main_def comp_def)

text \<open>One item is asked for: the second master after the first, and both in step.\<close>

definition late_run :: "nat list" where
  "late_run = [0, 1] @ replicate 8 0 @ replicate 8 1"

definition same_cell_run :: "nat list" where
  "same_cell_run = concat (replicate 9 [0, 1])"

text \<open>
  Two masters race even when the buffer has room for everything. Asked for one item, a run of the skeleton
  produces a second one beyond the limit; in another both masters produce item 0, and its two copies share one cell of the
  buffer.
\<close>

theorem skeleton_masters_race:
  "map_option (\<lambda>st. (masters st, produced st, curr_buf_size st)) (exec (skel_step 1) (skel_init 2 2) late_run) =
     Some ([SDone, SDone], [(0, 0), (1, 1)], 2) \<and>
   map_option (\<lambda>st. (masters st, produced st, curr_buf_size st)) (exec (skel_step 1) (skel_init 2 2) same_cell_run) =
     Some ([SDone, SDone], [(0, 0), (0, 1)], 1)"
  by (simp add: late_run_def same_cell_run_def skel_init_def skel_step_def goto_def numeral_eq_Suc)

definition one_item_run :: "nat list" where "one_item_run = replicate 9 0"

theorem skeleton_one_master_witness:
  "\<exists>st. exec (skel_step 1) (skel_init 0 1) one_item_run = Some st \<and> overrun st"
proof -
  have "map_option (\<lambda>st. skel_step 1 0 st = None) (exec (skel_step 1) (skel_init 0 1) one_item_run) = Some True"
    by (simp add: one_item_run_def skel_init_def skel_step_def goto_def numeral_eq_Suc)
  then obtain st where st: "exec (skel_step 1) (skel_init 0 1) one_item_run = Some st" "skel_step 1 0 st = None"
    unfolding map_option_eq_Some by blast
  from skeleton_one_master [OF _ _ st(1)] st show ?thesis by auto
qed

end
