(* ===== verification/Warmup.thy ===== *)
theory Warmup
  imports Pthreads
begin

text \<open>
  The warm-up programs of \<open>pthreads-sync-code/warmup_ex\<close>: the shared counter of \<open>ex1.c\<close>, the
  turnstile of \<open>ex3.c\<close>, also used by \<open>ex4.c\<close>, that makes the threads print in the order of their numbers.
\<close>

section \<open>The counter of ex1\<close>

text \<open>
  A thread's label is the number of increments it still has to make; one iteration of the loop
  is one segment.
\<close>

fun increment_func :: "(unit, nat, int) code" where
  "increment_func t k g = (g + 1, [], if k \<le> 1 then Return else Unlock (k - 1))"

definition ex1_init :: "nat \<Rightarrow> nat \<Rightarrow> (unit, nat, int) system" where
  "ex1_init n iters = mon_init (\<lambda>_. iters) n 0"

definition todo :: "nat option list \<Rightarrow> int" where
  "todo ls = sum_list (map (\<lambda>l. case l of None \<Rightarrow> 0 | Some k \<Rightarrow> int k) ls)"

definition ex1_linv :: "nat \<Rightarrow> nat \<Rightarrow> int \<Rightarrow> nat option list \<Rightarrow> bool" where
  "ex1_linv n iters g ls \<longleftrightarrow> length ls = n \<and> g + todo ls = int n * int iters \<and> (\<forall>l\<in>set ls. l \<noteq> Some 0)"

lemma todo_update:
  "t < length ls \<Longrightarrow> ls ! t = Some k \<Longrightarrow>
     todo (ls[t := x]) = todo ls - int k + (case x of None \<Rightarrow> 0 | Some j \<Rightarrow> int j)"
  unfolding todo_def
proof (induction ls arbitrary: t)
  case (Cons a ls)
  then show ?case by (cases t) auto
qed simp

interpretation ex1: labelled_monitor increment_func "ex1_linv n iters" for n iters
proof
  fix t ls l s s' and es :: "unit wakeup list" and q
  assume a: "t < length ls" "ls ! t = Some l" "ex1_linv n iters s ls" "increment_func t l s = (s', es, q)"
  have "l \<noteq> 0" using a(1,2,3) nth_mem [of t ls] by (auto simp: ex1_linv_def)
  moreover have "set (ls[t := x]) \<subseteq> insert x (set ls)" for x by (rule set_update_subset_insert)
  ultimately show "ex1_linv n iters s' (ls[t := label_of (after_leave q)])"
    using a todo_update [OF a(1,2)] by (fastforce simp: ex1_linv_def of_nat_diff split: if_splits)
qed

text \<open>
  The counter of \<open>ex1\<close>: under every schedule it never exceeds the number of increments of all
  threads together, and when all threads have returned it is exactly that number: no increment
  is lost.
\<close>

theorem ex1_no_lost_increment:
  assumes "exec (mon_step increment_func) (ex1_init n iters) sched = Some st" and "0 < iters"
  shows "mutex_ok st \<and> shared st \<le> int n * int iters \<and>
     ((\<forall>p\<in>set (threads st). p = Done) \<longrightarrow> shared st = int n * int iters)"
proof -
  have "map label_of (threads (ex1_init n iters)) = replicate n (Some iters)"
    by (auto simp: ex1_init_def mon_init_def intro!: nth_equalityI)
  moreover have "todo (replicate n (Some iters)) = int n * int iters"
    unfolding todo_def by (induction n) (auto simp: algebra_simps)
  ultimately have i: "mutex_ok (ex1_init n iters) \<and>
      ex1_linv n iters (shared (ex1_init n iters)) (map label_of (threads (ex1_init n iters)))"
    using assms(2) by (auto simp: ex1_linv_def ex1_init_def mon_init_mutex_ok) (simp_all add: mon_init_def)
  note inv = ex1.exec_inv [OF i assms(1)]
  have nn: "0 \<le> todo ls" for ls unfolding todo_def by (induction ls) (auto split: option.split)
  have "todo (map label_of (threads st)) = 0" if "\<forall>p\<in>set (threads st). p = Done"
    unfolding todo_def all_done_labels [OF that] by (simp add: sum_list_replicate)
  then show ?thesis using inv nn [of "map label_of (threads st)"] by (auto simp: ex1_linv_def)
qed

theorem ex1_no_lost_increment_witness: "shared \<lparr>shared = 2 :: int, threads = [Done, Done :: (unit, nat) thread], owner = None\<rparr> = int 2 * int 1"
proof -
  have "exec (mon_step increment_func) (ex1_init 2 1) [Lock 1, Segment 1 [], Lock 0, Segment 0 []] =
    Some \<lparr>shared = 2, threads = [Done, Done], owner = None\<rparr>" by code_simp
  from ex1_no_lost_increment [OF this] show ?thesis by simp
qed

section \<open>The turnstile of ex3 and ex4\<close>

record turnstile =
  turn :: int
  printed :: "nat list"

datatype gate = Gate

text \<open>
  \<open>routine\<close>: thread \<open>t\<close> has index \<open>t\<close>; entering and waking up continue with the same test.
\<close>

fun turn_routine :: "(gate, gate, turnstile) code" where
  "turn_routine t l s =
     (if int t \<noteq> turn s then (s, [], Wait Gate Gate)
      else (s\<lparr>turn := turn s + 1, printed := printed s @ [t]\<rparr>, [Broadcast Gate], Return))"

text \<open>The threads are started with \<open>turn\<close> as \<open>main\<close> has left it.\<close>

definition turn_start :: "int \<Rightarrow> nat \<Rightarrow> (gate, gate, turnstile) system" where
  "turn_start v n = mon_init (\<lambda>_. Gate) n \<lparr>turn = v, printed = []\<rparr>"

abbreviation turn_init :: "nat \<Rightarrow> (gate, gate, turnstile) system" where
  "turn_init n \<equiv> turn_start 0 n"

text \<open>
  Threads below the turn have returned, the others have not, and the thread whose turn it is
  does not sleep.
\<close>

definition turn_inv :: "nat \<Rightarrow> turnstile \<Rightarrow> (gate, gate) thread list \<Rightarrow> bool" where
  "turn_inv n s ps \<longleftrightarrow> length ps = n \<and> 0 \<le> turn s \<and> turn s \<le> int n \<and> printed s = [0..<nat (turn s)] \<and>
     (\<forall>t<n. (ps ! t = Done \<longleftrightarrow> int t < turn s) \<and> (is_asleep (ps ! t) \<longrightarrow> int t \<noteq> turn s))"

lemma turn_segment:
  assumes t: "t < length ps" "ps ! t = Inside l" and inv: "turn_inv n s ps"
    and step: "turn_routine t l s = (s', es, q)" and w: "wakeups es ws ps = Some ps'"
  shows "turn_inv n s' (ps'[t := after_leave q])"
proof (cases "int t = turn s")
  case True
  then have s': "s' = s\<lparr>turn := turn s + 1, printed := printed s @ [t]\<rparr>" "es = [Broadcast Gate]" "q = Return"
    using step by auto
  have ps': "ps' = map (\<lambda>p. if asleep_on Gate p then wake p else p) ps"
    using w s'(2) by (simp split: if_splits)
  have aw: "(if asleep_on Gate p then wake p else p) = Done \<longleftrightarrow> p = Done"
    "\<not> is_asleep (if asleep_on Gate p then wake p else p)" for p :: "(gate, gate) thread"
    by (cases p; auto; metis gate.exhaust)+
  have "[0..<nat (turn s + 1)] = [0..<nat (turn s)] @ [t]" using True by (simp add: nat_add_distrib flip: True)
  then show ?thesis
    using inv t True unfolding s' ps' turn_inv_def by (auto simp: nth_list_update aw)
next
  case False
  then have s': "s' = s" "es = []" "q = Wait Gate Gate" using step by auto
  then have "ps' = ps" using w by (simp split: if_splits)
  then show ?thesis using inv t False unfolding s' turn_inv_def by (auto simp: nth_list_update)
qed

interpretation turn: monitor turn_routine "turn_inv n" for n
proof
  show "turn_inv n s (ps[t := Inside l])" if "t < length ps" "ps ! t = Enter l" "turn_inv n s ps" for t ps l s
    using that by (auto simp: turn_inv_def nth_list_update)
  show "turn_inv n s (ps[t := Enter l])" if "t < length ps" "ps ! t = Asleep c l" "turn_inv n s ps" for t ps c l s
    using that by (auto simp: turn_inv_def nth_list_update)
qed (rule turn_segment)

lemma turn_init_inv: "mutex_ok (turn_init n) \<and> turn_inv n (shared (turn_init n)) (threads (turn_init n))"
  by (simp add: turn_start_def mon_init_mutex_ok) (simp add: turn_inv_def mon_init_def)

lemma turn_stuck:
  assumes "exec (mon_step turn_routine) (turn_init n) sched = Some st" "stuck turn_routine st"
  shows "printed (shared st) = [0..<n]"
proof -
  note inv = turn.exec_inv [OF turn_init_inv assms(1)]
  then have d: "is_asleep (threads st ! t) \<or> threads st ! t = Done" if "t < n" for t
    using assms(2) that by (auto simp: stuck_iff turn_inv_def)
  have "turn (shared st) = int n"
  proof (rule ccontr)
    assume "turn (shared st) \<noteq> int n"
    then have "nat (turn (shared st)) < n" "int (nat (turn (shared st))) = turn (shared st)"
      using inv by (auto simp: turn_inv_def)
    then show False using d [of "nat (turn (shared st))"] inv by (auto simp: turn_inv_def)
  qed
  then show ?thesis using inv by (simp add: turn_inv_def)
qed

text \<open>
  Under every schedule, spurious wakeups included, the threads of the turnstile print their
  numbers in order, and the program never deadlocks: where no thread can go on, all of them have
  printed.
\<close>

theorem turnstile_in_order:
  assumes "exec (mon_step turn_routine) (turn_init n) sched = Some st"
  shows "printed (shared st) = [0..<length (printed (shared st))] \<and> length (printed (shared st)) \<le> n \<and>
     (stuck turn_routine st \<longrightarrow> printed (shared st) = [0..<n])"
  using turn.exec_inv [OF turn_init_inv assms] turn_stuck [OF assms] by (auto simp: turn_inv_def)

theorem turnstile_in_order_witness:
  "printed \<lparr>turn = 2, printed = [0, 1]\<rparr> = [0..<length [0, 1 :: nat]]"
proof -
  have "exec (mon_step turn_routine) (turn_init 2) [Lock 1, Segment 1 [], Lock 0, Segment 0 [], Lock 1, Segment 1 []] =
    Some \<lparr>shared = \<lparr>turn = 2, printed = [0, 1]\<rparr>, threads = [Done, Done], owner = None\<rparr>" by code_simp
  from turnstile_in_order [OF this] show ?thesis by simp
qed

end
