(* ===== verification/WarmupMains.thy ===== *)
theory WarmupMains
  imports Warmup CString "HOL-Library.Sublist"
begin

text \<open>
  The programs \<open>ex1\<close>, \<open>ex3\<close> and \<open>ex4\<close> of \<open>pthreads-sync-code/warmup_ex\<close> from the creation of their threads to what
  they print and their exit status. The answers of \<open>malloc\<close>, \<open>pthread_create\<close> and \<open>pthread_join\<close> are functions of the
  number of the thread.
\<close>

section \<open>Creating and joining threads\<close>

text \<open>The loop that creates the threads, with the number of rounds left: the thread that could not be created, if any.\<close>

fun create_loop :: "(nat \<Rightarrow> bool) \<Rightarrow> (nat \<Rightarrow> int) \<Rightarrow> nat \<Rightarrow> nat \<Rightarrow> nat option outcome" where
  "create_loop mem create i 0 = Inr None"
| "create_loop mem create i (Suc k) =
     (if \<not> mem i then Inl NullDeref
      else if create i \<noteq> 0 then Inr (Some i)
      else create_loop mem create (Suc i) k)"

text \<open>The joins: whether all succeed; \<open>None\<close> while one of them waits.\<close>

fun join_loop :: "(nat \<Rightarrow> int) \<Rightarrow> ('c, 'l) thread list \<Rightarrow> nat \<Rightarrow> nat \<Rightarrow> bool option" where
  "join_loop join ps i 0 = Some True"
| "join_loop join ps i (Suc k) =
     (if join i \<noteq> 0 then Some False
      else (case ps ! i of Done \<Rightarrow> join_loop join ps (Suc i) k | _ \<Rightarrow> None))"

lemma join_loop_done:
  assumes "join_loop join ps 0 (length ps) = Some True"
  shows "\<forall>p\<in>set ps. p = Done"
proof -
  have "join_loop join ps i k = Some True \<Longrightarrow> \<forall>j. i \<le> j \<and> j < i + k \<longrightarrow> ps ! j = Done" for i k
  proof (induction k arbitrary: i)
    case (Suc k)
    then have "ps ! i = Done" "\<forall>j. Suc i \<le> j \<and> j < Suc i + k \<longrightarrow> ps ! j = Done"
      by (auto split: if_splits thread.splits)
    then show ?case by (metis Suc_leI add_Suc_shift le_neq_implies_less)
  qed auto
  from this [OF assms] show ?thesis by (auto simp: in_set_conv_nth)
qed

lemma done_join_loop:
  "\<forall>j. i \<le> j \<and> j < i + k \<longrightarrow> join j = 0 \<and> ps ! j = Done \<Longrightarrow> join_loop join ps i k = Some True"
  by (induction k arbitrary: i) auto

lemma join_loop_waits:
  "join_loop join ps i k = None \<Longrightarrow> \<exists>j. i \<le> j \<and> j < i + k \<and> ps ! j \<noteq> Done"
proof (induction k arbitrary: i)
  case (Suc k)
  show ?case
  proof (cases "ps ! i = Done")
    case True
    then have "join_loop join ps (Suc i) k = None" using Suc.prems by (auto split: if_splits)
    from Suc.IH [OF this] show ?thesis by (metis Suc_leD add_Suc_shift)
  qed auto
qed simp

lemma create_loop_bound: "create_loop mem create i k = Inr (Some j) \<Longrightarrow> i \<le> j \<and> j < i + k"
  by (induction k arbitrary: i) (fastforce split: if_splits)+

section \<open>The programs\<close>

text \<open>
  Where a program is after a schedule of its threads: \<open>Finished\<close>; \<open>main\<close> waits in \<open>pthread_join\<close> and some thread
  can go on (\<open>Going\<close>) or none can (\<open>Deadlocked\<close>); \<open>NoRun\<close>: the list is no schedule of these threads.
\<close>

datatype 'a progress = Finished 'a | Going | Deadlocked | NoRun

fun and_then :: "'a progress \<Rightarrow> ('a \<Rightarrow> 'b progress outcome) \<Rightarrow> 'b progress outcome" where
  "and_then (Finished x) f = f x"
| "and_then Going f = Inr Going"
| "and_then Deadlocked f = Inr Deadlocked"
| "and_then NoRun f = Inr NoRun"

text \<open>The joins in a state of the threads: whether all calls succeed.\<close>

definition await :: "(nat \<Rightarrow> int) \<Rightarrow> ('c, 'l, 's) system \<Rightarrow> nat \<Rightarrow> bool progress" where
  "await join st n =
     (case join_loop join (threads st) 0 n of
        Some ok \<Rightarrow> Finished ok
      | None \<Rightarrow> if list_all (\<lambda>p. is_asleep p \<or> p = Done) (threads st) then Deadlocked else Going)"

text \<open>
  The output and the exit status. When a thread cannot be created the program ends while the others are wherever the
  schedule has brought them.
\<close>

definition ex1_main :: "(nat \<Rightarrow> int) \<Rightarrow> (nat \<Rightarrow> int) \<Rightarrow> action list \<Rightarrow> (string \<times> int) progress outcome" where
  "ex1_main create join sched =
     seq (create_loop (\<lambda>i. True) create 0 10) (\<lambda>f.
       case exec (mon_step increment_func) (ex1_init (case f of None \<Rightarrow> 10 | Some i \<Rightarrow> i) 100000) sched of
         None \<Rightarrow> Inr NoRun
       | Some st \<Rightarrow>
           and_then (if f = None then await join st 10 else Finished False) (\<lambda>ok.
             Inr (Finished (if ok then (''Final value of global: '' @ show_int (shared st) @ [nl], 0) else ([], 1)))))"

definition N :: nat where "N = 10"

text \<open>What the thread with a number prints when it is its turn.\<close>

definition ex3_text :: "nat \<Rightarrow> string" where
  "ex3_text t = ''I am thread '' @ show_int (int t) @ ''.'' @ [nl]"

definition ex4_text :: "nat \<Rightarrow> string" where
  "ex4_text t = show_int (int t) @ '' ''"

text \<open>
  Creating and joining the threads of one turnstile, \<open>turn\<close> being \<open>v\<close>: who has printed, what \<open>turn\<close> is afterwards,
  and whether all calls succeeded.
\<close>

definition turn_round ::
    "(nat \<Rightarrow> bool) \<Rightarrow> (nat \<Rightarrow> int) \<Rightarrow> (nat \<Rightarrow> int) \<Rightarrow> action list \<Rightarrow> int \<Rightarrow> (nat list \<times> int \<times> bool) progress outcome"
where
  "turn_round mem create join sched v =
     seq (create_loop mem create 0 N) (\<lambda>f.
       case exec (mon_step turn_routine) (turn_start v (case f of None \<Rightarrow> N | Some i \<Rightarrow> i)) sched of
         None \<Rightarrow> Inr NoRun
       | Some st \<Rightarrow>
           and_then (if f = None then await join st N else Finished False)
             (\<lambda>ok. Inr (Finished (printed (shared st), turn (shared st), ok))))"

definition ex3_main ::
    "(nat \<Rightarrow> bool) \<Rightarrow> (nat \<Rightarrow> int) \<Rightarrow> (nat \<Rightarrow> int) \<Rightarrow> action list \<Rightarrow> (string \<times> int) progress outcome"
where
  "ex3_main mem create join sched =
     seq (turn_round mem create join sched 0) (\<lambda>r.
       and_then r (\<lambda>(ts, v, ok). Inr (Finished (concat (map ex3_text ts), if ok then 0 else 1))))"

text \<open>
  \<open>ex4\<close> does this in every round of its loop, which sets \<open>turn\<close> back first; \<open>v\<close> is \<open>turn\<close> as the round before has
  left it and \<open>out\<close> what was printed before.
\<close>

fun ex4_loop ::
    "(nat \<Rightarrow> (nat \<Rightarrow> bool) \<times> (nat \<Rightarrow> int) \<times> (nat \<Rightarrow> int) \<times> action list) \<Rightarrow> nat \<Rightarrow> nat \<Rightarrow> int \<Rightarrow> string \<Rightarrow>
       (string \<times> int) progress outcome"
where
  "ex4_loop env j 0 v out = Inr (Finished (out, 0))"
| "ex4_loop env j (Suc k) v out =
     (case env j of (mem, create, join, sched) \<Rightarrow>
        let v = 0 in
        seq (turn_round mem create join sched v) (\<lambda>r.
          and_then r (\<lambda>(ts, v, ok).
            (let out = out @ concat (map ex4_text ts) in
             if ok then ex4_loop env (Suc j) k v (out @ [nl]) else Inr (Finished (out, 1))))))"

definition ex4_main :: "(nat \<Rightarrow> (nat \<Rightarrow> bool) \<times> (nat \<Rightarrow> int) \<times> (nat \<Rightarrow> int) \<times> action list) \<Rightarrow> (string \<times> int) progress outcome" where
  "ex4_main env = ex4_loop env 0 N 0 []"

section \<open>What is printed\<close>

interpretation turn_ends: weighted_code turn_routine "\<lambda>_. 1"
  by unfold_locales (auto split: if_splits)

interpretation ex1_ends: weighted_code increment_func "\<lambda>k. max 1 k"
  by unfold_locales (auto split: if_splits)

lemma and_then_Finished: "and_then r f = Inr (Finished y) \<longleftrightarrow> (\<exists>x. r = Finished x \<and> f x = Inr (Finished y))"
  by (cases r) auto

lemma and_then_Deadlocked: "and_then r f = Inr Deadlocked \<longleftrightarrow> r = Deadlocked \<or> (\<exists>x. r = Finished x \<and> f x = Inr Deadlocked)"
  by (cases r) auto

lemma await_Finished: "await join st n = Finished ok \<longleftrightarrow> join_loop join (threads st) 0 n = Some ok"
  by (auto simp: await_def split: option.splits if_splits)

lemma await_not_NoRun: "await join st n \<noteq> NoRun"
  by (auto simp: await_def split: option.splits if_splits)

text \<open>A deadlock at the joins: no thread can go on, and one of them has not returned.\<close>

lemma await_Deadlocked:
  assumes "await join st n = Deadlocked" "mutex_ok st"
  shows "stuck body st" "\<exists>t<n. threads st ! t \<noteq> Done"
  using assms join_loop_waits [of join "threads st" 0 n]
  by (auto simp: await_def stuck_iff list_all_iff split: option.splits if_splits)

abbreviation full_line :: string where
  "full_line \<equiv> ''0 1 2 3 4 5 6 7 8 9 ''"

lemma full_text: "concat (map ex4_text [0..<N]) = full_line"
  by code_simp

lemma text_prefix: "i \<le> n \<Longrightarrow> prefix (concat (map f [0..<i])) (concat (map f [0..<n]))"
  using upt_add_eq_append [of 0 i "n - i"] by (auto simp: prefix_def)

lemma turn_all_returned:
  assumes "exec (mon_step turn_routine) (turn_init n) sched = Some st" and "stuck turn_routine st"
  shows "printed (shared st) = [0..<n]" "\<forall>t<n. threads st ! t = Done"
proof -
  show p: "printed (shared st) = [0..<n]" using turn_stuck [OF assms] .
  have inv: "turn_inv n (shared st) (threads st)" using turn.exec_inv [OF turn_init_inv assms(1)] by simp
  then have "length [0..<nat (turn (shared st))] = length [0..<n]" "0 \<le> turn (shared st)" using p by (simp_all add: turn_inv_def)
  then have "turn (shared st) = int n" by simp
  then show "\<forall>t<n. threads st ! t = Done" using inv by (simp add: turn_inv_def)
qed

lemma turn_round_run:
  assumes "turn_round mem create join sched 0 = Inr r" "r \<noteq> NoRun"
  obtains f st where "create_loop mem create 0 N = Inr f" "(case f of None \<Rightarrow> N | Some i \<Rightarrow> i) \<le> N"
    "exec (mon_step turn_routine) (turn_init (case f of None \<Rightarrow> N | Some i \<Rightarrow> i)) sched = Some st"
    "and_then (if f = None then await join st N else Finished False)
       (\<lambda>ok. Inr (Finished (printed (shared st), turn (shared st), ok))) = Inr r"
proof -
  obtain f where f: "create_loop mem create 0 N = Inr f" using assms by (auto simp: turn_round_def seq_Inr)
  moreover have "(case f of None \<Rightarrow> N | Some i \<Rightarrow> i) \<le> N"
    using create_loop_bound [of mem create 0 N] f by (auto split: option.split)
  ultimately show ?thesis using assms that by (auto simp: turn_round_def split: option.splits)
qed

lemma turn_round_never_deadlocked: "turn_round mem create join sched 0 \<noteq> Inr Deadlocked"
proof
  assume "turn_round mem create join sched 0 = Inr Deadlocked"
  then obtain f st where st: "exec (mon_step turn_routine) (turn_init (case f of None \<Rightarrow> N | Some i \<Rightarrow> i)) sched = Some st"
    "f = None" "await join st N = Deadlocked"
    by (elim turn_round_run) (auto simp: and_then_Deadlocked split: if_splits)
  then have run: "exec (mon_step turn_routine) (turn_init N) sched = Some st" by simp
  have "mutex_ok st" using turn.exec_inv [OF turn_init_inv run] by simp
  from await_Deadlocked [OF st(3) this] turn_all_returned(2) [OF run] show False by blast
qed

lemma turn_round_length:
  assumes "turn_round mem create join sched 0 = Inr r" "r \<noteq> NoRun"
  shows "length sched \<le> 240 + 3 * spurious_count sched"
proof -
  from assms obtain n st where n: "n \<le> N" "exec (mon_step turn_routine) (turn_init n) sched = Some st"
    by (elim turn_round_run) blast
  have "(2 * n + 2) * n + 2 * n \<le> (2 * 10 + 2) * 10 + 2 * 10" using n(1) unfolding N_def by (intro add_mono mult_le_mono) simp_all
  then show ?thesis
    using turn_ends.any_run_bound [OF n(2) [unfolded turn_start_def]] by (simp add: sum_list_replicate map_replicate_const)
qed

lemma turn_done:
  assumes "exec (mon_step turn_routine) (turn_init n) sched = Some st" and "\<forall>p\<in>set (threads st). p = Done"
  shows "printed (shared st) = [0..<n]"
  using turn_stuck [OF assms(1)] turn.exec_inv [OF turn_init_inv assms(1)] assms(2) by (simp add: stuck_iff)

lemma turn_round_prints:
  assumes "turn_round mem create join sched 0 = Inr (Finished (ts, v, ok))"
  shows "prefix (concat (map g ts)) (concat (map g [0..<N]))" "ok \<Longrightarrow> ts = [0..<N]"
proof -
  from assms obtain f st where f: "(case f of None \<Rightarrow> N | Some i \<Rightarrow> i) \<le> N"
    and st: "exec (mon_step turn_routine) (turn_init (case f of None \<Rightarrow> N | Some i \<Rightarrow> i)) sched = Some st"
    "ts = printed (shared st)" "(if f = None then await join st N else Finished False) = Finished ok"
    by (elim turn_round_run) (auto simp: and_then_Finished)
  let ?n = "case f of None \<Rightarrow> N | Some i \<Rightarrow> i"
  have inv: "turn_inv ?n (shared st) (threads st)" using turn.exec_inv [OF turn_init_inv st(1)] by simp
  then show "prefix (concat (map g ts)) (concat (map g [0..<N]))"
    using f text_prefix [of "nat (turn (shared st))" N] unfolding st(2) by (simp add: turn_inv_def nat_le_iff)
  show "ts = [0..<N]" if "ok"
  proof -
    from that st(3) have "f = None" "join_loop join (threads st) 0 N = Some True" by (auto simp: await_Finished split: if_splits)
    moreover from this inv have "length (threads st) = N" by (simp add: turn_inv_def)
    ultimately show ?thesis using turn_done [of N sched st] join_loop_done [of join "threads st"] st(1,2) by simp
  qed
qed

lemma ex4_loop_prints:
  "ex4_loop env j k v out = Inr (Finished (out', c)) \<Longrightarrow>
     prefix out' (out @ concat (replicate k (full_line @ [nl]))) \<and>
     (if c = 0 then out' = out @ concat (replicate k (full_line @ [nl])) else c = 1)"
proof (induction k arbitrary: j v out)
  case (Suc k)
  obtain mem create join sched where e: "env j = (mem, create, join, sched)" by (metis prod_cases4)
  obtain ts v' ok where r: "turn_round mem create join sched 0 = Inr (Finished (ts, v', ok))"
    "(if ok then ex4_loop env (Suc j) k v' ((out @ concat (map ex4_text ts)) @ [nl])
      else Inr (Finished (out @ concat (map ex4_text ts), 1))) = Inr (Finished (out', c))"
    using Suc.prems e by (auto simp: seq_Inr Let_def and_then_Finished)
  note line = turn_round_prints [OF r(1)]
  show ?case
  proof (cases ok)
    case True
    then have "concat (map ex4_text ts) = full_line" using line(2) full_text by simp
    then show ?thesis using Suc.IH [of "Suc j" v' "out @ full_line @ [nl]"] r(2) True by simp
  next
    case False
    then have "out' = out @ concat (map ex4_text ts)" "c = 1" using r(2) by auto
    moreover have "prefix (concat (map ex4_text ts)) (full_line @ [nl] @ concat (replicate k (full_line @ [nl])))"
      using line(1) [of ex4_text] unfolding full_text by (rule prefix_prefix)
    ultimately show ?thesis by simp
  qed
qed simp

lemma ex4_loop_never_deadlocked: "ex4_loop env j k v out \<noteq> Inr Deadlocked"
proof (induction k arbitrary: j v out)
  case (Suc k)
  obtain mem create join sched where e: "env j = (mem, create, join, sched)" by (metis prod_cases4)
  show ?case using turn_round_never_deadlocked [of mem create join sched] Suc.IH e
    by (auto simp: seq_Inr and_then_Deadlocked Let_def)
qed simp

lemma ex1_main_run:
  assumes "ex1_main create join sched = Inr r" "r \<noteq> NoRun"
  obtains f st where "create_loop (\<lambda>i. True) create 0 10 = Inr f" "(case f of None \<Rightarrow> 10 | Some i \<Rightarrow> i) \<le> 10"
    "exec (mon_step increment_func) (ex1_init (case f of None \<Rightarrow> 10 | Some i \<Rightarrow> i) 100000) sched = Some st"
    "and_then (if f = None then await join st 10 else Finished False)
       (\<lambda>ok. Inr (Finished (if ok then (''Final value of global: '' @ show_int (shared st) @ [nl], 0) else ([], 1)))) = Inr r"
proof -
  obtain f where f: "create_loop (\<lambda>i. True) create 0 10 = Inr f" using assms by (auto simp: ex1_main_def seq_Inr)
  moreover have "(case f of None \<Rightarrow> 10 | Some i \<Rightarrow> i) \<le> 10"
    using create_loop_bound [of "\<lambda>i. True" create 0 10] f by (auto split: option.split)
  ultimately show ?thesis using assms that by (auto simp: ex1_main_def split: option.splits)
qed

lemma ex1_main_prints:
  assumes "ex1_main create join sched = Inr (Finished (out, c))"
  shows "if c = 0 then out = ''Final value of global: 1000000'' @ [nl] else c = 1 \<and> out = []"
proof -
  from assms obtain f st ok where st:
    "exec (mon_step increment_func) (ex1_init (case f of None \<Rightarrow> 10 | Some i \<Rightarrow> i) 100000) sched = Some st"
    "(if f = None then await join st 10 else Finished False) = Finished ok"
    "(out, c) = (if ok then (''Final value of global: '' @ show_int (shared st) @ [nl], 0) else ([], 1))"
    by (elim ex1_main_run) (auto simp: and_then_Finished)
  show ?thesis
  proof (cases ok)
    case ok: True
    then have f: "f = None" "join_loop join (threads st) 0 10 = Some True" using st(2) by (auto simp: await_Finished split: if_splits)
    then have run: "exec (mon_step increment_func) (ex1_init 10 100000) sched = Some st" using st(1) by simp
    have "length (threads st) = 10" using exec_threads_length [OF run] by (simp add: ex1_init_def mon_init_def)
    then have "shared st = 1000000" using ex1_no_lost_increment [OF run] join_loop_done [of join "threads st"] f(2) by simp
    moreover have "show_int 1000000 = ''1000000''"
      by (simp add: show_int_def show_nat.simps digit_char_def) code_simp
    ultimately show ?thesis using st(3) ok by simp
  qed (use st(3) in simp)
qed

text \<open>The threads of \<open>ex1\<close> never wait for a condition variable.\<close>

interpretation ex1_awake: monitor increment_func "\<lambda>s ps. \<forall>p\<in>set ps. \<not> is_asleep p"
proof
  show "\<forall>p\<in>set (ps[t := Inside l]). \<not> is_asleep p" if "\<forall>p\<in>set ps. \<not> is_asleep p" for t l and ps :: "(unit, nat) thread list"
    using that set_update_subset_insert [of ps t "Inside l"] by auto
  show "\<forall>p\<in>set (ps[t := Enter l]). \<not> is_asleep p" if "\<forall>p\<in>set ps. \<not> is_asleep p" for t l and ps :: "(unit, nat) thread list"
    using that set_update_subset_insert [of ps t "Enter l"] by auto
  show "\<forall>p\<in>set (ps'[t := after_leave q]). \<not> is_asleep p"
    if "\<forall>p\<in>set ps. \<not> is_asleep p" "increment_func t l s = (s', es, q)" "wakeups es ws ps = Some ps'"
    for t l s s' es q ws and ps ps' :: "(unit, nat) thread list"
  proof -
    have "ps' = ps" "\<not> is_asleep (after_leave q)" using that(2,3) by (auto split: if_splits)
    then show ?thesis using that(1) set_update_subset_insert [of ps t "after_leave q"] by auto
  qed
qed

lemma ex1_main_never_deadlocked: "ex1_main create join sched \<noteq> Inr Deadlocked"
proof
  assume "ex1_main create join sched = Inr Deadlocked"
  then obtain f st where st: "exec (mon_step increment_func) (ex1_init (case f of None \<Rightarrow> 10 | Some i \<Rightarrow> i) 100000) sched = Some st"
    "f = None" "await join st 10 = Deadlocked"
    by (elim ex1_main_run) (auto simp: and_then_Deadlocked split: if_splits)
  then have run: "exec (mon_step increment_func) (ex1_init 10 100000) sched = Some st" by simp
  have "mutex_ok (ex1_init 10 100000) \<and> (\<forall>p\<in>set (threads (ex1_init 10 100000)). \<not> is_asleep p)"
    by (auto simp: ex1_init_def mon_init_mutex_ok) (auto simp: mon_init_def)
  from ex1_awake.exec_inv [OF this run] have ok: "mutex_ok st" "\<forall>p\<in>set (threads st). \<not> is_asleep p" by blast+
  from await_Deadlocked [OF st(3) ok(1)] obtain t where t: "stuck increment_func st" "t < 10" "threads st ! t \<noteq> Done" by blast
  have "length (threads st) = 10" using exec_threads_length [OF run] by (simp add: ex1_init_def mon_init_def)
  then show False using t ok stuck_iff [OF ok(1), of increment_func] by (auto dest: nth_mem)
qed

lemma ex1_main_length:
  assumes "ex1_main create join sched = Inr r" "r \<noteq> NoRun"
  shows "length sched \<le> 22000020 + 3 * spurious_count sched"
proof -
  from assms obtain n st where n: "n \<le> 10" "exec (mon_step increment_func) (ex1_init n 100000) sched = Some st"
    by (elim ex1_main_run) blast
  have "(2 * n + 2) * (n * 100000) + 2 * n \<le> (2 * 10 + 2) * (10 * 100000) + 2 * 10" using n(1) by (intro add_mono mult_le_mono) simp_all
  then show ?thesis
    using ex1_ends.any_run_bound [OF n(2) [unfolded ex1_init_def]] by (simp add: sum_list_replicate map_replicate_const)
qed

lemma ex4_loop_lengths:
  assumes "ex4_loop env j k v out = Inr (Finished (out', 0))" "j \<le> i" "i < j + k" "env i = (mem, create, join, sched)"
  shows "length sched \<le> 240 + 3 * spurious_count sched"
  using assms(1-3)
proof (induction k arbitrary: j v out)
  case (Suc k)
  obtain mem' create' join' sched' where e: "env j = (mem', create', join', sched')" by (metis prod_cases4)
  obtain ts v' ok where r: "turn_round mem' create' join' sched' 0 = Inr (Finished (ts, v', ok))"
    "(if ok then ex4_loop env (Suc j) k v' ((out @ concat (map ex4_text ts)) @ [nl])
      else Inr (Finished (out @ concat (map ex4_text ts), 1))) = Inr (Finished (out', 0))"
    using Suc.prems(1) e by (auto simp: seq_Inr Let_def and_then_Finished)
  show ?case
  proof (cases "i = j")
    case True
    then show ?thesis using turn_round_length [OF r(1)] e assms(4) by simp
  next
    case False
    moreover have "ok" using r(2) by (cases ok) simp_all
    ultimately show ?thesis using Suc.IH [of "Suc j" v'] r(2) Suc.prems(2,3) by simp
  qed
qed simp

section \<open>Properties\<close>



end
