(* ===== verification/ArgPassing.thy ===== *)
theory ArgPassing
  imports Lab_Prelude "HOL-Library.Multiset"
begin

text \<open>
  \<open>pthreads-sync-code/warmup_ex/ex2.c\<close>: ten threads that get their number through a cell of the heap which
  each of them frees. The steps of \<open>main\<close> and of the threads interleave in any order; an address that
  was freed may be handed out again.
\<close>

section \<open>The program\<close>

definition THREADS :: nat where "THREADS = 10"

text \<open>\<open>routine\<close>: before it reads its cell, before its line, before \<open>free\<close>, returned.\<close>

datatype routine_pc = RStart | RPrint int | RFree | RDone

datatype main_pc = MCreate nat | MJoin nat | MReturned | MExited

text \<open>A line of the terminal: the thread that printed it and the number it shows.\<close>

datatype line = ThreadLine nat int | MainLine

text \<open>
  \<open>cells a\<close>: the number in the allocated cell \<open>a\<close>, and the thread the cell was allocated for. \<open>bad\<close>: a
  thread read or freed a cell that is not allocated, or that is allocated for another thread by now.
\<close>

record ex2 =
  cells :: "addr \<Rightarrow> (int \<times> nat) option"
  args :: "addr list"
  threads :: "routine_pc list"
  main :: main_pc
  shown :: "line list"
  bad :: bool

definition ex2_init :: ex2 where
  "ex2_init = \<lparr>cells = (\<lambda>a. None), args = [], threads = [], main = MCreate 0, shown = [], bad = False\<rparr>"

text \<open>
  A step of \<open>main\<close>, with what \<open>malloc\<close> returns if it is called and whether \<open>pthread_create\<close> or \<open>pthread_join\<close>
  succeeds. A join waits for the thread to return. A null pointer from \<open>malloc\<close> is written through.
\<close>

definition main_step :: "addr \<Rightarrow> bool \<Rightarrow> ex2 \<Rightarrow> ex2 option" where
  "main_step a ok st =
     (case main st of
        MCreate i \<Rightarrow>
          if cells st a \<noteq> None then None
          else if a = NULL then Some (st\<lparr>main := MExited, bad := True\<rparr>)
          else if \<not> ok then Some (st\<lparr>cells := (cells st)(a \<mapsto> (int i, i)), main := MExited\<rparr>)
          else Some (st\<lparr>cells := (cells st)(a \<mapsto> (int i, i)), args := args st @ [a], threads := threads st @ [RStart],
                        main := (if Suc i < THREADS then MCreate (Suc i) else MJoin 0)\<rparr>)
      | MJoin i \<Rightarrow>
          if i < THREADS then
            (if \<not> ok then Some (st\<lparr>main := MExited\<rparr>)
             else if threads st ! i = RDone then Some (st\<lparr>main := MJoin (Suc i)\<rparr>) else None)
          else Some (st\<lparr>shown := shown st @ [MainLine], main := MReturned\<rparr>)
      | MReturned \<Rightarrow> None
      | MExited \<Rightarrow> None)"

definition routine_step :: "nat \<Rightarrow> ex2 \<Rightarrow> ex2 option" where
  "routine_step t st =
     (if t < length (threads st) \<and> main st \<noteq> MReturned \<and> main st \<noteq> MExited then
        (case threads st ! t of
           RStart \<Rightarrow>
             (case cells st (args st ! t) of
                None \<Rightarrow> Some (st\<lparr>threads := (threads st)[t := RDone], bad := True\<rparr>)
              | Some (v, u) \<Rightarrow> Some (st\<lparr>threads := (threads st)[t := RPrint v], bad := (bad st \<or> u \<noteq> t)\<rparr>))
         | RPrint v \<Rightarrow> Some (st\<lparr>threads := (threads st)[t := RFree], shown := shown st @ [ThreadLine t v]\<rparr>)
         | RFree \<Rightarrow>
             Some (st\<lparr>threads := (threads st)[t := RDone], cells := (cells st)(args st ! t := None),
                      bad := (bad st \<or> map_option snd (cells st (args st ! t)) \<noteq> Some t)\<rparr>)
         | RDone \<Rightarrow> None)
      else None)"

datatype ex2_action = Main addr bool | Thread nat

fun ex2_step :: "ex2_action \<Rightarrow> ex2 \<Rightarrow> ex2 option" where
  "ex2_step (Main a ok) st = main_step a ok st"
| "ex2_step (Thread t) st = routine_step t st"

section \<open>The invariant\<close>

definition created :: "main_pc \<Rightarrow> ex2 \<Rightarrow> bool" where
  "created p st \<longleftrightarrow>
     (case p of
        MCreate i \<Rightarrow> length (threads st) = i \<and> i < THREADS
      | MJoin i \<Rightarrow> length (threads st) = THREADS \<and> i \<le> THREADS \<and> (\<forall>t<i. threads st ! t = RDone)
      | MReturned \<Rightarrow> length (threads st) = THREADS \<and> (\<forall>t<THREADS. threads st ! t = RDone)
      | MExited \<Rightarrow> length (threads st) \<le> THREADS)"

definition cells_ok :: "ex2 \<Rightarrow> bool" where
  "cells_ok st \<longleftrightarrow> length (args st) = length (threads st) \<and>
     (\<forall>t<length (threads st). threads st ! t \<noteq> RDone \<longrightarrow> cells st (args st ! t) = Some (int t, t)) \<and>
     (\<forall>t<length (threads st). \<forall>v. threads st ! t = RPrint v \<longrightarrow> v = int t)"

text \<open>The numbers of the threads that have printed.\<close>

definition printed :: "routine_pc list \<Rightarrow> nat multiset" where
  "printed ps = filter_mset (\<lambda>t. ps ! t = RFree \<or> ps ! t = RDone) (mset [0..<length ps])"

definition ex2_inv :: "ex2 \<Rightarrow> bool" where
  "ex2_inv st \<longleftrightarrow> \<not> bad st \<and> cells_ok st \<and> created (main st) st \<and>
     (\<exists>vs. shown st = map (\<lambda>t. ThreadLine t (int t)) vs @ (if main st = MReturned then [MainLine] else []) \<and>
        mset vs = printed (threads st))"

lemma printed_set: "printed ps = mset_set {t. t < length ps \<and> (ps ! t = RFree \<or> ps ! t = RDone)}"
proof -
  have "{t \<in> {0..<length ps}. ps ! t = RFree \<or> ps ! t = RDone} = {t. t < length ps \<and> (ps ! t = RFree \<or> ps ! t = RDone)}" by auto
  then show ?thesis by (simp add: printed_def mset_upt)
qed

lemma printed_update:
  assumes "t < length ps"
  shows "ps ! t = RStart \<Longrightarrow> printed (ps[t := RPrint v]) = printed ps"
    "ps ! t = RPrint v \<Longrightarrow> printed (ps[t := RFree]) = add_mset t (printed ps)"
    "ps ! t = RFree \<Longrightarrow> printed (ps[t := RDone]) = printed ps"
proof -
  let ?P = "\<lambda>ps. {t. t < length ps \<and> (ps ! t = RFree \<or> ps ! t = RDone)}"
  have "?P (ps[t := RPrint v]) = ?P ps" if "ps ! t = RStart" using assms that by (auto simp: nth_list_update)
  then show "ps ! t = RStart \<Longrightarrow> printed (ps[t := RPrint v]) = printed ps" by (simp add: printed_set)
  have "?P (ps[t := RDone]) = ?P ps" if "ps ! t = RFree" using assms that by (auto simp: nth_list_update)
  then show "ps ! t = RFree \<Longrightarrow> printed (ps[t := RDone]) = printed ps" by (simp add: printed_set)
  have "?P (ps[t := RFree]) = insert t (?P ps)" "t \<notin> ?P ps" if "ps ! t = RPrint v" using assms that by (auto simp: nth_list_update)
  then show "ps ! t = RPrint v \<Longrightarrow> printed (ps[t := RFree]) = add_mset t (printed ps)" by (simp add: printed_set)
qed

lemma printed_new: "printed (ps @ [RStart]) = printed ps"
proof -
  have "{t. t < length (ps @ [RStart]) \<and> ((ps @ [RStart]) ! t = RFree \<or> (ps @ [RStart]) ! t = RDone)} =
      {t. t < length ps \<and> (ps ! t = RFree \<or> ps ! t = RDone)}" by (auto simp: nth_append less_Suc_eq split: if_splits)
  then show ?thesis by (simp only: printed_set)
qed

lemma created_cong: "threads st' = threads st \<Longrightarrow> created p st' = created p st"
  by (cases p) (simp_all add: created_def)

lemma ex2_invI:
  assumes "\<not> bad st" "cells_ok st" "created (main st) st" "main st \<noteq> MReturned"
    "shown st = map (\<lambda>t. ThreadLine t (int t)) vs" "mset vs = printed (threads st)"
  shows "ex2_inv st"
  unfolding ex2_inv_def using assms by auto

lemma printed_all: "\<forall>t<length ps. ps ! t = RDone \<Longrightarrow> printed ps = mset [0..<length ps]"
proof -
  assume "\<forall>t<length ps. ps ! t = RDone"
  then have "{t. t < length ps \<and> (ps ! t = RFree \<or> ps ! t = RDone)} = {0..<length ps}" by auto
  then show ?thesis by (simp only: printed_set mset_upt)
qed

lemma main_inv:
  assumes inv: "ex2_inv st" and a: "a \<noteq> NULL" and step: "main_step a ok st = Some st'"
  shows "ex2_inv st'"
proof -
  have b: "\<not> bad st" "cells_ok st" "created (main st) st" using inv by (simp_all add: ex2_inv_def)
  obtain vs where vs: "shown st = map (\<lambda>t. ThreadLine t (int t)) vs @ (if main st = MReturned then [MainLine] else [])"
    "mset vs = printed (threads st)" using inv by (auto simp: ex2_inv_def)
  show ?thesis
  proof (cases "main st")
    case (MCreate i)
    have i: "length (threads st) = i" "i < THREADS" "cells st a = None"
      using b(3) MCreate step by (simp_all add: created_def main_step_def del: not_None_eq split: if_splits)
    show ?thesis
    proof (cases ok)
      case True
      have st': "st' = st\<lparr>cells := (cells st)(a \<mapsto> (int i, i)), args := args st @ [a], threads := threads st @ [RStart],
          main := (if Suc i < THREADS then MCreate (Suc i) else MJoin 0)\<rparr>"
        using step MCreate i a True by (simp add: main_step_def)
      have "cells_ok st'" using b(2) i by (auto simp: cells_ok_def st' nth_append less_Suc_eq)
      moreover have "created (main st') st'" using i by (simp add: st' created_def)
      ultimately show ?thesis
        using b(1) vs MCreate printed_new [of "threads st"] by (intro ex2_invI [of st' vs]) (simp_all add: st')
    next
      case False
      have st': "st' = st\<lparr>cells := (cells st)(a \<mapsto> (int i, i)), main := MExited\<rparr>"
        using step MCreate i a False by (simp add: main_step_def)
      have "cells_ok st'" using b(2) i by (auto simp: cells_ok_def st')
      then show ?thesis using b(1) i vs MCreate by (intro ex2_invI [of st' vs]) (simp_all add: st' created_def)
    qed
  next
    case (MJoin i)
    show ?thesis
    proof (cases "i < THREADS")
      case True
      then have st': "st' = st\<lparr>main := MExited\<rparr> \<or> st' = st\<lparr>main := MJoin (Suc i)\<rparr> \<and> threads st ! i = RDone"
        using step MJoin by (auto simp: main_step_def split: if_splits)
      then have "main st' \<noteq> MReturned" "created (main st') st'" "cells_ok st'" "\<not> bad st'"
        using b MJoin True by (auto simp: created_def cells_ok_def less_Suc_eq)
      then show ?thesis using vs MJoin st' by (intro ex2_invI [of st' vs]) auto
    next
      case False
      then have st': "st' = st\<lparr>shown := shown st @ [MainLine], main := MReturned\<rparr>" using step MJoin by (simp add: main_step_def)
      have "created (main st') st'" "cells_ok st'" "\<not> bad st'" using b MJoin False by (simp_all add: st' created_def cells_ok_def)
      then show ?thesis using vs MJoin by (auto simp: ex2_inv_def st')
    qed
  qed (use step in \<open>simp_all add: main_step_def\<close>)
qed

lemma routine_inv:
  assumes inv: "ex2_inv st" and step: "routine_step t st = Some st'"
  shows "ex2_inv st'"
proof -
  have b: "\<not> bad st" "cells_ok st" "created (main st) st" using inv by (simp_all add: ex2_inv_def)
  have m: "main st \<noteq> MReturned" "t < length (threads st)" using step by (auto simp: routine_step_def split: if_splits)
  obtain vs where vs: "shown st = map (\<lambda>t. ThreadLine t (int t)) vs" "mset vs = printed (threads st)"
    using inv m(1) by (auto simp: ex2_inv_def)
  have cell: "cells st (args st ! u) = Some (int u, u)" if "u < length (threads st)" "threads st ! u \<noteq> RDone" for u
    using b(2) that by (simp add: cells_ok_def)
  have done_keep: "created (main st) (st\<lparr>threads := (threads st)[t := p]\<rparr>)" if "threads st ! t \<noteq> RDone" for p
    using b(3) that m(2) by (auto simp: created_def nth_list_update split: main_pc.splits)
  show ?thesis
  proof (cases "threads st ! t")
    case RStart
    then have st': "st' = st\<lparr>threads := (threads st)[t := RPrint (int t)]\<rparr>"
      using step cell [of t] m by (simp add: routine_step_def split: if_splits)
    have "cells_ok st'" using b(2) m(2) RStart by (auto simp: cells_ok_def st' nth_list_update)
    moreover have "created (main st') st'" using done_keep [of "RPrint (int t)"] RStart by (simp add: st')
    ultimately show ?thesis
      using b(1) vs m(1) printed_update(1) [OF m(2) RStart] by (intro ex2_invI [of st' vs]) (simp_all add: st')
  next
    case (RPrint v)
    then have v: "v = int t" using b(2) m(2) by (simp add: cells_ok_def)
    then have st': "st' = st\<lparr>threads := (threads st)[t := RFree], shown := shown st @ [ThreadLine t (int t)]\<rparr>"
      using step RPrint by (simp add: routine_step_def split: if_splits)
    have "cells_ok st'" using b(2) m(2) RPrint by (auto simp: cells_ok_def st' nth_list_update)
    moreover have "shown st' = map (\<lambda>t. ThreadLine t (int t)) (vs @ [t])" using vs(1) by (simp add: st')
    moreover have "mset (vs @ [t]) = printed (threads st')" using printed_update(2) [OF m(2) RPrint] vs(2) by (simp add: st')
    moreover have "created (main st') st'" using done_keep [of RFree] RPrint
      created_cong [of st' "st\<lparr>threads := (threads st)[t := RFree]\<rparr>"] by (simp add: st')
    ultimately show ?thesis using b(1) m(1) by (intro ex2_invI [of st' "vs @ [t]"]) (simp_all add: st')
  next
    case RFree
    have c: "cells st (args st ! t) = Some (int t, t)" using cell [of t] m(2) RFree by simp
    then have st': "st' = st\<lparr>threads := (threads st)[t := RDone], cells := (cells st)(args st ! t := None), bad := False\<rparr>"
      using step RFree b(1) by (simp add: routine_step_def split: if_splits)
    have "args st ! u \<noteq> args st ! t" if "u < length (threads st)" "threads st ! u \<noteq> RDone" "u \<noteq> t" for u
      using cell [OF that(1,2)] c that(3) by auto
    then have "cells_ok st'" using b(2) m(2) by (auto simp: cells_ok_def st' nth_list_update)
    moreover have "created (main st') st'" using done_keep [of RDone] RFree
      created_cong [of st' "st\<lparr>threads := (threads st)[t := RDone]\<rparr>"] by (simp add: st')
    ultimately show ?thesis
      using b(1) vs m(1) printed_update(3) [OF m(2) RFree] by (intro ex2_invI [of st' vs]) (simp_all add: st')
  next
    case RDone
    then show ?thesis using step by (simp add: routine_step_def split: if_splits)
  qed
qed

text \<open>Runs in which \<open>malloc\<close> does not fail.\<close>

definition good_step :: "ex2_action \<Rightarrow> ex2 \<Rightarrow> ex2 option" where
  "good_step x st = (case x of Main a ok \<Rightarrow> (if a = NULL then None else main_step a ok st) | Thread t \<Rightarrow> routine_step t st)"

interpretation arg_passing: invariant_system good_step ex2_inv ex2_init
proof
  fix st x st' assume "ex2_inv st" "good_step x st = Some st'"
  then show "ex2_inv st'" proof (cases x)
    case (Main a ok)
    then have "a \<noteq> NULL" "main_step a ok st = Some st'" using \<open>good_step x st = Some st'\<close> by (simp_all add: good_step_def split: if_splits)
    from main_inv [OF \<open>ex2_inv st\<close> this] show ?thesis .
  next
    case (Thread t)
    then have "routine_step t st = Some st'" using \<open>good_step x st = Some st'\<close> by (simp add: good_step_def)
    from routine_inv [OF \<open>ex2_inv st\<close> this] show ?thesis .
  qed
next
  show "ex2_inv ex2_init" by (simp add: ex2_inv_def ex2_init_def cells_ok_def created_def printed_def THREADS_def)
qed

section \<open>Properties\<close>

text \<open>
  C14: In every interleaving in which \<open>malloc\<close> does not fail, every thread reads and frees only the cell
  that was allocated for it, even when freed addresses are handed out again; whatever a thread has
  printed is its own number; and when \<open>main\<close> returns, each of the ten threads has printed its number
  exactly once, before the line of \<open>main\<close>.
\<close>

theorem args_reach_threads:
  assumes "exec good_step ex2_init sched = Some st"
  shows "\<not> bad st \<and> (\<forall>t v. ThreadLine t v \<in> set (shown st) \<longrightarrow> v = int t) \<and>
     (main st = MReturned \<longrightarrow> (\<exists>vs. shown st = map (\<lambda>t. ThreadLine t (int t)) vs @ [MainLine] \<and> mset vs = mset [0..<THREADS]))"
proof -
  have inv: "ex2_inv st" using arg_passing.run_inv [OF assms] .
  have "\<exists>vs. shown st = map (\<lambda>t. ThreadLine t (int t)) vs @ [MainLine] \<and> mset vs = mset [0..<THREADS]" if r: "main st = MReturned"
  proof -
    have "length (threads st) = THREADS" "\<forall>t<length (threads st). threads st ! t = RDone"
      using inv r by (auto simp: ex2_inv_def created_def)
    with inv r printed_all [of "threads st"] show ?thesis by (auto simp: ex2_inv_def)
  qed
  moreover have "v = int t" if "ThreadLine t v \<in> set (shown st)" for t v
    using inv that by (auto simp: ex2_inv_def split: if_splits)
  ultimately show ?thesis using inv by (simp add: ex2_inv_def)
qed

text \<open>The threads run one after the other, all through the same cell.\<close>

definition one_by_one :: "ex2_action list" where
  "one_by_one = concat (map (\<lambda>t. [Main 4096 True, Thread t, Thread t, Thread t]) [0..<THREADS]) @ replicate 11 (Main 1 True)"

theorem args_reach_threads_witness:
  "\<exists>st. exec good_step ex2_init one_by_one = Some st \<and> main st = MReturned \<and>
     length (shown st) = 11 \<and> (\<forall>t<10. ThreadLine t (int t) \<in> set (shown st))"
proof -
  have "map_option main (exec good_step ex2_init one_by_one) = Some MReturned"
    by (simp add: one_by_one_def THREADS_def upt_rec ex2_init_def good_step_def main_step_def routine_step_def numeral_eq_Suc)
  then obtain st where st: "exec good_step ex2_init one_by_one = Some st" "main st = MReturned"
    unfolding map_option_eq_Some by blast
  with args_reach_threads [OF st(1)] obtain vs where vs: "shown st = map (\<lambda>t. ThreadLine t (int t)) vs @ [MainLine]"
    "mset vs = mset [0..<THREADS]" by blast
  then have "length (shown st) = 11" using mset_eq_length [of vs "[0..<THREADS]"] by (simp add: THREADS_def)
  moreover have "\<forall>t<10. ThreadLine t (int t) \<in> set (shown st)"
    using vs mset_eq_setD [OF vs(2)] by (auto simp: THREADS_def)
  ultimately show ?thesis using st by blast
qed

end
