(* ===== verification/Zemaphore.thy ===== *)
theory Zemaphore
  imports Pthreads
begin

text \<open>
  The semaphore of \<open>pthreads-sync-code/zemaphore/zemaphore.c\<close>, built from a mutex and a condition
  variable, used by threads that each run a list of down and up operations on it.
\<close>

section \<open>The operations\<close>

text \<open>\<open>downs\<close> and \<open>ups\<close> count the completed operations.\<close>

record zem_t =
  count :: int
  downs :: nat
  ups :: nat

definition zem_init :: "int \<Rightarrow> zem_t" where
  "zem_init v = \<lparr>count = v, downs = 0, ups = 0\<rparr>"

datatype zem_op = Down | Up
datatype zem_cond = Cond

text \<open>A thread's label: the operations still to do, and whether it was woken inside the first.\<close>

type_synonym zem_label = "zem_op list \<times> bool"
definition next_op :: "zem_op list \<Rightarrow> (zem_cond, zem_label) leave" where
  "next_op r = (if r = [] then Return else Unlock (r, False))"

text \<open>
  \<open>zem_down\<close> tests the count once and waits once: after the wakeup, at label \<open>resumed\<close>, it goes on
  to decrement without looking at the count again. \<open>c\<close> is the condition variable of the zemaphore,
  \<open>q\<close> what the thread does next.
\<close>

definition zem_down :: "'c \<Rightarrow> bool \<Rightarrow> 'l \<Rightarrow> ('c, 'l) leave \<Rightarrow> zem_t \<Rightarrow> zem_t \<times> 'c wakeup list \<times> ('c, 'l) leave" where
  "zem_down c waited resumed q s =
     (if \<not> waited \<and> count s \<le> 0 then (s, [], Wait c resumed)
      else (s\<lparr>count := count s - 1, downs := Suc (downs s)\<rparr>, [], q))"

definition zem_up :: "'c \<Rightarrow> ('c, 'l) leave \<Rightarrow> zem_t \<Rightarrow> zem_t \<times> 'c wakeup list \<times> ('c, 'l) leave" where
  "zem_up c q s = (s\<lparr>count := count s + 1, ups := Suc (ups s)\<rparr>, [Signal c], q)"

fun zem_code :: "(zem_cond, zem_label, zem_t) code" where
  "zem_code t ([], b) s = (s, [], Return)"
| "zem_code t (Down # r, b) s = zem_down Cond b (Down # r, True) (next_op r) s"
| "zem_code t (Up # r, b) s = zem_up Cond (next_op r) s"

definition zem_system :: "int \<Rightarrow> zem_op list list \<Rightarrow> (zem_cond, zem_label, zem_t) system" where
  "zem_system v scripts = mon_init (\<lambda>t. (scripts ! t, False)) (length scripts) (zem_init v)"

section \<open>One waiting thread\<close>

text \<open>
  Thread 0 may wait, all others only post. While thread 0 sleeps the count is 0; when it has been
  woken the count is positive and stays so until it takes it.
\<close>

fun waiter_ok :: "zem_t \<Rightarrow> (zem_cond, zem_label) thread \<Rightarrow> bool" where
  "waiter_ok s (Enter (ops, b)) = (0 \<le> count s \<and> (b \<longrightarrow> 0 < count s))"
| "waiter_ok s (Inside (ops, b)) = (0 \<le> count s \<and> (b \<longrightarrow> 0 < count s))"
| "waiter_ok s (Asleep c (ops, b)) = (count s = 0)"
| "waiter_ok s Done = (0 \<le> count s)"

fun poster_ok :: "(zem_cond, zem_label) thread \<Rightarrow> bool" where
  "poster_ok (Enter (ops, b)) = (Down \<notin> set ops)"
| "poster_ok (Inside (ops, b)) = (Down \<notin> set ops)"
| "poster_ok (Asleep c l) = False"
| "poster_ok Done = True"

definition zem_inv :: "int \<Rightarrow> zem_t \<Rightarrow> (zem_cond, zem_label) thread list \<Rightarrow> bool" where
  "zem_inv v s ps \<longleftrightarrow> count s = v + int (ups s) - int (downs s) \<and> ps \<noteq> [] \<and> waiter_ok s (ps ! 0) \<and>
     (\<forall>t<length ps. t \<noteq> 0 \<longrightarrow> poster_ok (ps ! t))"

lemma poster_awake: "poster_ok p \<Longrightarrow> \<not> is_asleep p"
  by (cases p) auto

lemma cond_all [simp]: "asleep_on (c :: zem_cond) = (is_asleep :: (zem_cond, 'l) thread \<Rightarrow> bool)"
proof
  fix p :: "(zem_cond, 'l) thread"
  have "c = d" for d using zem_cond.exhaust by metis
  then show "asleep_on c p = is_asleep p" by (cases p) simp_all
qed

lemma zem_up_inv:
  assumes t: "t < length ps" "ps ! t = Inside (Up # r, b)" and inv: "zem_inv v s ps"
    and step: "zem_up Cond (next_op r) s = (s', es, q)" and w: "wakeups es ws ps = Some ps'"
  shows "zem_inv v s' (ps'[t := after_leave q])"
proof -
  have s': "s' = s\<lparr>count := count s + 1, ups := Suc (ups s)\<rparr>" "es = [Signal Cond]" "q = next_op r"
    using step by (auto simp: zem_up_def)
  have q: "after_leave q = (if r = [] then Done else Enter (r, False))" by (simp add: s'(3) next_op_def)
  have posters: "\<forall>u<length ps. u \<noteq> 0 \<longrightarrow> poster_ok (ps ! u)" and ne: "ps \<noteq> []"
    and c: "count s = v + int (ups s) - int (downs s)" and w0: "waiter_ok s (ps ! 0)" using inv by (auto simp: zem_inv_def)
  have t0: "t \<noteq> 0 \<longrightarrow> Down \<notin> set r" using posters t by force
  show ?thesis
  proof (cases "is_asleep (ps ! 0)")
    case True
    then obtain c ops b' where p0: "ps ! 0 = Asleep c (ops, b')" by (cases "ps ! 0") auto
    have "list_ex is_asleep ps" using True ne by (auto simp: list_ex_iff intro: bexI [of _ "ps ! 0"])
    then obtain u where u: "ws = [u]" "u < length ps" "is_asleep (ps ! u)" "ps' = ps[u := wake (ps ! u)]"
      using w unfolding s'(2) by (auto split: list.splits if_splits)
    then have "u = 0" using posters poster_awake by blast
    then have ps': "ps' = ps[0 := Enter (ops, b')]" using u p0 by simp
    have "t \<noteq> 0" using p0 t(2) by (metis thread.distinct(7))
    then show ?thesis
      using t ne c w0 p0 posters t0 q unfolding zem_inv_def ps' s'(1)
      by (auto simp: nth_list_update)
  next
    case False
    then have "\<not> list_ex is_asleep ps" using posters poster_awake by (auto simp: list_ex_iff in_set_conv_nth) (metis not_gr0)
    then have ps': "ps' = ps" using w unfolding s'(2) by (auto split: if_splits)
    have "waiter_ok s' (ps ! 0)" using w0 False unfolding s'(1) by (cases "ps ! 0") auto
    then show ?thesis
      using t ne c w0 posters t0 q unfolding zem_inv_def ps' s'(1)
      by (auto simp: nth_list_update)
  qed
qed

lemma zem_down_inv:
  assumes t: "t < length ps" "ps ! t = Inside (Down # r, b)" and inv: "zem_inv v s ps"
    and step: "zem_down Cond b (Down # r, True) (next_op r) s = (s', es, q)" and w: "wakeups es ws ps = Some ps'"
  shows "zem_inv v s' (ps'[t := after_leave q])"
proof -
  have "t = 0" using inv t by (force simp: zem_inv_def)
  moreover have "es = []" using step by (auto simp: zem_down_def split: if_splits)
  then have "ps' = ps" using w by (simp split: if_splits)
  ultimately show ?thesis
    using inv t step by (auto simp: zem_inv_def zem_down_def next_op_def nth_list_update split: if_splits)
qed

interpretation zem: calm_monitor zem_code "zem_inv v" for v
proof
  fix t l s and ps :: "(zem_cond, zem_label) thread list"
  assume "t < length ps" "ps ! t = Enter l" "zem_inv v s ps"
  then show "zem_inv v s (ps[t := Inside l])"
    by (cases l) (auto simp: zem_inv_def nth_list_update split: if_splits)
next
  fix t l s s' es q ws and ps ps' :: "(zem_cond, zem_label) thread list"
  assume a: "t < length ps" "ps ! t = Inside l" "zem_inv v s ps" "zem_code t l s = (s', es, q)" "wakeups es ws ps = Some ps'"
  obtain ops b where l: "l = (ops, b)" by (cases l)
  show "zem_inv v s' (ps'[t := after_leave q])"
  proof (cases ops)
    case Nil
    then show ?thesis using a l by (auto simp: zem_inv_def nth_list_update split: if_splits)
  next
    case (Cons x r)
    then show ?thesis using a l zem_up_inv zem_down_inv by (cases x) auto
  qed
qed

section \<open>Properties\<close>


text \<open>
  With two waiting threads the semaphore admits one too many, even without spurious wakeups:
  a thread that comes between the signal and the wakeup takes the count, the woken one decrements
  it again; after one up on a zemaphore of value 0 both downs have returned and the count is -1.
\<close>

theorem zem_over_admits:
  "\<exists>sched st. exec (calm_step zem_code) (zem_system 0 [[Down], [Down], [Up]]) sched = Some st \<and>
     downs (shared st) = 2 \<and> ups (shared st) = 1 \<and> count (shared st) = -1"
proof -
  let ?sched = "[Lock 0, Segment 0 [], Lock 2, Segment 2 [0], Lock 1, Segment 1 [], Lock 0, Segment 0 []]"
  have "exec (calm_step zem_code) (zem_system 0 [[Down], [Down], [Up]]) ?sched =
    Some \<lparr>shared = \<lparr>count = -1, downs = 2, ups = 1\<rparr>, threads = [Done, Done, Done], owner = None\<rparr>"
    by code_simp
  then show ?thesis by (intro exI conjI, assumption) simp_all
qed


end
