(* ===== verification/ZemTests.thy ===== *)
theory ZemTests
  imports Zemaphore
begin

text \<open>
  The two test programs of the zemaphore, \<open>zemaphore/test-toggle.c\<close> and \<open>zemaphore/test-zem.c\<close>:
  threads that use several zemaphores, each with its own mutex and condition variable, and print.
  \<open>zem_down\<close> does not withstand spurious wakeups: the properties are about the runs without them, \<open>calm_fam_step\<close>.
\<close>

section \<open>Programs on several zemaphores\<close>

datatype 'm instr = ZDown nat | ZUp nat | Print 'm

text \<open>The instructions left, and whether the thread has waited inside the first.\<close>

type_synonym 'm zlabel = "'m instr list \<times> bool"

record 'm family =
  zems :: "zem_t list"
  procs :: "(nat, 'm zlabel) thread list"
  owners :: "nat option list"
  prints :: "'m list"

definition next_instr :: "'m instr list \<Rightarrow> (nat, 'm zlabel) leave" where
  "next_instr r = (if r = [] then Return else Unlock (r, False))"

text \<open>The zemaphore whose mutex the next instruction takes.\<close>

fun zem_of :: "'m zlabel \<Rightarrow> nat option" where
  "zem_of (ZDown i # r, b) = Some i"
| "zem_of (ZUp i # r, b) = Some i"
| "zem_of l = None"

fun zem_segment :: "'m zlabel \<Rightarrow> zem_t \<Rightarrow> zem_t \<times> nat wakeup list \<times> (nat, 'm zlabel) leave" where
  "zem_segment (ZDown i # r, b) s = zem_down i b (ZDown i # r, True) (next_instr r) s"
| "zem_segment (ZUp i # r, b) s = zem_up i (next_instr r) s"
| "zem_segment l s = (s, [], Return)"

text \<open>
  \<open>ZLock t\<close>: thread \<open>t\<close> takes the mutex of its zemaphore; \<open>ZRun t ws\<close>: it does what is left of the
  operation, its signal waking \<open>ws\<close>, and releases the mutex; \<open>ZPrint t\<close>: it prints; \<open>ZSpurious t\<close>: a spurious wakeup of \<open>t\<close>.
\<close>

datatype fam_action = ZLock nat | ZRun nat "nat list" | ZPrint nat | ZSpurious nat

fun fam_step :: "fam_action \<Rightarrow> 'm family \<Rightarrow> 'm family option" where
  "fam_step (ZLock t) st =
     (if t < length (procs st) then
        (case procs st ! t of
           Enter l \<Rightarrow>
             (case zem_of l of
                Some i \<Rightarrow>
                  if i < length (owners st) \<and> owners st ! i = None
                  then Some (st\<lparr>procs := (procs st)[t := Inside l], owners := (owners st)[i := Some t]\<rparr>) else None
              | None \<Rightarrow> None)
         | _ \<Rightarrow> None)
      else None)"
| "fam_step (ZRun t ws) st =
     (if t < length (procs st) then
        (case procs st ! t of
           Inside l \<Rightarrow>
             (case zem_of l of
                Some i \<Rightarrow>
                  (let (z, es, q) = zem_segment l (zems st ! i) in
                   map_option (\<lambda>ps. st\<lparr>zems := (zems st)[i := z], procs := ps[t := after_leave q],
                     owners := (owners st)[i := None]\<rparr>) (wakeups es ws (procs st)))
              | None \<Rightarrow> None)
         | _ \<Rightarrow> None)
      else None)"
| "fam_step (ZPrint t) st =
     (if t < length (procs st) then
        (case procs st ! t of
           Enter (Print m # r, b) \<Rightarrow>
             Some (st\<lparr>procs := (procs st)[t := after_leave (next_instr r)], prints := prints st @ [m]\<rparr>)
         | _ \<Rightarrow> None)
      else None)"
| "fam_step (ZSpurious t) st =
     (if t < length (procs st) \<and> is_asleep (procs st ! t)
      then Some (st\<lparr>procs := (procs st)[t := wake (procs st ! t)]\<rparr>) else None)"

text \<open>Runs without spurious wakeups.\<close>

definition calm_fam_step :: "fam_action \<Rightarrow> 'm family \<Rightarrow> 'm family option" where
  "calm_fam_step a st = (case a of ZSpurious t \<Rightarrow> None | _ \<Rightarrow> fam_step a st)"

lemma calm_fam:
  assumes "calm_fam_step a st = Some st'"
  shows "fam_step a st = Some st'" "a \<noteq> ZSpurious t"
  using assms by (auto simp: calm_fam_step_def simp del: fam_step.simps split: fam_action.splits)

lemma calm_fam_exec: "exec calm_fam_step st sched = Some st' \<Longrightarrow> exec fam_step st sched = Some st'"
  by (induction sched arbitrary: st) (auto dest: calm_fam(1) simp del: fam_step.simps split: option.splits)

definition fam_init :: "zem_t list \<Rightarrow> 'm instr list list \<Rightarrow> 'm family" where
  "fam_init zs scripts = \<lparr>zems = zs, procs = map (\<lambda>s. after_leave (next_instr s)) scripts,
     owners = replicate (length zs) None, prints = []\<rparr>"

text \<open>Nothing but a spurious wakeup can happen.\<close>

definition fam_stuck :: "'m family \<Rightarrow> bool" where
  "fam_stuck st \<longleftrightarrow>
     (\<forall>t ws. fam_step (ZLock t) st = None \<and> fam_step (ZRun t ws) st = None \<and> fam_step (ZPrint t) st = None)"

section \<open>The mutexes\<close>

text \<open>The owner of a mutex, and no other thread, is inside an operation on its zemaphore.\<close>

fun inside_of :: "(nat, 'm zlabel) thread \<Rightarrow> nat option" where
  "inside_of (Inside l) = zem_of l"
| "inside_of p = None"

definition owners_ok :: "'m family \<Rightarrow> bool" where
  "owners_ok st \<longleftrightarrow> length (owners st) = length (zems st) \<and>
     (\<forall>t<length (procs st). \<forall>i. inside_of (procs st ! t) = Some i \<longleftrightarrow> i < length (owners st) \<and> owners st ! i = Some t) \<and>
     (\<forall>i<length (owners st). \<forall>t. owners st ! i = Some t \<longrightarrow> t < length (procs st)) \<and>
     (\<forall>t<length (procs st). inside_of (procs st ! t) = None \<longrightarrow> (\<forall>l. procs st ! t \<noteq> Inside l))"

lemma owners_okD:
  assumes "owners_ok st" "t < length (procs st)"
  shows "inside_of (procs st ! t) = Some i \<longleftrightarrow> i < length (owners st) \<and> owners st ! i = Some t"
    "procs st ! t = Inside l \<Longrightarrow> zem_of l \<noteq> None"
proof -
  show "inside_of (procs st ! t) = Some i \<longleftrightarrow> i < length (owners st) \<and> owners st ! i = Some t"
    using assms unfolding owners_ok_def by blast
  assume l: "procs st ! t = Inside l"
  then have "inside_of (procs st ! t) \<noteq> None" using assms unfolding owners_ok_def by blast
  then show "zem_of l \<noteq> None" using l by simp
qed

text \<open>What an enabled action means.\<close>

lemma fam_lock_step:
  assumes "fam_step (ZLock t) st = Some st'"
  obtains l i where "t < length (procs st)" "procs st ! t = Enter l" "zem_of l = Some i" "i < length (owners st)"
    "owners st ! i = None" "st' = st\<lparr>procs := (procs st)[t := Inside l], owners := (owners st)[i := Some t]\<rparr>"
  using assms by (auto split: if_splits thread.splits option.splits)

lemma fam_run_step:
  assumes "fam_step (ZRun t ws) st = Some st'"
  obtains l i z es q ps where "t < length (procs st)" "procs st ! t = Inside l" "zem_of l = Some i"
    "zem_segment l (zems st ! i) = (z, es, q)" "wakeups es ws (procs st) = Some ps"
    "st' = st\<lparr>zems := (zems st)[i := z], procs := ps[t := after_leave q], owners := (owners st)[i := None]\<rparr>"
  using assms by (auto split: if_splits thread.splits option.splits prod.splits)

lemma fam_print_step:
  assumes "fam_step (ZPrint t) st = Some st'"
  obtains m r b where "t < length (procs st)" "procs st ! t = Enter (Print m # r, b)"
    "st' = st\<lparr>procs := (procs st)[t := after_leave (next_instr r)], prints := prints st @ [m]\<rparr>"
  using assms by (auto split: if_splits thread.splits list.splits instr.splits prod.splits)

lemma fam_spurious_step:
  assumes "fam_step (ZSpurious t) st = Some st'"
  obtains c l where "t < length (procs st)" "procs st ! t = Asleep c l" "st' = st\<lparr>procs := (procs st)[t := Enter l]\<rparr>"
  using assms by (cases "procs st ! t") (auto split: if_splits)

lemma after_leave_not_Inside [simp]: "after_leave q \<noteq> Inside l" "Inside l \<noteq> after_leave q"
  by (cases q; simp)+

lemma woken_inside_of: "woken p q \<Longrightarrow> inside_of q = inside_of p \<and> (\<forall>l. q = Inside l \<longleftrightarrow> p = Inside l)"
  by (auto elim: woken.cases)

lemma inside_of_leave [simp]: "inside_of (after_leave q) = None"
  by (cases q) auto

lemma fam_step_owners_ok:
  assumes ok: "owners_ok st" and step: "fam_step a st = Some st'"
  shows "owners_ok st'"
proof (cases a)
  case (ZLock t)
  then obtain l i where p: "t < length (procs st)" "procs st ! t = Enter l" "zem_of l = Some i" "i < length (owners st)"
    "owners st ! i = None" "st' = st\<lparr>procs := (procs st)[t := Inside l], owners := (owners st)[i := Some t]\<rparr>"
    using step by (auto elim: fam_lock_step simp del: fam_step.simps)
  have free: "j < length (owners st) \<Longrightarrow> owners st ! j \<noteq> Some t" for j
    using owners_okD(1) [OF ok p(1), of j] p(2) by simp
  then show ?thesis using ok p by (auto simp: owners_ok_def nth_list_update)
next
  case (ZRun t ws)
  then obtain l i z es q ps where p: "t < length (procs st)" "procs st ! t = Inside l" "zem_of l = Some i"
    "wakeups es ws (procs st) = Some ps"
    "st' = st\<lparr>zems := (zems st)[i := z], procs := ps[t := after_leave q], owners := (owners st)[i := None]\<rparr>"
    using step by (auto elim: fam_run_step simp del: fam_step.simps)
  note n = wakeups_nth [OF p(4)]
  have own: "j < length (owners st) \<Longrightarrow> j \<noteq> i \<Longrightarrow> owners st ! j \<noteq> Some t" for j
    using owners_okD(1) [OF ok p(1), of j] p(2,3) by auto
  have same: "u < length (procs st) \<Longrightarrow> inside_of (ps ! u) = inside_of (procs st ! u) \<and>
    (\<forall>l. ps ! u = Inside l \<longleftrightarrow> procs st ! u = Inside l)" for u
    using woken_inside_of [OF n(2)] by blast
  have i: "i < length (owners st)" "owners st ! i = Some t" using owners_okD(1) [OF ok p(1), of i] p(2,3) by auto
  show ?thesis
    using ok p(1,5) n(1) own same i unfolding owners_ok_def by (auto simp: nth_list_update split: if_splits)
next
  case (ZPrint t)
  then obtain m r b where p: "t < length (procs st)" "procs st ! t = Enter (Print m # r, b)"
    "st' = st\<lparr>procs := (procs st)[t := after_leave (next_instr r)], prints := prints st @ [m]\<rparr>"
    using step by (auto elim: fam_print_step simp del: fam_step.simps)
  have free: "j < length (owners st) \<Longrightarrow> owners st ! j \<noteq> Some t" for j
    using owners_okD(1) [OF ok p(1), of j] p(2) by simp
  then show ?thesis using ok p by (auto simp: owners_ok_def nth_list_update)
next
  case (ZSpurious t)
  then obtain c l where p: "t < length (procs st)" "procs st ! t = Asleep c l" "st' = st\<lparr>procs := (procs st)[t := Enter l]\<rparr>"
    using step by (auto elim: fam_spurious_step simp del: fam_step.simps)
  have free: "j < length (owners st) \<Longrightarrow> owners st ! j \<noteq> Some t" for j
    using owners_okD(1) [OF ok p(1), of j] p(2) by simp
  then show ?thesis using ok p by (auto simp: owners_ok_def nth_list_update)
qed

lemma fam_init_owners_ok: "owners_ok (fam_init zs scripts)"
  by (simp add: owners_ok_def fam_init_def)

text \<open>Every label names a zemaphore that exists or prints.\<close>

definition labels_ok :: "'m family \<Rightarrow> bool" where
  "labels_ok st \<longleftrightarrow> (\<forall>t<length (procs st). \<forall>l. label_of (procs st ! t) = Some l \<longrightarrow>
     (\<exists>m r b. l = (Print m # r, b)) \<or> (\<exists>i<length (zems st). zem_of l = Some i))"

lemma fam_stuck_idle:
  assumes ok: "owners_ok st" "labels_ok st" and s: "fam_stuck st" and t: "t < length (procs st)"
  shows "is_asleep (procs st ! t) \<or> procs st ! t = Done"
proof -
  have no_inside: "procs st ! u \<noteq> Inside l" if u: "u < length (procs st)" for u l
  proof
    assume l: "procs st ! u = Inside l"
    then obtain i where i: "zem_of l = Some i" using owners_okD(2) [OF ok(1) u] by blast
    obtain z es q where z: "zem_segment l (zems st ! i) = (z, es, q)" by (cases "zem_segment l (zems st ! i)")
    obtain ws ps where "wakeups es ws (procs st) = Some ps" using wakeups_possible by blast
    then have "fam_step (ZRun u ws) st \<noteq> None" using u l i z by simp
    then show False using s by (simp only: fam_stuck_def) blast
  qed
  show ?thesis
  proof (cases "procs st ! t")
    case (Enter l)
    have "False"
    proof (cases "zem_of l")
      case None
      have "(\<exists>m r b. l = (Print m # r, b)) \<or> (\<exists>i<length (zems st). zem_of l = Some i)"
        using ok(2) t Enter unfolding labels_ok_def by (cases l) simp
      then obtain m r b where "l = (Print m # r, b)" using None by auto
      then have "fam_step (ZPrint t) st \<noteq> None" using t Enter by simp
      then show ?thesis using s by (simp only: fam_stuck_def) blast
    next
      case (Some i)
      have "(\<exists>m r b. l = (Print m # r, b)) \<or> (\<exists>i<length (zems st). zem_of l = Some i)"
        using ok(2) t Enter unfolding labels_ok_def by (cases l) simp
      then have i: "i < length (owners st)" using Some ok(1) by (auto simp: owners_ok_def)
      have "owners st ! i = None"
      proof (rule ccontr)
        assume "owners st ! i \<noteq> None"
        then obtain u where u: "owners st ! i = Some u" by blast
        then have "u < length (procs st)" using ok(1) i unfolding owners_ok_def by blast
        moreover from this have "inside_of (procs st ! u) = Some i" using owners_okD(1) [OF ok(1)] i u by blast
        ultimately show False using no_inside by (cases "procs st ! u") auto
      qed
      then have "fam_step (ZLock t) st \<noteq> None" using t Enter Some i by simp
      then show ?thesis using s by (simp only: fam_stuck_def) blast
    qed
    then show ?thesis ..
  qed (use no_inside t in auto)
qed

section \<open>Termination\<close>

text \<open>
  No thread waits twice in one operation, so every action brings a thread closer to its end. A wakeup
  does not: a sleeping thread weighs as much as a woken one.
\<close>

fun weight :: "(nat, 'm zlabel) thread \<Rightarrow> nat" where
  "weight (Enter (c, b)) = 4 * length c - (if b then 2 else 0)"
| "weight (Inside (c, b)) = 4 * length c - (if b then 3 else 1)"
| "weight (Asleep i (c, b)) = 4 * length c - (if b then 2 else 0)"
| "weight Done = 0"

definition total_weight :: "'m family \<Rightarrow> nat" where
  "total_weight st = sum_list (map weight (procs st))"

lemma weight_woken: "woken p q \<Longrightarrow> weight q = weight p"
proof (erule woken.cases)
  fix c l assume "p = Asleep c l" "q = Enter l"
  then show ?thesis by (cases l) simp
qed simp

lemma total_weight_update:
  assumes "t < length ps" "weight p < weight (ps ! t)"
  shows "sum_list (map weight (ps[t := p])) < sum_list (map weight ps)"
proof -
  have "map weight ps ! t \<le> sum_list (map weight ps)" using assms(1) by (intro member_le_sum_list) simp_all
  then show ?thesis using assms by (simp add: map_update sum_list_update)
qed

lemma weight_next: "weight (after_leave (next_instr r)) = 4 * length r"
  by (simp add: next_instr_def)

lemma weight_segment:
  assumes "zem_of l = Some i" "zem_segment l s = (s', es, q)"
  shows "weight (after_leave q) < weight (Inside l)"
  using assms by (cases "(l, s)" rule: zem_segment.cases) (auto simp: zem_down_def zem_up_def weight_next split: if_splits)

lemma calm_fam_weight:
  assumes calm: "calm_fam_step a st = Some st'"
  shows "total_weight st' < total_weight st"
proof (cases a)
  case (ZLock t)
  then obtain l i where p: "t < length (procs st)" "procs st ! t = Enter l" "zem_of l = Some i"
    "procs st' = (procs st)[t := Inside l]"
    using calm_fam(1) [OF calm] by (auto elim: fam_lock_step simp del: fam_step.simps)
  have "weight (Inside l) < weight (procs st ! t)"
    unfolding p(2) using p(3) by (cases l rule: zem_of.cases) auto
  then show ?thesis unfolding total_weight_def p(4) by (rule total_weight_update [OF p(1)])
next
  case (ZRun t ws)
  then obtain l i z es q ps where p: "t < length (procs st)" "procs st ! t = Inside l" "zem_of l = Some i"
    "zem_segment l (zems st ! i) = (z, es, q)" "wakeups es ws (procs st) = Some ps" "procs st' = ps[t := after_leave q]"
    using calm_fam(1) [OF calm] by (auto elim: fam_run_step simp del: fam_step.simps)
  note n = wakeups_nth [OF p(5)]
  have same: "map weight ps = map weight (procs st)"
    using n(1) weight_woken [OF n(2)] by (auto intro!: nth_equalityI)
  have t: "t < length ps" "ps ! t = Inside l" using n(1) n(2) [OF p(1)] p(1,2) by simp_all
  have "weight (after_leave q) < weight (ps ! t)" unfolding t(2) using weight_segment [OF p(3,4)] .
  then show ?thesis unfolding total_weight_def p(6) same [symmetric] by (rule total_weight_update [OF t(1)])
next
  case (ZPrint t)
  then obtain x r b where p: "t < length (procs st)" "procs st ! t = Enter (Print x # r, b)"
    "procs st' = (procs st)[t := after_leave (next_instr r)]"
    using calm_fam(1) [OF calm] by (auto elim: fam_print_step simp del: fam_step.simps)
  have "weight (after_leave (next_instr r)) < weight (procs st ! t)" unfolding p(2) by (simp add: weight_next)
  then show ?thesis unfolding total_weight_def p(3) by (rule total_weight_update [OF p(1)])
qed (use calm_fam(2) [OF calm] in blast)

interpretation zem_programs: bounded_runs calm_fam_step "\<lambda>st. True" total_weight
  by unfold_locales (simp_all add: calm_fam_weight)

lemma fam_init_weight: "total_weight (fam_init zs scripts) = 4 * sum_list (map length scripts)"
  by (simp add: total_weight_def fam_init_def weight_next comp_def sum_list_const_mult)

section \<open>The toggle test\<close>

text \<open>\<open>justprint\<close> of thread \<open>j\<close>, for \<open>n\<close> threads (3 in the code) and with \<open>r\<close> rounds
  (of 10) still to go.\<close>

fun toggle_code :: "nat \<Rightarrow> nat \<Rightarrow> nat \<Rightarrow> nat instr list" where
  "toggle_code n j 0 = []"
| "toggle_code n j (Suc r) = ZDown j # Print j # ZUp ((j + 1) mod n) # toggle_code n j r"

text \<open>\<open>main\<close>: all zemaphores are 0 and the first is then posted.\<close>

definition toggle_init :: "nat \<Rightarrow> nat \<Rightarrow> nat family" where
  "toggle_init n m = fam_init ((replicate n (zem_init 0))[0 := fst (zem_up (0 :: nat) (Return :: (nat, nat zlabel) leave) (zem_init 0))])
     (map (\<lambda>j. toggle_code n j m) [0..<n])"

text \<open>
  One token travels round: after \<open>k\<close> completed rounds it is with thread \<open>k mod n\<close>, in its zemaphore
  (\<open>ph = 0\<close>), or with the thread before it prints (\<open>ph = 1\<close>) or before it posts (\<open>ph = 2\<close>).
\<close>

definition rounds_left :: "nat \<Rightarrow> nat \<Rightarrow> nat \<Rightarrow> nat \<Rightarrow> nat" where
  "rounds_left n m k j = m - (k div n + of_bool (j < k mod n))"

text \<open>A thread between two rounds; \<open>token\<close>: its zemaphore is posted.\<close>

definition resting :: "bool \<Rightarrow> nat \<Rightarrow> nat instr list \<Rightarrow> (nat, nat zlabel) thread \<Rightarrow> bool" where
  "resting token j c p \<longleftrightarrow>
     (if c = [] then p = Done
      else p = Enter (c, False) \<or> p = Inside (c, False) \<or> (if token then p = Enter (c, True) \<or> p = Inside (c, True) else p = Asleep j (c, True)))"

definition thread_ok :: "nat \<Rightarrow> nat \<Rightarrow> nat \<Rightarrow> nat \<Rightarrow> nat \<Rightarrow> (nat, nat zlabel) thread \<Rightarrow> bool" where
  "thread_ok n m k ph j p \<longleftrightarrow>
     (if j = k mod n \<and> ph \<noteq> 0
      then k < n * m \<and>
        (let c = toggle_code n j (m - k div n) in
         if ph = 1 then p = Enter (tl c, False) else p \<in> {Enter (tl (tl c), False), Inside (tl (tl c), False)})
      else resting (j = k mod n) j (toggle_code n j (rounds_left n m k j)) p)"

definition toggle_inv :: "nat \<Rightarrow> nat \<Rightarrow> nat \<Rightarrow> nat \<Rightarrow> nat family \<Rightarrow> bool" where
  "toggle_inv n m k ph st \<longleftrightarrow> 0 < n \<and> k \<le> n * m \<and> ph \<le> 2 \<and> length (zems st) = n \<and> length (procs st) = n \<and>
     prints st = map (\<lambda>i. i mod n) [0..<k + of_bool (ph = 2)] \<and>
     (\<forall>i<n. count (zems st ! i) = of_bool (ph = 0 \<and> i = k mod n)) \<and>
     (\<forall>j<n. thread_ok n m k ph j (procs st ! j))"

lemma toggle_code_eq_Nil [simp]: "toggle_code n j r = [] \<longleftrightarrow> r = 0"
  by (cases r) auto

lemma toggle_code_Suc: "0 < r \<Longrightarrow> toggle_code n j r = ZDown j # Print j # ZUp ((j + 1) mod n) # toggle_code n j (r - 1)"
  by (cases r) auto

lemma rounds_left_holder: "rounds_left n m k (k mod n) = m - k div n"
  by (simp add: rounds_left_def)

lemma token_round: "0 < (n :: nat) \<Longrightarrow> k < n * m \<longleftrightarrow> k div n < m"
  using div_less_iff_less_mult [of n k m] by (simp add: mult.commute)

text \<open>When the token moves on, only the thread it leaves has a round less to go.\<close>

lemma rounds_left_Suc:
  assumes "0 < n" "j < n"
  shows "rounds_left n m (Suc k) j = (if j = k mod n then rounds_left n m k j - 1 else rounds_left n m k j)"
proof (cases "Suc (k mod n) = n")
  case True
  then have "Suc k mod n = 0" "Suc k div n = Suc (k div n)" "k mod n = n - 1"
    by (simp_all add: mod_Suc div_Suc)
  then show ?thesis using assms(2) by (auto simp: rounds_left_def)
next
  case False
  then have "Suc k mod n = Suc (k mod n)" "Suc k div n = k div n"
    by (simp_all add: mod_Suc div_Suc)
  then show ?thesis by (auto simp: rounds_left_def)
qed

text \<open>The shapes of a thread that acts.\<close>

lemma thread_ok_lock: "thread_ok n m k ph j (Enter l) \<Longrightarrow> 0 < n \<Longrightarrow> zem_of l = Some i \<Longrightarrow> thread_ok n m k ph j (Inside l)"
  by (auto simp: thread_ok_def resting_def Let_def token_round toggle_code_Suc split: if_splits)

lemma thread_ok_print:
  assumes "thread_ok n m k ph j (Enter (Print x # r, b))" "0 < n" "ph \<le> 2"
  shows "ph = 1 \<and> j = k mod n \<and> k < n * m \<and> x = j \<and> r = ZUp ((j + 1) mod n) # toggle_code n j (m - k div n - 1)"
proof -
  have "\<not> resting tk j (toggle_code n j c) (Enter (Print x # r, b))" for tk c
    by (cases c) (auto simp: resting_def)
  then show ?thesis
    using assms by (auto simp: thread_ok_def Let_def token_round toggle_code_Suc split: if_splits)
qed

lemma thread_ok_run:
  assumes "thread_ok n m k ph j (Inside l)" "0 < n" "ph \<le> 2"
  obtains (up) "ph = 2" "j = k mod n" "k < n * m" "l = (ZUp ((j + 1) mod n) # toggle_code n j (m - k div n - 1), False)"
  | (down) r b where "rounds_left n m k j = Suc r" "l = (toggle_code n j (Suc r), b)" "\<not> (j = k mod n \<and> ph \<noteq> 0)"
      "b \<longrightarrow> j = k mod n"
proof (cases "j = k mod n \<and> ph \<noteq> 0")
  case True
  then show ?thesis
    using assms up by (auto simp: thread_ok_def Let_def token_round toggle_code_Suc split: if_splits)
next
  case False
  then have "resting (j = k mod n) j (toggle_code n j (rounds_left n m k j)) (Inside l)"
    using assms(1) by (auto simp: thread_ok_def)
  then show ?thesis
    using down False by (cases "rounds_left n m k j"; cases l) (auto simp: resting_def split: if_splits)
qed

lemma thread_ok_asleep: "thread_ok n m k ph j (Asleep c l) \<Longrightarrow> c = j"
  by (auto simp: thread_ok_def resting_def Let_def split: if_splits)

text \<open>The receiver of the token is woken if it sleeps; nobody else is.\<close>

lemma signal_next:
  assumes ok: "\<forall>j<length ps. thread_ok n m k ph j (ps ! j)" and w: "wakeups [Signal c] ws ps = Some ps'" and j: "j < length ps"
  shows "ps' ! j = (if j = c then wake (ps ! j) else ps ! j)"
proof -
  have on: "asleep_on c (ps ! i) \<Longrightarrow> i = c" if "i < length ps" for i
    using ok that by (cases "ps ! i") (auto dest!: thread_ok_asleep)
  from w show ?thesis
  proof (cases rule: signal_one)
    case nobody
    then have "\<not> asleep_on c (ps ! j)" using j sleepers_pos [of c ps] by (auto simp: list_ex_iff)
    then show ?thesis
      using nobody(2) ok j by (cases "ps ! j") (auto dest!: thread_ok_asleep)
  next
    case (one i)
    then show ?thesis using on [of i] j by (cases "j = c") (auto simp: nth_list_update)
  qed
qed

lemma resting_wake: "resting False j c p \<Longrightarrow> resting True j c (wake p)"
  by (auto simp: resting_def split: if_splits)

lemma resting_start: "resting token j c (after_leave (next_instr c))"
  by (auto simp: resting_def next_instr_def)

lemma toggle_up:
  assumes inv: "toggle_inv n m k 2 st" and t: "t = k mod n" "k < n * m" and ps: "length ps = n"
    "\<And>j. j < n \<Longrightarrow> ps ! j = (if j = Suc t mod n then wake (procs st ! j) else procs st ! j)"
    and z: "count z = 1"
  shows "toggle_inv n m (Suc k) 0 (st\<lparr>zems := (zems st)[Suc t mod n := z],
     procs := ps[t := after_leave (next_instr (toggle_code n t (m - k div n - 1)))], owners := ow\<rparr>)"
proof -
  have n: "0 < n" "t < n" "length (zems st) = n" "Suc t mod n = Suc k mod n" "Suc k mod n < n"
    using inv t by (auto simp: toggle_inv_def mod_Suc_eq)
  have "thread_ok n m (Suc k) 0 j (ps[t := after_leave (next_instr (toggle_code n t (m - k div n - 1)))] ! j)" if j: "j < n" for j
  proof (cases "j = t")
    case True
    have "rounds_left n m (Suc k) t = m - k div n - 1"
      using rounds_left_Suc [OF n(1,2)] t(1) by (simp add: rounds_left_holder)
    then show ?thesis using True ps(1) n resting_start by (simp add: thread_ok_def)
  next
    case False
    then have old: "resting False j (toggle_code n j (rounds_left n m k j)) (procs st ! j)"
      using inv j t(1) by (auto simp: toggle_inv_def thread_ok_def)
    have "rounds_left n m (Suc k) j = rounds_left n m k j" using rounds_left_Suc [OF n(1) j] False t(1) by simp
    then show ?thesis
      using old False j ps n resting_wake by (auto simp: thread_ok_def)
  qed
  moreover have "count ((zems st)[Suc t mod n := z] ! i) = of_bool (i = Suc k mod n)" if "i < n" for i
    using that inv z n by (auto simp: toggle_inv_def nth_list_update)
  ultimately show ?thesis using inv t(2) ps(1) by (simp add: toggle_inv_def)
qed

lemma toggle_run:
  assumes inv: "toggle_inv n m k ph st" and step: "fam_step (ZRun t ws) st = Some st'"
  shows "\<exists>k' ph'. toggle_inv n m k' ph' st'"
  using step
proof (rule fam_run_step)
  fix l i z es q ps
  assume p: "t < length (procs st)" "procs st ! t = Inside l" "zem_of l = Some i"
    "zem_segment l (zems st ! i) = (z, es, q)" "wakeups es ws (procs st) = Some ps"
    "st' = st\<lparr>zems := (zems st)[i := z], procs := ps[t := after_leave q], owners := (owners st)[i := None]\<rparr>"
  have n: "0 < n" "ph \<le> 2" "length (procs st) = n" "length (zems st) = n" "t < n" using inv p(1) by (auto simp: toggle_inv_def)
  have ok: "thread_ok n m k ph t (Inside l)" using inv n(5) p(2) by (auto simp: toggle_inv_def)
  from ok n(1,2) show ?thesis
  proof (cases rule: thread_ok_run)
    case up
    then have u: "i = Suc t mod n" "z = (zems st ! i)\<lparr>count := count (zems st ! i) + 1, ups := Suc (ups (zems st ! i))\<rparr>"
      "es = [Signal i]" "q = next_instr (toggle_code n t (m - k div n - 1))"
      using p(3,4) by (auto simp: zem_up_def)
    have len: "length ps = n" using wakeups_nth(1) [OF p(5)] n(3) by simp
    have ps: "ps ! j = (if j = Suc t mod n then wake (procs st ! j) else procs st ! j)" if "j < n" for j
      using signal_next [OF _ p(5) [unfolded u(3)], of n m k ph j] inv that n(3) u(1) by (auto simp: toggle_inv_def)
    have "count z = 1" using inv up(1) u(1,2) n(1) by (simp add: toggle_inv_def)
    with toggle_up [OF inv [unfolded up(1)] up(2,3) len ps this] show ?thesis unfolding p(6) u(1,4) by blast
  next
    case (down r b)
    then have i: "i = t" and c: "zem_segment l (zems st ! t) = zem_down t b (fst l, True) (next_instr (tl (fst l))) (zems st ! t)"
      using p(3) by auto
    have cnt: "count (zems st ! t) = of_bool (ph = 0 \<and> t = k mod n)" using inv n(5) by (simp add: toggle_inv_def)
    show ?thesis
    proof (cases "\<not> b \<and> count (zems st ! t) \<le> 0")
      case True
      then have d: "z = zems st ! t" "es = []" "q = Wait t (fst l, True)" "ps = procs st"
        using p(4,5) c i by (auto simp: zem_down_def split: if_splits)
      have "t \<noteq> k mod n" using True cnt down(3) by auto
      then have "thread_ok n m k ph t (Asleep t (fst l, True))" using down(1,2) by (simp add: thread_ok_def resting_def)
      then have "toggle_inv n m k ph st'"
        unfolding p(6) i d using inv n by (auto simp: toggle_inv_def nth_list_update)
      then show ?thesis by blast
    next
      case False
      then have "ph = 0 \<and> t = k mod n" using cnt down(3,4) by (cases "ph = 0 \<and> t = k mod n") auto
      then have tok: "t = k mod n" "ph = 0" by simp_all
      have d: "z = (zems st ! t)\<lparr>count := count (zems st ! t) - 1, downs := Suc (downs (zems st ! t))\<rparr>" "es = []"
        "q = Unlock (tl (fst l), False)" "ps = procs st"
        using p(4,5) c i False down(2) by (auto simp: zem_down_def next_instr_def split: if_splits)
      have r: "m - k div n = Suc r" using down(1) tok(1) rounds_left_holder by simp
      then have "k < n * m" using token_round [OF n(1)] by simp
      then have "thread_ok n m k 1 t (Enter (tl (fst l), False))"
        using tok(1) r down(2) by (simp add: thread_ok_def)
      moreover have "thread_ok n m k 1 j p = thread_ok n m k 0 j p" if "j \<noteq> t" for j p
        using that tok(1) by (simp add: thread_ok_def)
      ultimately have "toggle_inv n m k 1 st'"
        unfolding p(6) i d using inv n tok cnt by (auto simp: toggle_inv_def nth_list_update)
      then show ?thesis by blast
    qed
  qed
qed

lemma toggle_step:
  assumes inv: "toggle_inv n m k ph st" and calm: "calm_fam_step a st = Some st'"
  shows "\<exists>k' ph'. toggle_inv n m k' ph' st'"
proof -
  note step = calm_fam(1) [OF calm]
  show ?thesis
  proof (cases a)
    case (ZLock t)
    then obtain l i where p: "t < length (procs st)" "procs st ! t = Enter l" "zem_of l = Some i"
      "st' = st\<lparr>procs := (procs st)[t := Inside l], owners := (owners st)[i := Some t]\<rparr>"
      using step by (auto elim: fam_lock_step simp del: fam_step.simps)
    have "thread_ok n m k ph t (Enter l)" "0 < n" using inv p(1,2) by (auto simp: toggle_inv_def)
    from thread_ok_lock [OF this p(3)] have "thread_ok n m k ph t (Inside l)" .
    then have "toggle_inv n m k ph st'" using inv p(1,4) by (auto simp: toggle_inv_def nth_list_update)
    then show ?thesis by blast
  next
    case (ZRun t ws)
    then show ?thesis using toggle_run inv step by blast
  next
    case (ZPrint t)
    then obtain x r b where p: "t < length (procs st)" "procs st ! t = Enter (Print x # r, b)"
      "st' = st\<lparr>procs := (procs st)[t := after_leave (next_instr r)], prints := prints st @ [x]\<rparr>"
      using step by (auto elim: fam_print_step simp del: fam_step.simps)
    have "thread_ok n m k ph t (Enter (Print x # r, b))" "0 < n" "ph \<le> 2" using inv p(1,2) by (auto simp: toggle_inv_def)
    note q = thread_ok_print [OF this]
    then have "thread_ok n m k 2 t (after_leave (next_instr r))"
      using token_round [of n k m] inv by (auto simp: thread_ok_def toggle_code_Suc next_instr_def toggle_inv_def)
    moreover have "thread_ok n m k 2 j p = thread_ok n m k 1 j p" if "j \<noteq> t" for j p
      using that q by (simp add: thread_ok_def)
    ultimately have "toggle_inv n m k 2 st'"
      unfolding p(3) using inv p(1) q by (auto simp: toggle_inv_def nth_list_update)
    then show ?thesis by blast
  qed (use calm_fam(2) [OF calm] in blast)
qed

interpretation toggle: step_invariant calm_fam_step "\<lambda>st. owners_ok st \<and> (\<exists>k ph. toggle_inv n m k ph st)" for n m
proof
  fix st st' :: "nat family" and a
  assume "owners_ok st \<and> (\<exists>k ph. toggle_inv n m k ph st)" "calm_fam_step a st = Some st'"
  then show "owners_ok st' \<and> (\<exists>k ph. toggle_inv n m k ph st')"
    using fam_step_owners_ok [OF _ calm_fam(1)] toggle_step by metis
qed

lemma toggle_init_inv:
  assumes "0 < n"
  shows "toggle_inv n m 0 0 (toggle_init n m)"
proof -
  have "thread_ok n m 0 0 j (after_leave (next_instr (toggle_code n j m)))" for j
    using assms resting_start by (simp add: thread_ok_def rounds_left_def)
  then show ?thesis
    using assms by (auto simp: toggle_inv_def toggle_init_def fam_init_def zem_up_def zem_init_def nth_list_update)
qed

lemma thread_ok_labels:
  assumes ok: "thread_ok n m k ph j p" and n: "0 < n" "j < n" and l: "label_of p = Some l"
  shows "(\<exists>x r b. l = (Print x # r, b)) \<or> (\<exists>i<n. zem_of l = Some i)"
proof (cases "j = k mod n \<and> ph \<noteq> 0")
  case True
  then have "(\<exists>x r. l = (Print x # r, False)) \<or> (\<exists>r. l = (ZUp (Suc j mod n) # r, False))"
    using ok n l by (auto simp: thread_ok_def Let_def token_round toggle_code_Suc split: if_splits)
  then have "(\<exists>x r. l = (Print x # r, False)) \<or> zem_of l = Some (Suc j mod n)" by auto
  moreover have "Suc j mod n < n" using n(1) by simp
  ultimately show ?thesis by blast
next
  case False
  then have "resting (j = k mod n) j (toggle_code n j (rounds_left n m k j)) p" using ok by (auto simp: thread_ok_def)
  then have "zem_of l = Some j"
    using l by (cases "rounds_left n m k j") (auto simp: resting_def split: if_splits)
  then show ?thesis using n(2) by blast
qed

lemma toggle_stuck:
  assumes inv: "toggle_inv n m k ph st" "owners_ok st" and s: "fam_stuck st"
  shows "ph = 0 \<and> k = n * m"
proof -
  have n: "0 < n" "length (procs st) = n" "length (zems st) = n" "k mod n < n" "k \<le> n * m" "ph \<le> 2"
    using inv(1) by (auto simp: toggle_inv_def)
  have "labels_ok st"
    unfolding labels_ok_def n(2,3) using thread_ok_labels [OF _ n(1)] inv(1) unfolding toggle_inv_def by blast
  then have idle: "is_asleep (procs st ! (k mod n)) \<or> procs st ! (k mod n) = Done"
    using fam_stuck_idle [OF inv(2) _ s] n(2,4) by blast
  have ok: "thread_ok n m k ph (k mod n) (procs st ! (k mod n))" using inv(1) n(4) by (simp add: toggle_inv_def)
  then have ph: "ph = 0" using idle by (auto simp: thread_ok_def Let_def split: if_splits)
  then have "m - k div n = 0" using ok idle by (auto simp: thread_ok_def resting_def rounds_left_holder split: if_splits)
  then have "\<not> k < n * m" using token_round [OF n(1)] by simp
  then show ?thesis using ph n(5) by simp
qed

section \<open>Properties of the toggle test\<close>

text \<open>
  Programs on zemaphores always come to an end without spurious wakeups: no run is longer than
  four actions per instruction of its threads, whatever the zemaphores and the schedule.
\<close>

theorem zem_programs_terminate:
  assumes "exec calm_fam_step (fam_init zs scripts) sched = Some st"
  shows "length sched \<le> 4 * sum_list (map length scripts)"
  using zem_programs.run_length [OF TrueI assms] by (simp add: fam_init_weight)

text \<open>
  The toggle test with any number of threads and rounds: in every run the threads print in turn,
  0, 1, 2, 0, 1, 2 and so on, and the program does not deadlock: when nothing can happen any more
  every thread has printed in all its rounds and has returned.
\<close>

theorem toggle_prints_in_turn:
  assumes "0 < n" and "exec calm_fam_step (toggle_init n m) sched = Some st"
  shows "prints st = map (\<lambda>i. i mod n) [0..<length (prints st)] \<and>
     (fam_stuck st \<longrightarrow> length (prints st) = n * m \<and> (\<forall>p\<in>set (procs st). p = Done))"
proof -
  have "owners_ok (toggle_init n m)" by (simp add: toggle_init_def fam_init_owners_ok)
  then have "owners_ok st \<and> (\<exists>k ph. toggle_inv n m k ph st)"
    using toggle.exec_inv [OF _ assms(2), of n m] toggle_init_inv [OF assms(1)] by blast
  then obtain k ph where inv: "owners_ok st" "toggle_inv n m k ph st" by blast
  then have p: "prints st = map (\<lambda>i. i mod n) [0..<k + of_bool (ph = 2)]" by (simp add: toggle_inv_def)
  have "length (prints st) = n * m \<and> (\<forall>p\<in>set (procs st). p = Done)" if "fam_stuck st"
  proof -
    note e = toggle_stuck [OF inv(2,1) that]
    have "procs st ! j = Done" if "j < n" for j
      using inv(2) that e assms(1) by (auto simp: toggle_inv_def thread_ok_def resting_def rounds_left_def split: if_splits)
    moreover have "length (procs st) = n" using inv(2) by (simp add: toggle_inv_def)
    ultimately show ?thesis using p e by (auto simp: in_set_conv_nth)
  qed
  then show ?thesis using p by simp
qed

text \<open>Two threads, one round; thread 1 comes first and has to wait.\<close>

definition toggle_sched :: "fam_action list" where
  "toggle_sched = [ZLock 1, ZRun 1 [], ZLock 0, ZRun 0 [], ZPrint 0, ZLock 0, ZRun 0 [1], ZLock 1, ZRun 1 [], ZPrint 1,
     ZLock 1, ZRun 1 []]"

lemma toggle_run_end:
  "map_option (\<lambda>st. (prints st, procs st)) (exec calm_fam_step (toggle_init 2 1) toggle_sched) = Some ([0, 1], [Done, Done])"
  by code_simp

theorem toggle_prints_in_turn_witness:
  "\<exists>st. exec calm_fam_step (toggle_init 2 1) toggle_sched = Some st \<and> prints st = [0, 1] \<and>
     (fam_stuck st \<longrightarrow> length (prints st) = 2 * 1)"
proof -
  obtain st where st: "exec calm_fam_step (toggle_init 2 1) toggle_sched = Some st" "prints st = [0, 1]"
    using toggle_run_end unfolding map_option_eq_Some prod.inject by (elim exE conjE)
  from toggle_prints_in_turn [OF _ st(1)] st show ?thesis by auto
qed

theorem zem_programs_terminate_witness:
  "length toggle_sched \<le> 4 * sum_list (map length [toggle_code 2 0 1, toggle_code 2 1 1])"
proof -
  obtain st where "exec calm_fam_step (toggle_init 2 1) toggle_sched = Some st"
    using toggle_run_end unfolding map_option_eq_Some by blast
  then have "exec calm_fam_step (fam_init ((replicate 2 (zem_init 0))[0 := fst (zem_up (0 :: nat) (Return :: (nat, nat zlabel) leave) (zem_init 0))])
      [toggle_code 2 0 1, toggle_code 2 1 1]) toggle_sched = Some st"
    by (simp add: toggle_init_def upt_rec)
  from zem_programs_terminate [OF this] show ?thesis .
qed

end
