(* ===== verification/TestZem.thy ===== *)
theory TestZem
  imports ZemTests
begin

text \<open>
  \<open>zemaphore/test-zem.c\<close>: the main thread lets two threads print, one after the other, with a
  zemaphore \<open>child\<close> (number 0) on which both wait and a zemaphore \<open>parent\<close> (number 1) on which the
  main thread waits.
\<close>

section \<open>The program\<close>

datatype message = ThreadSays nat | MainFirst | OnePrinted | SecondPrinted

definition child_code :: "nat \<Rightarrow> message instr list" where
  "child_code j = [ZDown 0, Print (ThreadSays j), ZUp 1]"

definition parent_code :: "message instr list" where
  "parent_code = [Print MainFirst, ZUp 0, ZDown 1, Print OnePrinted, ZUp 0, ZDown 1, Print SecondPrinted]"

definition test_zem_init :: "message family" where
  "test_zem_init = fam_init [zem_init 0, zem_init 0] [parent_code, child_code 1, child_code 2]"

section \<open>What may be printed\<close>

fun says :: "message \<Rightarrow> bool" where "says (ThreadSays j) = True" | "says m = False"

definition said :: "message list \<Rightarrow> nat" where "said xs = length (filter says xs)"

text \<open>The main thread comes first, and what it reports has happened.\<close>

definition orderly :: "message list \<Rightarrow> bool" where
  "orderly xs \<longleftrightarrow> (xs \<noteq> [] \<longrightarrow> hd xs = MainFirst) \<and>
     (\<forall>i<length xs. (xs ! i = OnePrinted \<longrightarrow> 1 \<le> said (take i xs)) \<and> (xs ! i = SecondPrinted \<longrightarrow> 2 \<le> said (take i xs)))"

lemma orderly_Nil [simp]: "orderly []"
  by (simp add: orderly_def)

lemma said_snoc [simp]: "said (xs @ [x]) = said xs + of_bool (says x)"
  by (simp add: said_def)

lemma orderly_snoc:
  assumes "orderly xs" "xs = [] \<Longrightarrow> x = MainFirst" "x = OnePrinted \<Longrightarrow> 1 \<le> said xs" "x = SecondPrinted \<Longrightarrow> 2 \<le> said xs"
  shows "orderly (xs @ [x])"
proof -
  have "hd (xs @ [x]) = MainFirst" using assms(1,2) by (cases xs) (auto simp: orderly_def)
  moreover have "((xs @ [x]) ! i = OnePrinted \<longrightarrow> 1 \<le> said (take i (xs @ [x]))) \<and>
      ((xs @ [x]) ! i = SecondPrinted \<longrightarrow> 2 \<le> said (take i (xs @ [x])))" if "i < length (xs @ [x])" for i
  proof (cases "i = length xs")
    case True
    then show ?thesis using assms(3,4) by auto
  next
    case False
    then have "i < length xs" using that by simp
    then show ?thesis using assms(1) unfolding orderly_def by (simp add: nth_append)
  qed
  ultimately show ?thesis unfolding orderly_def by blast
qed

section \<open>The invariant\<close>

definition left :: "(nat, message zlabel) thread \<Rightarrow> nat" where
  "left p = (case label_of p of None \<Rightarrow> 0 | Some l \<Rightarrow> length (fst l))"

fun resumed :: "(nat, message zlabel) thread \<Rightarrow> bool" where
  "resumed (Enter (c, b)) = b" | "resumed (Inside (c, b)) = b" | "resumed p = False"

text \<open>Where a thread with code \<open>c\<close> can be, if it waits on zemaphore \<open>i\<close> at the places \<open>ws\<close> only.\<close>

definition place_ok :: "message instr list \<Rightarrow> nat \<Rightarrow> nat set \<Rightarrow> (nat, message zlabel) thread \<Rightarrow> bool" where
  "place_ok c i ws p \<longleftrightarrow>
     (\<forall>d b. label_of p = Some (d, b) \<longrightarrow> d \<noteq> [] \<and> length d \<le> length c \<and> d = drop (length c - length d) c \<and>
        (b \<longrightarrow> length d \<in> ws)) \<and>
     (is_asleep p \<longrightarrow> asleep_on i p \<and> left p \<in> ws)"

definition ups_done :: "nat \<Rightarrow> int" where "ups_done l = of_bool (l \<le> 5) + of_bool (l \<le> 2)"
definition downs_done :: "nat \<Rightarrow> int" where "downs_done l = of_bool (l \<le> 4) + of_bool (l \<le> 1)"

definition tz_inv :: "zem_t \<Rightarrow> zem_t \<Rightarrow> (nat, message zlabel) thread \<Rightarrow> (nat, message zlabel) thread list \<Rightarrow> message list \<Rightarrow> bool" where
  "tz_inv z0 z1 pm cs ms \<longleftrightarrow>
     place_ok parent_code 1 {5, 2} pm \<and> length cs = 2 \<and> (\<forall>j<2. place_ok (child_code (Suc j)) 0 {3} (cs ! j)) \<and>
     count z0 = ups_done (left pm) - int (num (\<lambda>p. left p \<le> 2) cs) \<and>
     count z1 = int (num (\<lambda>p. left p = 0) cs) - downs_done (left pm) \<and>
     0 \<le> count z1 \<and> (is_asleep pm \<longrightarrow> count z1 = 0) \<and> (resumed pm \<longrightarrow> 0 < count z1) \<and>
     (\<forall>j<2. resumed (cs ! j) \<or> left (cs ! j) \<le> 2 \<longrightarrow> left pm \<le> 5) \<and>
     int (sleepers 0 cs) + ups_done (left pm) \<le> 2 \<and>
     orderly ms \<and> said ms = num (\<lambda>p. left p \<le> 1) cs \<and> (ms = [] \<longleftrightarrow> left pm = 7)"

definition tz_state :: "message family \<Rightarrow> bool" where
  "tz_state st \<longleftrightarrow> (\<exists>z0 z1 pm cs. zems st = [z0, z1] \<and> procs st = pm # cs \<and> tz_inv z0 z1 pm cs (prints st))"

lemma left_simps [simp]:
  "left (Enter l) = length (fst l)" "left (Inside l) = length (fst l)" "left (Asleep c l) = length (fst l)" "left Done = 0"
  by (simp_all add: left_def)

lemma left_next [simp]: "left (after_leave (next_instr r)) = length r"
  by (simp add: next_instr_def)

lemma next_awake [simp]: "\<not> is_asleep (after_leave (next_instr r))" "\<not> resumed (after_leave (next_instr r))"
  "\<not> asleep_on i (after_leave (next_instr r))"
  by (simp_all add: next_instr_def)

lemma left_woken: "woken p q \<Longrightarrow> left q = left p"
  by (simp add: left_def label_woken)

lemma place_next:
  assumes "place_ok c i ws p" "label_of p = Some (x # r, b)"
  shows "place_ok c i ws (after_leave (next_instr r))"
proof -
  have "x # r = drop (length c - Suc (length r)) c" "Suc (length r) \<le> length c" using assms by (auto simp: place_ok_def)
  then have "r = drop (length c - length r) c"
    by (metis Suc_diff_Suc Suc_le_lessD drop_Suc list.sel(3) tl_drop)
  then show ?thesis using \<open>Suc (length r) \<le> length c\<close> by (auto simp: place_ok_def next_instr_def)
qed

lemma place_woken: "place_ok c i ws p \<Longrightarrow> woken p q \<Longrightarrow> place_ok c i ws q"
  by (auto simp: place_ok_def label_woken left_woken elim: woken.cases)

text \<open>The instruction a thread is at, by what it has left.\<close>

lemma parent_at:
  assumes "place_ok parent_code 1 {5, 2} p" "label_of p = Some (x # r, b)"
  shows "case x of
     ZDown i \<Rightarrow> i = 1 \<and> (left p = 5 \<or> left p = 2)
   | ZUp i \<Rightarrow> i = 0 \<and> (left p = 6 \<or> left p = 3) \<and> \<not> b
   | Print m \<Rightarrow> (left p, m) \<in> {(7, MainFirst), (4, OnePrinted), (1, SecondPrinted)}"
proof -
  let ?n = "length r"
  have len: "length parent_code = 7" by (simp add: parent_code_def)
  have d: "x # r = drop (7 - Suc ?n) parent_code" "Suc ?n \<le> 7" and b: "b \<longrightarrow> Suc ?n = 5 \<or> Suc ?n = 2"
    using assms unfolding place_ok_def len by force+
  have l: "left p = Suc ?n" using assms(2) by (simp add: left_def)
  have "?n = 0 \<or> ?n = 1 \<or> ?n = 2 \<or> ?n = 3 \<or> ?n = 4 \<or> ?n = 5 \<or> ?n = 6" using d(2) by arith
  then show ?thesis using d(1) b l by (elim disjE) (simp_all add: parent_code_def)
qed

lemma child_at:
  assumes "place_ok (child_code j) 0 {3} p" "label_of p = Some (x # r, b)"
  shows "case x of
     ZDown i \<Rightarrow> i = 0 \<and> left p = 3
   | ZUp i \<Rightarrow> i = 1 \<and> left p = 1 \<and> \<not> b
   | Print m \<Rightarrow> m = ThreadSays j \<and> left p = 2"
proof -
  let ?n = "length r"
  have len: "length (child_code j) = 3" by (simp add: child_code_def)
  have d: "x # r = drop (3 - Suc ?n) (child_code j)" "Suc ?n \<le> 3" and b: "b \<longrightarrow> Suc ?n = 3"
    using assms unfolding place_ok_def len by force+
  have l: "left p = Suc ?n" using assms(2) by (simp add: left_def)
  have "?n = 0 \<or> ?n = 1 \<or> ?n = 2" using d(2) by arith
  then show ?thesis using d(1) b l by (elim disjE) (simp_all add: child_code_def)
qed

lemma wakeups_Cons:
  assumes "wakeups es ws (p # ps) = Some qs"
  obtains q qs' where "qs = q # qs'" "woken p q" "length qs' = length ps" "\<And>j. j < length ps \<Longrightarrow> woken (ps ! j) (qs' ! j)"
proof -
  have n: "length qs = Suc (length ps)" using wakeups_nth(1) [OF assms] by simp
  then obtain q qs' where q: "qs = q # qs'" by (cases qs) auto
  have "woken p q" using wakeups_nth(2) [OF assms, of 0] q by simp
  moreover have "woken (ps ! j) (qs' ! j)" if "j < length ps" for j
    using wakeups_nth(2) [OF assms, of "Suc j"] q that by simp
  ultimately show ?thesis using that q n by simp
qed

lemma num_left_woken:
  assumes "length qs = length ps" "\<And>j. j < length ps \<Longrightarrow> woken (ps ! j) (qs ! j)"
  shows "num (\<lambda>p. P (left p)) qs = num (\<lambda>p. P (left p)) ps"
proof -
  have "map left qs = map left ps" using assms by (auto intro!: nth_equalityI simp: left_woken)
  moreover have "num (\<lambda>p. P (left p)) xs = length (filter P (map left xs))" for xs
    by (simp add: num_def filter_map comp_def)
  ultimately show ?thesis by metis
qed

lemma main_up:
  assumes inv: "tz_inv z0 z1 (Inside (ZUp i # r, b)) cs ms" and w: "wakeups [Signal i] ws (Inside (ZUp i # r, b) # cs) = Some ps"
  shows "i = 0 \<and> tz_inv (z0\<lparr>count := count z0 + 1, ups := Suc (ups z0)\<rparr>) z1 (after_leave (next_instr r)) (tl ps) ms"
proof -
  let ?pm = "Inside (ZUp i # r, b)"
  have pl: "place_ok parent_code 1 {5, 2} ?pm" using inv by (simp add: tz_inv_def)
  from parent_at [OF pl] have at: "i = 0" "Suc (length r) = 6 \<or> Suc (length r) = 3" by simp_all
  from w obtain q cs' where ps: "ps = q # cs'" "woken ?pm q" and l: "length cs' = length cs"
    and wk: "\<And>j. j < length cs \<Longrightarrow> woken (cs ! j) (cs' ! j)" by (rule wakeups_Cons) (rule that)
  note same = num_left_woken [OF l wk, of "\<lambda>k. k \<le> 2"] num_left_woken [OF l wk, of "\<lambda>k. k = 0"]
    num_left_woken [OF l wk, of "\<lambda>k. k \<le> 1"]
  have len: "length cs = 2" using inv by (simp add: tz_inv_def)
  have lw: "left (cs' ! j) = left (cs ! j)" if "j < 2" for j using left_woken [OF wk] that len by simp
  have pw: "place_ok (child_code (Suc j)) 0 {3} (cs' ! j)" if "j < 2" for j
    using place_woken [OF _ wk] that inv len by (simp add: tz_inv_def)
  have "int (sleepers 0 (q # cs')) = int (sleepers 0 (?pm # cs)) - of_bool (0 < sleepers 0 (?pm # cs))"
    using signal_sleepers [OF w, of 0] at(1) ps(1) by simp
  moreover have "q = ?pm" using ps(2) by simp
  ultimately have sl: "int (sleepers 0 cs') = int (sleepers 0 cs) - of_bool (0 < sleepers 0 cs)"
    by (simp add: sleepers_def num_def)
  have u: "ups_done (length r) = ups_done (Suc (length r)) + 1" "downs_done (length r) = downs_done (Suc (length r))"
    "ups_done (length r) \<le> 2" "length r \<le> 5"
    using at(2) by (auto simp: ups_done_def downs_done_def)
  have "int (sleepers 0 cs') + ups_done (length r) \<le> 2"
    using sl u(1,3) inv by (cases "0 < sleepers 0 cs") (auto simp: tz_inv_def)
  moreover have "place_ok parent_code 1 {5, 2} (after_leave (next_instr r))" by (rule place_next [OF pl]) simp
  moreover have "length r \<noteq> 7" "Suc (length r) \<noteq> 7" using at(2) by auto
  ultimately show ?thesis
    using inv at(1) l len pw same u unfolding tz_inv_def ps(1) by (simp add: lw)
qed

lemma main_down:
  assumes inv: "tz_inv z0 z1 (Inside (ZDown i # r, b)) cs ms"
  shows "i = 1 \<and> (if \<not> b \<and> count z1 \<le> 0 then tz_inv z0 z1 (Asleep 1 (ZDown i # r, True)) cs ms
     else tz_inv z0 (z1\<lparr>count := count z1 - 1, downs := Suc (downs z1)\<rparr>) (after_leave (next_instr r)) cs ms)"
proof -
  let ?pm = "Inside (ZDown i # r, b)"
  have pl: "place_ok parent_code 1 {5, 2} ?pm" using inv by (simp add: tz_inv_def)
  from parent_at [OF pl] have at: "i = 1" "Suc (length r) = 5 \<or> Suc (length r) = 2" by simp_all
  have u: "downs_done (length r) = downs_done (Suc (length r)) + 1" "ups_done (length r) = ups_done (Suc (length r))"
    "length r \<noteq> 7" "Suc (length r) \<noteq> 7" "length r \<le> 5"
    using at(2) by (auto simp: ups_done_def downs_done_def)
  show ?thesis
  proof (cases "\<not> b \<and> count z1 \<le> 0")
    case True
    have "place_ok parent_code 1 {5, 2} (Asleep 1 (ZDown i # r, True))"
      using pl at(2) by (auto simp: place_ok_def)
    moreover have "count z1 = 0" using True inv by (simp add: tz_inv_def)
    ultimately show ?thesis using True inv at(1) by (simp add: tz_inv_def)
  next
    case False
    then have "0 < count z1" using inv by (auto simp: tz_inv_def)
    moreover have "place_ok parent_code 1 {5, 2} (after_leave (next_instr r))" by (rule place_next [OF pl]) simp
    ultimately show ?thesis using False inv at(1) u by (simp add: tz_inv_def)
  qed
qed

lemma main_print:
  assumes inv: "tz_inv z0 z1 (Enter (Print m # r, b)) cs ms"
  shows "tz_inv z0 z1 (after_leave (next_instr r)) cs (ms @ [m])"
proof -
  let ?pm = "Enter (Print m # r, b)"
  have pl: "place_ok parent_code 1 {5, 2} ?pm" using inv by (simp add: tz_inv_def)
  from parent_at [OF pl] have at: "(Suc (length r), m) \<in> {(7, MainFirst), (4, OnePrinted), (1, SecondPrinted)}" by simp
  have u: "ups_done (length r) = ups_done (Suc (length r))" "downs_done (length r) = downs_done (Suc (length r))"
    "length r \<noteq> 7" "\<not> says m"
    using at by (auto simp: ups_done_def downs_done_def)
  have pl': "place_ok parent_code 1 {5, 2} (after_leave (next_instr r))" by (rule place_next [OF pl]) simp
  have mono: "num (\<lambda>p. left p = 0) cs \<le> num (\<lambda>p. left p \<le> 1) cs" by (rule num_mono) simp
  have dn: "downs_done (Suc (length r)) \<le> int (num (\<lambda>p. left p = 0) cs)" using inv by (simp add: tz_inv_def)
  have "orderly (ms @ [m])"
  proof (rule orderly_snoc)
    show "orderly ms" using inv by (simp add: tz_inv_def)
    show "m = MainFirst" if "ms = []" using inv that at by (auto simp: tz_inv_def)
    show "1 \<le> said ms" if "m = OnePrinted" using at that dn mono inv by (auto simp: tz_inv_def downs_done_def)
    show "2 \<le> said ms" if "m = SecondPrinted" using at that dn mono inv by (auto simp: tz_inv_def downs_done_def)
  qed
  moreover have "resumed (cs ! j) \<or> left (cs ! j) \<le> 2 \<longrightarrow> length r \<le> 5" if "j < 2" for j
    using inv that by (auto simp: tz_inv_def)
  ultimately show ?thesis using inv u pl' unfolding tz_inv_def by simp
qed

lemma num_disjoint:
  assumes "j < length ps" "\<not> f (ps ! j)" "\<not> g (ps ! j)" "\<And>p. p \<in> set ps \<Longrightarrow> f p \<Longrightarrow> \<not> g p"
  shows "num f ps + num g ps < length ps"
proof -
  have "num f qs + num g qs = num (\<lambda>p. f p \<or> g p) qs" if "set qs \<subseteq> set ps" for qs
    using that assms(4) by (induction qs) (auto simp: num_def)
  moreover have "num (\<lambda>p. f p \<or> g p) ps < length ps"
    unfolding num_def using assms(1-3) by (intro length_filter_less [of "ps ! j"]) auto
  ultimately show ?thesis by simp
qed

text \<open>The counts after one child has moved on.\<close>

lemma child_counts:
  assumes "j < length cs"
  shows "int (num (\<lambda>p. left p \<le> k) (cs[j := p])) = int (num (\<lambda>p. left p \<le> k) cs) - of_bool (left (cs ! j) \<le> k) + of_bool (left p \<le> k)"
    "int (num (\<lambda>p. left p = k) (cs[j := p])) = int (num (\<lambda>p. left p = k) cs) - of_bool (left (cs ! j) = k) + of_bool (left p = k)"
    "int (sleepers i (cs[j := p])) = int (sleepers i cs) - of_bool (asleep_on i (cs ! j)) + of_bool (asleep_on i p)"
  using num_update [OF assms, of "\<lambda>p. left p \<le> k" p] num_update [OF assms, of "\<lambda>p. left p = k" p]
    sleepers_update [OF assms, of i p] by simp_all

lemma child_down:
  assumes inv: "tz_inv z0 z1 pm cs ms" and j: "j < 2" "cs ! j = Inside (ZDown i # r, b)"
  shows "i = 0 \<and> (if \<not> b \<and> count z0 \<le> 0 then tz_inv z0 z1 pm (cs[j := Asleep 0 (ZDown i # r, True)]) ms
     else tz_inv (z0\<lparr>count := count z0 - 1, downs := Suc (downs z0)\<rparr>) z1 pm (cs[j := after_leave (next_instr r)]) ms)"
proof -
  have len: "length cs = 2" "j < length cs" using inv j(1) by (simp_all add: tz_inv_def)
  have pl: "place_ok (child_code (Suc j)) 0 {3} (cs ! j)" using inv j(1) by (simp add: tz_inv_def)
  from child_at [OF pl] j(2) have at: "i = 0" "Suc (length r) = 3" by simp_all
  show ?thesis
  proof (cases "\<not> b \<and> count z0 \<le> 0")
    case True
    let ?p = "Asleep 0 (ZDown i # r, True)"
    have lp: "left ?p = 3" "left (cs ! j) = 3" "r \<noteq> []" using at(2) j(2) by auto
    have "sleepers 0 cs + num (\<lambda>p. left p \<le> 2) cs < length cs"
      unfolding sleepers_def
    proof (rule num_disjoint [OF len(2)])
      fix p assume "p \<in> set cs" "asleep_on 0 p"
      then obtain k where k: "k < 2" "cs ! k = p" using len(1) by (auto simp: in_set_conv_nth)
      moreover have "is_asleep p" using \<open>asleep_on 0 p\<close> by (cases p) auto
      ultimately have "left p = 3" using inv by (auto simp: tz_inv_def place_ok_def)
      then show "\<not> left p \<le> 2" by simp
    qed (use j(2) lp in simp_all)
    then have "int (sleepers 0 (cs[j := ?p])) + ups_done (left pm) \<le> 2"
      using child_counts(3) [OF len(2), of 0 ?p] j(2) True inv len(1) by (simp add: tz_inv_def)
    moreover have "num (\<lambda>p. left p \<le> 2) (cs[j := ?p]) = num (\<lambda>p. left p \<le> 2) cs"
      "num (\<lambda>p. left p = 0) (cs[j := ?p]) = num (\<lambda>p. left p = 0) cs"
      "num (\<lambda>p. left p \<le> 1) (cs[j := ?p]) = num (\<lambda>p. left p \<le> 1) cs"
      using child_counts(1) [OF len(2), of 2 ?p] child_counts(2) [OF len(2), of 0 ?p] child_counts(1) [OF len(2), of 1 ?p] lp
      by simp_all
    moreover have "place_ok (child_code (Suc j)) 0 {3} ?p" using pl at(2) j(2) by (auto simp: place_ok_def)
    ultimately show ?thesis
      using True at(1) inv len lp unfolding tz_inv_def by (auto simp: nth_list_update)
  next
    case False
    let ?p = "after_leave (next_instr r) :: (nat, message zlabel) thread"
    have lp: "left ?p = 2" "left (cs ! j) = 3" "r \<noteq> []" using at(2) j(2) by auto
    have "left pm \<le> 5"
    proof (cases b)
      case True
      then show ?thesis using inv j by (auto simp: tz_inv_def)
    next
      case nb: False
      then have "0 < ups_done (left pm)" using False inv by (auto simp: tz_inv_def)
      then show ?thesis by (auto simp: ups_done_def of_bool_def split: if_splits)
    qed
    moreover have "int (num (\<lambda>p. left p \<le> 2) (cs[j := ?p])) = int (num (\<lambda>p. left p \<le> 2) cs) + 1"
      "num (\<lambda>p. left p = 0) (cs[j := ?p]) = num (\<lambda>p. left p = 0) cs"
      "num (\<lambda>p. left p \<le> 1) (cs[j := ?p]) = num (\<lambda>p. left p \<le> 1) cs" "sleepers 0 (cs[j := ?p]) = sleepers 0 cs"
      using child_counts(1) [OF len(2), of 2 ?p] child_counts(2) [OF len(2), of 0 ?p] child_counts(1) [OF len(2), of 1 ?p]
        child_counts(3) [OF len(2), of 0 ?p] lp j(2) by simp_all
    moreover have "place_ok (child_code (Suc j)) 0 {3} ?p" by (rule place_next [OF pl]) (simp add: j(2))
    ultimately show ?thesis
      using False at(1) inv len lp unfolding tz_inv_def by (auto simp: nth_list_update)
  qed
qed

lemma child_print:
  assumes inv: "tz_inv z0 z1 pm cs ms" and j: "j < 2" "cs ! j = Enter (Print m # r, b)"
  shows "tz_inv z0 z1 pm (cs[j := after_leave (next_instr r)]) (ms @ [m])"
proof -
  let ?p = "after_leave (next_instr r) :: (nat, message zlabel) thread"
  have len: "length cs = 2" "j < length cs" using inv j(1) by (simp_all add: tz_inv_def)
  have pl: "place_ok (child_code (Suc j)) 0 {3} (cs ! j)" using inv j(1) by (simp add: tz_inv_def)
  from child_at [OF pl] j(2) have at: "m = ThreadSays (Suc j)" "Suc (length r) = 2" by simp_all
  have lp: "left ?p = 1" "left (cs ! j) = 2" "r \<noteq> []" using at(2) j(2) by auto
  have "left pm \<le> 5" using inv j(1) lp(2) by (auto simp: tz_inv_def)
  then have "ms \<noteq> []" using inv by (auto simp: tz_inv_def)
  then have "orderly (ms @ [m])" using inv at(1) by (intro orderly_snoc) (auto simp: tz_inv_def)
  moreover have "num (\<lambda>p. left p \<le> 2) (cs[j := ?p]) = num (\<lambda>p. left p \<le> 2) cs"
    "num (\<lambda>p. left p = 0) (cs[j := ?p]) = num (\<lambda>p. left p = 0) cs"
    "num (\<lambda>p. left p \<le> 1) (cs[j := ?p]) = num (\<lambda>p. left p \<le> 1) cs + 1" "sleepers 0 (cs[j := ?p]) = sleepers 0 cs"
    using child_counts(1) [OF len(2), of 2 ?p] child_counts(2) [OF len(2), of 0 ?p] child_counts(1) [OF len(2), of 1 ?p]
      child_counts(3) [OF len(2), of 0 ?p] lp j(2) by simp_all
  moreover have "place_ok (child_code (Suc j)) 0 {3} ?p" by (rule place_next [OF pl]) (simp add: j(2))
  ultimately show ?thesis
    using inv len at(1) \<open>left pm \<le> 5\<close> unfolding tz_inv_def by (auto simp: nth_list_update)
qed

lemma child_up:
  assumes inv: "tz_inv z0 z1 pm cs ms" and j: "j < 2" "cs ! j = Inside (ZUp i # r, b)"
    and w: "wakeups [Signal i] ws (pm # cs) = Some ps"
  shows "i = 1 \<and> (\<exists>pm'. ps = pm' # cs \<and>
     tz_inv z0 (z1\<lparr>count := count z1 + 1, ups := Suc (ups z1)\<rparr>) pm' (cs[j := after_leave (next_instr r)]) ms)"
proof -
  let ?p = "after_leave (next_instr r) :: (nat, message zlabel) thread"
  have len: "length cs = 2" "j < length cs" using inv j(1) by (simp_all add: tz_inv_def)
  have pl: "place_ok (child_code (Suc j)) 0 {3} (cs ! j)" using inv j(1) by (simp add: tz_inv_def)
  from child_at [OF pl] j(2) have at: "i = 1" "Suc (length r) = 1" by simp_all
  have lp: "left ?p = 0" "left (cs ! j) = 1" using at(2) j(2) by simp_all
  have main: "is_asleep pm \<longrightarrow> asleep_on 1 pm" using inv by (auto simp: tz_inv_def place_ok_def)
  have child: "\<not> asleep_on 1 (cs ! k)" if "k < 2" for k
  proof
    assume "asleep_on 1 (cs ! k)"
    moreover from this have "is_asleep (cs ! k)" by (cases "cs ! k") auto
    ultimately show False using inv that by (cases "cs ! k") (auto simp: tz_inv_def place_ok_def)
  qed
  obtain pm' where pm': "ps = pm' # cs" "woken pm pm'" "\<not> is_asleep pm'"
    using w [unfolded at(1)]
  proof (cases rule: signal_one)
    case nobody
    then have "\<not> is_asleep pm" using main sleepers_pos [of 1 "pm # cs"] by auto
    then show ?thesis using that nobody(2) woken.stays by blast
  next
    case (one k)
    then have "k = 0" using child [of "k - 1"] len(1) by (cases k) auto
    then show ?thesis using that [of "wake pm"] one(3) woken_wake [of pm] by (cases pm) (auto intro: woken.wakes)
  qed
  have "left pm' = left pm" using left_woken [OF pm'(2)] .
  moreover have "place_ok parent_code 1 {5, 2} pm'" using place_woken [OF _ pm'(2)] inv by (simp add: tz_inv_def)
  moreover have "int (num (\<lambda>p. left p = 0) (cs[j := ?p])) = int (num (\<lambda>p. left p = 0) cs) + 1"
    "num (\<lambda>p. left p \<le> 2) (cs[j := ?p]) = num (\<lambda>p. left p \<le> 2) cs"
    "num (\<lambda>p. left p \<le> 1) (cs[j := ?p]) = num (\<lambda>p. left p \<le> 1) cs" "sleepers 0 (cs[j := ?p]) = sleepers 0 cs"
    using child_counts(1) [OF len(2), of 2 ?p] child_counts(2) [OF len(2), of 0 ?p] child_counts(1) [OF len(2), of 1 ?p]
      child_counts(3) [OF len(2), of 0 ?p] lp j(2) by simp_all
  moreover have "place_ok (child_code (Suc j)) 0 {3} ?p" by (rule place_next [OF pl]) (simp add: j(2))
  moreover have "left pm \<le> 5" using inv j(1) lp(2) by (auto simp: tz_inv_def)
  ultimately have "tz_inv z0 (z1\<lparr>count := count z1 + 1, ups := Suc (ups z1)\<rparr>) pm' (cs[j := ?p]) ms"
    using inv len pm'(3) unfolding tz_inv_def by (auto simp: nth_list_update)
  then show ?thesis using at(1) pm'(1) by blast
qed

lemma main_lock: "tz_inv z0 z1 (Enter l) cs ms \<Longrightarrow> tz_inv z0 z1 (Inside l) cs ms"
  by (cases l) (auto simp: tz_inv_def place_ok_def)

lemma child_lock:
  assumes inv: "tz_inv z0 z1 pm cs ms" and j: "j < 2" "cs ! j = Enter l"
  shows "tz_inv z0 z1 pm (cs[j := Inside l]) ms"
proof -
  have len: "length cs = 2" "j < length cs" using inv j(1) by (simp_all add: tz_inv_def)
  have "int (num (\<lambda>p. left p \<le> k) (cs[j := Inside l])) = int (num (\<lambda>p. left p \<le> k) cs)"
    "int (num (\<lambda>p. left p = k) (cs[j := Inside l])) = int (num (\<lambda>p. left p = k) cs)"
    "int (sleepers 0 (cs[j := Inside l])) = int (sleepers 0 cs)" for k
    using child_counts [OF len(2), of k "Inside l"] child_counts(3) [OF len(2), of 0 "Inside l"] j(2) by simp_all
  moreover have "place_ok (child_code (Suc j)) 0 {3} (Inside l)" using inv j by (auto simp: tz_inv_def place_ok_def)
  moreover have "resumed (Inside l) = resumed (cs ! j)" using j(2) by (cases l) simp
  moreover have "left (Inside l) = left (cs ! j)" using j(2) by simp
  ultimately show ?thesis using inv len unfolding tz_inv_def by (auto simp: nth_list_update)
qed

lemma tz_main_run:
  assumes z: "zems st = [z0, z1]" "procs st = pm # cs" "tz_inv z0 z1 pm cs (prints st)"
    and step: "fam_step (ZRun 0 ws) st = Some st'"
  shows "tz_state st'"
  using step
proof (rule fam_run_step)
  fix l i s es q ps
  assume p: "procs st ! 0 = Inside l" "zem_of l = Some i" "zem_segment l (zems st ! i) = (s, es, q)"
    "wakeups es ws (procs st) = Some ps"
    "st' = st\<lparr>zems := (zems st)[i := s], procs := ps[0 := after_leave q], owners := (owners st)[i := None]\<rparr>"
  have pm: "pm = Inside l" using p(1) z(2) by simp
  from p(2) consider (up) r b where "l = (ZUp i # r, b)" | (down) r b where "l = (ZDown i # r, b)"
    by (cases l rule: zem_of.cases) auto
  then show ?thesis
  proof cases
    case up
    then have u: "s = (zems st ! i)\<lparr>count := count (zems st ! i) + 1, ups := Suc (ups (zems st ! i))\<rparr>"
      "es = [Signal i]" "q = next_instr r" using p(3) by (auto simp: zem_up_def)
    have w: "wakeups [Signal i] ws (Inside (ZUp i # r, b) # cs) = Some ps" using p(4) u(2) z(2) pm up by simp
    then obtain q' cs' where ps: "ps = q' # cs'" by (rule wakeups_Cons)
    from main_up [OF z(3) [unfolded pm up] w] show ?thesis
      unfolding p(5) tz_state_def using z(1) u(1,3) ps by auto
  next
    case down
    then have "es = []" using p(3) by (auto simp: zem_down_def split: if_splits)
    then have "ps = procs st" using p(4) by (simp split: if_splits)
    then show ?thesis
      using main_down [OF z(3) [unfolded pm down]] p(3,5) z(1,2) down unfolding tz_state_def
      by (auto simp: zem_down_def split: if_splits)
  qed
qed

lemma tz_child_run:
  assumes z: "zems st = [z0, z1]" "procs st = pm # cs" "tz_inv z0 z1 pm cs (prints st)" and j: "j < 2"
    and step: "fam_step (ZRun (Suc j) ws) st = Some st'"
  shows "tz_state st'"
  using step
proof (rule fam_run_step)
  fix l i s es q ps
  assume p: "procs st ! Suc j = Inside l" "zem_of l = Some i" "zem_segment l (zems st ! i) = (s, es, q)"
    "wakeups es ws (procs st) = Some ps"
    "st' = st\<lparr>zems := (zems st)[i := s], procs := ps[Suc j := after_leave q], owners := (owners st)[i := None]\<rparr>"
  have cj: "cs ! j = Inside l" using p(1) z(2) by simp
  from p(2) consider (up) r b where "l = (ZUp i # r, b)" | (down) r b where "l = (ZDown i # r, b)"
    by (cases l rule: zem_of.cases) auto
  then show ?thesis
  proof cases
    case up
    then have u: "s = (zems st ! i)\<lparr>count := count (zems st ! i) + 1, ups := Suc (ups (zems st ! i))\<rparr>"
      "es = [Signal i]" "q = next_instr r" using p(3) by (auto simp: zem_up_def)
    have w: "wakeups [Signal i] ws (pm # cs) = Some ps" using p(4) u(2) z(2) by simp
    from child_up [OF z(3) j cj [unfolded up] w] show ?thesis
      unfolding p(5) tz_state_def using z(1) u(1,3) by auto
  next
    case down
    then have "es = []" using p(3) by (auto simp: zem_down_def split: if_splits)
    then have "ps = procs st" using p(4) by (simp split: if_splits)
    then show ?thesis
      using child_down [OF z(3) j cj [unfolded down]] p(3,5) z(1,2) down unfolding tz_state_def
      by (auto simp: zem_down_def split: if_splits)
  qed
qed

lemma tz_step:
  assumes "tz_state st" and calm: "calm_fam_step a st = Some st'"
  shows "tz_state st'"
proof -
  note step = calm_fam(1) [OF calm]
  obtain z0 z1 pm cs where z: "zems st = [z0, z1]" "procs st = pm # cs" "tz_inv z0 z1 pm cs (prints st)"
    using assms(1) unfolding tz_state_def by blast
  have len: "length cs = 2" using z(3) by (simp add: tz_inv_def)
  show ?thesis
  proof (cases a)
    case (ZLock t)
    then obtain l i where p: "t < length (procs st)" "procs st ! t = Enter l"
      "st' = st\<lparr>procs := (procs st)[t := Inside l], owners := (owners st)[i := Some t]\<rparr>"
      using step by (auto elim: fam_lock_step simp del: fam_step.simps)
    show ?thesis
    proof (cases t)
      case 0
      then show ?thesis using p z main_lock [of z0 z1 l cs "prints st"] unfolding tz_state_def by simp
    next
      case (Suc j)
      then show ?thesis using p z len child_lock [OF z(3), of j l] unfolding tz_state_def by auto
    qed
  next
    case (ZRun t ws)
    then have "t < length (procs st)" using step by (auto split: if_splits)
    then show ?thesis
      using ZRun step z len tz_main_run [OF z] tz_child_run [OF z] by (cases t) (simp_all del: fam_step.simps)
  next
    case (ZPrint t)
    then obtain m r b where p: "t < length (procs st)" "procs st ! t = Enter (Print m # r, b)"
      "st' = st\<lparr>procs := (procs st)[t := after_leave (next_instr r)], prints := prints st @ [m]\<rparr>"
      using step by (auto elim: fam_print_step simp del: fam_step.simps)
    show ?thesis
    proof (cases t)
      case 0
      then show ?thesis using p z main_print [of z0 z1 m r b cs "prints st"] unfolding tz_state_def by simp
    next
      case (Suc j)
      then show ?thesis using p z len child_print [OF z(3), of j m r b] unfolding tz_state_def by auto
    qed
  qed (use calm_fam(2) [OF calm] in blast)
qed

interpretation test_zem: step_invariant calm_fam_step "\<lambda>st. owners_ok st \<and> tz_state st"
  by unfold_locales (blast intro: fam_step_owners_ok calm_fam(1) tz_step)

lemma tz_init: "tz_state test_zem_init"
proof -
  have "place_ok c i ws (Enter (c, False))" if "c \<noteq> []" for c i ws using that by (simp add: place_ok_def)
  then have pl: "place_ok parent_code 1 {5, 2} (Enter (parent_code, False))"
    "place_ok (child_code j) 0 {3} (Enter (child_code j, False))" for j
    by (simp_all add: parent_code_def child_code_def)
  define cs :: "(nat, message zlabel) thread list" where "cs = [Enter (child_code 1, False), Enter (child_code 2, False)]"
  have nth: "cs ! j = Enter (child_code (Suc j), False)" if "j < 2" for j
    using less_2_cases [OF that] by (elim disjE) (simp_all add: cs_def numeral_2_eq_2)
  have len: "length parent_code = 7" "length (child_code j) = 3" "length cs = 2" for j
    by (simp_all add: parent_code_def child_code_def cs_def)
  have "num (\<lambda>p. left p \<le> 2) cs = 0" "num (\<lambda>p. left p = 0) cs = 0" "num (\<lambda>p. left p \<le> 1) cs = 0" "sleepers 0 cs = 0"
    by (simp_all add: num_def sleepers_def cs_def len del: length_0_conv)
  then have "tz_inv (zem_init 0) (zem_init 0) (Enter (parent_code, False)) cs []"
    using pl by (auto simp: tz_inv_def nth len ups_done_def downs_done_def zem_init_def said_def)
  then show ?thesis
    unfolding tz_state_def test_zem_init_def fam_init_def cs_def by (simp add: next_instr_def parent_code_def child_code_def)
qed

lemma tz_labels:
  assumes z: "zems st = [z0, z1]" "procs st = pm # cs" and inv: "tz_inv z0 z1 pm cs (prints st)"
  shows "labels_ok st"
  unfolding labels_ok_def
proof (intro allI impI)
  fix t l assume t: "t < length (procs st)" and l: "label_of (procs st ! t) = Some l"
  obtain c i ws where c: "place_ok c i ws (procs st ! t)"
    "\<And>x r b. l = (x # r, b) \<Longrightarrow> case x of ZDown i \<Rightarrow> i < 2 | ZUp i \<Rightarrow> i < 2 | Print m \<Rightarrow> True"
  proof (cases t)
    case 0
    then have p: "place_ok parent_code 1 {5, 2} (procs st ! t)" using inv z(2) by (simp add: tz_inv_def)
    show ?thesis
    proof (rule that [OF p])
      fix x r b assume "l = (x # r, b)"
      from parent_at [OF p] l this show "case x of ZDown i \<Rightarrow> i < 2 | ZUp i \<Rightarrow> i < 2 | Print m \<Rightarrow> True"
        by (cases x) auto
    qed
  next
    case (Suc j)
    then have p: "place_ok (child_code (Suc j)) 0 {3} (procs st ! t)" using inv z(2) t by (simp add: tz_inv_def)
    show ?thesis
    proof (rule that [OF p])
      fix x r b assume "l = (x # r, b)"
      from child_at [OF p] l this show "case x of ZDown i \<Rightarrow> i < 2 | ZUp i \<Rightarrow> i < 2 | Print m \<Rightarrow> True"
        by (cases x) auto
    qed
  qed
  obtain d b where d: "l = (d, b)" by (cases l)
  then have "d \<noteq> []" using c(1) l by (simp add: place_ok_def)
  then obtain x r where x: "d = x # r" by (cases d) auto
  show "(\<exists>m r b. l = (Print m # r, b)) \<or> (\<exists>i<length (zems st). zem_of l = Some i)"
    using c(2) [of x r b] d x z(1) by (cases x) auto
qed

lemma tz_stuck:
  assumes z: "zems st = [z0, z1]" "procs st = pm # cs" and inv: "tz_inv z0 z1 pm cs (prints st)"
    and ok: "owners_ok st" and s: "fam_stuck st"
  shows "\<forall>p\<in>set (procs st). p = Done"
proof -
  have len: "length cs = 2" using inv by (simp add: tz_inv_def)
  have idle: "is_asleep p \<or> p = Done" if "p \<in> set (procs st)" for p
    using fam_stuck_idle [OF ok tz_labels [OF z inv] s] that by (metis in_set_conv_nth)
  have child: "asleep_on 0 p \<longleftrightarrow> left p \<noteq> 0" "p = Done \<longleftrightarrow> left p = 0" if "p \<in> set cs" for p
  proof -
    obtain j where j: "j < 2" "cs ! j = p" using \<open>p \<in> set cs\<close> len by (metis in_set_conv_nth)
    then have "place_ok (child_code (Suc j)) 0 {3} p" using inv by (auto simp: tz_inv_def)
    then have "is_asleep p \<longrightarrow> asleep_on 0 p \<and> left p = 3" by (auto simp: place_ok_def)
    then show "asleep_on 0 p \<longleftrightarrow> left p \<noteq> 0" "p = Done \<longleftrightarrow> left p = 0"
      using idle [of p] that z(2) by (cases p; auto)+
  qed
  have "sleepers 0 cs = num (\<lambda>p. left p \<noteq> 0) cs"
    unfolding sleepers_def num_def using child(1) by (metis (mono_tags, lifting) filter_cong)
  then have two: "num (\<lambda>p. left p = 0) cs + sleepers 0 cs = 2"
    using sum_length_filter_compl [of "\<lambda>p. left p = 0" cs] len by (simp add: num_def)
  have "\<not> is_asleep pm"
  proof
    assume a: "is_asleep pm"
    then have "left pm = 5 \<or> left pm = 2" using inv by (auto simp: tz_inv_def place_ok_def)
    then show False using a inv two by (auto simp: tz_inv_def ups_done_def downs_done_def)
  qed
  then have pm: "pm = Done" using idle z(2) by auto
  then have "sleepers 0 cs = 0" using inv by (auto simp: tz_inv_def ups_done_def)
  then have "num (\<lambda>p. left p \<noteq> 0) cs = 0" using \<open>sleepers 0 cs = num (\<lambda>p. left p \<noteq> 0) cs\<close> by simp
  then have "\<forall>p\<in>set cs. left p = 0" by (simp add: num_def filter_empty_conv)
  then show ?thesis using child(2) pm z(2) by auto
qed

section \<open>Properties\<close>

text \<open>
  \<open>test-zem\<close>, in every run without spurious wakeups: the line of the main thread comes first, it
  reports a thread only after it has printed and both only after both have printed, although two
  threads wait on the same zemaphore; and the program never deadlocks.
\<close>

theorem test_zem_orderly:
  assumes "exec calm_fam_step test_zem_init sched = Some st"
  shows "orderly (prints st) \<and> (fam_stuck st \<longrightarrow> (\<forall>p\<in>set (procs st). p = Done) \<and> said (prints st) = 2)"
proof -
  have "owners_ok st \<and> tz_state st"
    using test_zem.exec_inv [OF _ assms] tz_init fam_init_owners_ok unfolding test_zem_init_def by blast
  then obtain z0 z1 pm cs where z: "owners_ok st" "zems st = [z0, z1]" "procs st = pm # cs" "tz_inv z0 z1 pm cs (prints st)"
    unfolding tz_state_def by blast
  have "said (prints st) = 2" if "\<forall>p\<in>set (procs st). p = Done"
  proof -
    have "filter (\<lambda>p. left p \<le> 1) cs = cs" using that z(3) by (intro filter_True) auto
    then have "num (\<lambda>p. left p \<le> 1) cs = length cs" by (simp add: num_def)
    then show ?thesis using z(4) by (simp add: tz_inv_def)
  qed
  then show ?thesis using tz_stuck [OF z(2-4,1)] z(4) by (auto simp: tz_inv_def)
qed

text \<open>
  The report may come late: thread 2 takes what the main thread posted for thread 1, which goes on
  all the same, so both have printed before the first report.
\<close>

definition both_early :: "fam_action list" where
  "both_early = [ZLock 1, ZRun 1 [], ZPrint 0, ZLock 0, ZRun 0 [1], ZLock 2, ZRun 2 [], ZPrint 2, ZLock 1, ZRun 1 [], ZPrint 1,
     ZLock 2, ZRun 2 [], ZLock 0, ZRun 0 [], ZPrint 0, ZLock 0, ZRun 0 [], ZLock 1, ZRun 1 [], ZLock 0, ZRun 0 [], ZPrint 0]"

lemma both_early_run:
  "map_option (\<lambda>st. (prints st, procs st)) (exec calm_fam_step test_zem_init both_early) =
   Some ([MainFirst, ThreadSays 2, ThreadSays 1, OnePrinted, SecondPrinted], [Done, Done, Done])"
  by code_simp

theorem test_zem_orderly_witness:
  "\<exists>st. exec calm_fam_step test_zem_init both_early = Some st \<and> orderly (prints st) \<and>
     prints st = [MainFirst, ThreadSays 2, ThreadSays 1, OnePrinted, SecondPrinted]"
proof -
  obtain st where st: "exec calm_fam_step test_zem_init both_early = Some st"
    "prints st = [MainFirst, ThreadSays 2, ThreadSays 1, OnePrinted, SecondPrinted]"
    using both_early_run unfolding map_option_eq_Some prod.inject by (elim exE conjE)
  from test_zem_orderly [OF st(1)] st show ?thesis by blast
qed

end
