(* ===== verification/ZemMains.thy ===== *)
theory ZemMains
  imports TestZem CString
begin

text \<open>
  The programs \<open>zemaphore/test-toggle.c\<close> and \<open>zemaphore/test-zem.c\<close> as a whole: what they have printed
  when \<open>main\<close> has joined their threads and returned.
\<close>

section \<open>The programs\<close>

definition NUM_THREADS :: nat where "NUM_THREADS = 3"
definition NUM_ITER :: nat where "NUM_ITER = 10"

definition thread_line :: "nat \<Rightarrow> string" where
  "thread_line i = ''This is thread '' @ show_int (int i) @ [nl]"

text \<open>The joins, and the result of a program that returns 0; \<open>None\<close> while a thread has not returned.\<close>

definition join_and_return :: "('m \<Rightarrow> string) \<Rightarrow> 'm family option \<Rightarrow> (string \<times> int) option" where
  "join_and_return line r =
     (case r of
        None \<Rightarrow> None
      | Some st \<Rightarrow> if \<forall>p\<in>set (procs st). p = Done then Some (concat (map line (prints st)), 0) else None)"

text \<open>\<open>main\<close> of \<open>test-toggle.c\<close>, for \<open>n\<close> threads and \<open>m\<close> rounds, \<open>NUM_THREADS\<close> and \<open>NUM_ITER\<close> in the code.\<close>

definition toggle_main :: "nat \<Rightarrow> nat \<Rightarrow> fam_action list \<Rightarrow> (string \<times> int) option" where
  "toggle_main n m sched = join_and_return thread_line (exec fam_step (toggle_init n m) sched)"

fun message_text :: "message \<Rightarrow> string" where
  "message_text (ThreadSays j) = thread_line j"
| "message_text MainFirst = ''This is main thread. This should print first'' @ [nl]"
| "message_text OnePrinted = ''One thread has printed'' @ [nl]"
| "message_text SecondPrinted = ''Second thread has printed'' @ [nl]"

definition test_zem_main :: "fam_action list \<Rightarrow> (string \<times> int) option" where
  "test_zem_main sched = join_and_return message_text (exec fam_step test_zem_init sched)"

section \<open>What each thread still has to print\<close>

fun printing :: "'m instr list \<Rightarrow> 'm list" where
  "printing [] = []"
| "printing (Print m # c) = m # printing c"
| "printing (i # c) = printing c"

definition to_print :: "(nat, 'm zlabel) thread \<Rightarrow> 'm list" where
  "to_print p = (case label_of p of None \<Rightarrow> [] | Some (c, b) \<Rightarrow> printing c)"

definition prints_left :: "'m family \<Rightarrow> 'm list list" where
  "prints_left st = map to_print (procs st)"

lemma to_print_next [simp]: "to_print (after_leave (next_instr c)) = printing c"
  by (simp add: to_print_def next_instr_def)

lemma to_print_simps [simp]:
  "to_print Done = []" "to_print (Enter (c, b)) = printing c" "to_print (Inside (c, b)) = printing c"
  "to_print (Asleep i (c, b)) = printing c"
  by (simp_all add: to_print_def)

lemma to_print_wakeups: "wakeups es ws ps = Some ps' \<Longrightarrow> map to_print ps' = map to_print ps"
proof -
  have "map to_print qs = map (\<lambda>l. case l of None \<Rightarrow> [] | Some (c, b) \<Rightarrow> printing c) (map label_of qs)"
    for qs :: "(nat, 'm zlabel) thread list"
    by (simp add: to_print_def)
  then show "wakeups es ws ps = Some ps' \<Longrightarrow> map to_print ps' = map to_print ps" using labels_wakeups by metis
qed

lemma segment_prints_nothing:
  assumes "zem_of l = Some i" "zem_segment l s = (s', es, q)"
  shows "to_print (after_leave q) = to_print (Inside l)"
  using assms by (cases "(l, s)" rule: zem_segment.cases) (auto simp: zem_down_def zem_up_def split: if_splits)

text \<open>An action prints nothing, or the next message of one thread.\<close>

lemma fam_step_prints:
  assumes "fam_step a st = Some st'"
  obtains (silent) "prints st' = prints st" "prints_left st' = prints_left st"
  | (printed) t m r where "t < length (procs st)" "prints_left st ! t = m # r" "prints st' = prints st @ [m]"
    "prints_left st' = (prints_left st)[t := r]"
proof (cases a)
  case (ZLock t)
  then obtain l i where p: "t < length (procs st)" "procs st ! t = Enter l"
    "st' = st\<lparr>procs := (procs st)[t := Inside l], owners := (owners st)[i := Some t]\<rparr>"
    using assms by (auto elim: fam_lock_step simp del: fam_step.simps)
  have "(map to_print (procs st))[t := to_print (Inside l)] = map to_print (procs st)"
    using p(1,2) by (intro list_update_same_conv [THEN iffD2]) (simp_all add: to_print_def)
  with p(3) show ?thesis by (intro silent) (simp_all add: prints_left_def map_update)
next
  case (ZRun t ws)
  then obtain l i z es q ps where p: "t < length (procs st)" "procs st ! t = Inside l" "zem_of l = Some i"
    "zem_segment l (zems st ! i) = (z, es, q)" "wakeups es ws (procs st) = Some ps"
    "prints st' = prints st" "procs st' = ps[t := after_leave q]"
    using assms by (auto elim: fam_run_step simp del: fam_step.simps)
  have "(map to_print (procs st))[t := to_print (after_leave q)] = map to_print (procs st)"
    using p(1,2) segment_prints_nothing [OF p(3,4)] by (intro list_update_same_conv [THEN iffD2]) simp_all
  then show ?thesis using p(6,7) to_print_wakeups [OF p(5)] by (intro silent) (simp_all add: prints_left_def map_update)
next
  case (ZPrint t)
  then obtain m r b where p: "t < length (procs st)" "procs st ! t = Enter (Print m # r, b)"
    "st' = st\<lparr>procs := (procs st)[t := after_leave (next_instr r)], prints := prints st @ [m]\<rparr>"
    using assms by (auto elim: fam_print_step simp del: fam_step.simps)
  show ?thesis
    by (rule printed [OF p(1), of m "printing r"]) (simp_all add: p prints_left_def map_update)
next
  case (ZSpurious t)
  then obtain c l where p: "t < length (procs st)" "procs st ! t = Asleep c l" "st' = st\<lparr>procs := (procs st)[t := Enter l]\<rparr>"
    using assms by (auto elim: fam_spurious_step simp del: fam_step.simps)
  have "(map to_print (procs st))[t := to_print (Enter l)] = map to_print (procs st)"
    using p(1,2) by (intro list_update_same_conv [THEN iffD2]) (simp_all add: to_print_def)
  with p(3) show ?thesis by (intro silent) (simp_all add: prints_left_def map_update)
qed

text \<open>The messages \<open>P\<close> are those of thread \<open>t\<close>: they appear in the order of its code.\<close>

definition speaker :: "('m \<Rightarrow> bool) \<Rightarrow> nat \<Rightarrow> 'm list \<Rightarrow> 'm family \<Rightarrow> bool" where
  "speaker P t c st \<longleftrightarrow> t < length (procs st) \<and> filter P (prints st) @ prints_left st ! t = c \<and>
     list_all P (prints_left st ! t) \<and> (\<forall>u<length (procs st). u \<noteq> t \<longrightarrow> list_all (\<lambda>m. \<not> P m) (prints_left st ! u))"

interpretation speaking: step_invariant fam_step "speaker P t c" for P t c
proof
  fix st st' :: "'a family" and a
  assume inv: "speaker P t c st" and step: "fam_step a st = Some st'"
  from step show "speaker P t c st'"
  proof (cases rule: fam_step_prints)
    case silent
    then have "length (procs st') = length (procs st)" unfolding prints_left_def by (metis length_map)
    with inv silent show ?thesis by (simp add: speaker_def)
  next
    case (printed u m r)
    then have "length (procs st') = length (procs st)" unfolding prints_left_def by (metis length_map length_list_update)
    moreover have "length (prints_left st) = length (procs st)" by (simp add: prints_left_def)
    moreover have "list_all P (m # r)" if "u = t" using inv printed(2) that by (simp add: speaker_def)
    moreover have "list_all (\<lambda>m. \<not> P m) (m # r)" if "u \<noteq> t" using inv printed(1,2) that unfolding speaker_def by metis
    ultimately show ?thesis using inv printed by (auto simp: speaker_def nth_list_update)
  qed
qed

lemma speaker_done:
  assumes "speaker P t c st" "\<forall>p\<in>set (procs st). p = Done"
  shows "filter P (prints st) = c"
proof -
  have "procs st ! t = Done" using assms by (simp add: speaker_def)
  then have "prints_left st ! t = []" using assms(1) by (simp add: speaker_def prints_left_def)
  then show ?thesis using assms(1) by (simp add: speaker_def)
qed

section \<open>The outputs of test-zem\<close>

lemma test_zem_prints_left: "prints_left test_zem_init =
   [[MainFirst, OnePrinted, SecondPrinted], [ThreadSays 1], [ThreadSays 2]]" "prints test_zem_init = []"
   "length (procs test_zem_init) = 3"
  by (simp_all add: prints_left_def test_zem_init_def fam_init_def parent_code_def child_code_def)

lemma test_zem_speakers:
  "speaker (\<lambda>m. \<not> says m) 0 [MainFirst, OnePrinted, SecondPrinted] test_zem_init"
  "speaker ((=) (ThreadSays 1)) 1 [ThreadSays 1] test_zem_init"
  "speaker ((=) (ThreadSays 2)) 2 [ThreadSays 2] test_zem_init"
  unfolding speaker_def test_zem_prints_left
  by (auto simp: less_Suc_eq numeral_3_eq_3 numeral_2_eq_2)

lemma two_says:
  assumes "filter ((=) (ThreadSays 1)) xs = [ThreadSays 1]" "filter ((=) (ThreadSays 2)) xs = [ThreadSays 2]"
    "said xs = 2"
  shows "filter says xs \<in> {[ThreadSays 1, ThreadSays 2], [ThreadSays 2, ThreadSays 1]}"
proof -
  have "ThreadSays 1 \<in> set (filter ((=) (ThreadSays 1)) xs)" "ThreadSays 2 \<in> set (filter ((=) (ThreadSays 2)) xs)"
    unfolding assms by simp_all
  then have "ThreadSays 1 \<in> set (filter says xs)" "ThreadSays 2 \<in> set (filter says xs)" by simp_all
  moreover obtain y z where "filter says xs = [y, z]"
    using assms(3) by (auto simp: said_def numeral_2_eq_2 length_Suc_conv)
  ultimately show ?thesis by (simp only:) auto
qed

definition test_zem_orders :: "message list set" where
  "test_zem_orders = (\<Union>(i, j)\<in>{(1, 2), (2, 1)}.
     {[MainFirst, ThreadSays i, OnePrinted, ThreadSays j, SecondPrinted],
      [MainFirst, ThreadSays i, ThreadSays j, OnePrinted, SecondPrinted]})"

lemma orderly_shuffles:
  assumes "xs \<in> shuffles [ThreadSays i, ThreadSays j] [MainFirst, OnePrinted, SecondPrinted]" "orderly xs"
  shows "xs \<in> {[MainFirst, ThreadSays i, OnePrinted, ThreadSays j, SecondPrinted],
    [MainFirst, ThreadSays i, ThreadSays j, OnePrinted, SecondPrinted]}"
  using assms by (auto simp: orderly_def said_def All_less_Suc)

lemma test_zem_final:
  assumes "filter (\<lambda>m. \<not> says m) xs = [MainFirst, OnePrinted, SecondPrinted]"
    "filter ((=) (ThreadSays 1)) xs = [ThreadSays 1]" "filter ((=) (ThreadSays 2)) xs = [ThreadSays 2]"
    "said xs = 2" "orderly xs"
  shows "xs \<in> test_zem_orders"
  using two_says [OF assms(2-4)] partition_in_shuffles [of xs says] orderly_shuffles [OF _ assms(5)]
  unfolding assms(1) test_zem_orders_def by fastforce

lemma all_done_stuck: "\<forall>p\<in>set (procs st). p = Done \<Longrightarrow> fam_stuck st"
  by (simp add: fam_stuck_def all_set_conv_all_nth)

section \<open>Properties\<close>

text \<open>
  C17: \<open>test-toggle\<close> as a whole, with any number of threads and rounds, in every run without spurious wakeups: the threads print
  in turn, 0, 1, 2, 0, 1, 2 and so on, it makes a bounded number of steps, and where nothing can happen any more \<open>main\<close>
  has joined all threads and returned 0 with the complete text: the program does not deadlock.
\<close>

theorem toggle_program:
  assumes "0 < n" and "exec calm_fam_step (toggle_init n m) sched = Some st"
  shows "prints st = map (\<lambda>i. i mod n) [0..<length (prints st)] \<and> length sched \<le> 12 * n * m \<and>
     (fam_stuck st \<longrightarrow> toggle_main n m sched = Some (concat (map (\<lambda>i. thread_line (i mod n)) [0..<n * m]), 0))"
proof -
  note t = toggle_prints_in_turn [OF assms]
  have "length (toggle_code n j m) = 3 * m" for j by (induction m) simp_all
  then have "sum_list (map length (map (\<lambda>j. toggle_code n j m) [0..<n])) = n * (3 * m)"
    by (simp add: comp_def sum_list_triv)
  then have "length sched \<le> 12 * n * m"
    using zem_programs_terminate [OF assms(2) [unfolded toggle_init_def]] by simp
  moreover have "toggle_main n m sched = Some (concat (map (\<lambda>i. thread_line (i mod n)) [0..<n * m]), 0)" if "fam_stuck st"
  proof -
    have "prints st = map (\<lambda>i. i mod n) [0..<n * m]" using t that by metis
    then show ?thesis using t that calm_fam_exec [OF assms(2)] by (simp add: toggle_main_def join_and_return_def comp_def)
  qed
  ultimately show ?thesis using t by blast
qed

theorem toggle_program_witness:
  "\<exists>st. exec calm_fam_step (toggle_init 2 1) toggle_sched = Some st \<and> fam_stuck st \<and> prints st = [0, 1] \<and>
     toggle_main 2 1 toggle_sched = Some (thread_line 0 @ thread_line 1, 0)"
proof -
  obtain st where st: "exec calm_fam_step (toggle_init 2 1) toggle_sched = Some st" "prints st = [0, 1]" "procs st = [Done, Done]"
    using toggle_run_end unfolding map_option_eq_Some prod.inject by (elim exE conjE)
  have "fam_stuck st" by (rule all_done_stuck) (simp add: st)
  with toggle_program [OF _ st(1)] st show ?thesis by (simp add: upt_rec)
qed

text \<open>
  C38: \<open>test-zem\<close> as a whole, in every run without spurious wakeups: it makes at most 52 steps, and where nothing can happen
  any more it has returned 0 and printed one of four texts: the line of the main thread first, each thread once, each report
  after the line it reports.
\<close>

theorem test_zem_program:
  assumes "exec calm_fam_step test_zem_init sched = Some st"
  shows "length sched \<le> 52 \<and>
     (fam_stuck st \<longrightarrow> prints st \<in> test_zem_orders \<and> test_zem_main sched = Some (concat (map message_text (prints st)), 0))"
proof -
  note o = test_zem_orderly [OF assms]
  have "length sched \<le> 52"
    using zem_programs_terminate [OF assms [unfolded test_zem_init_def]] by (simp add: parent_code_def child_code_def)
  moreover have "prints st \<in> test_zem_orders" if "\<forall>p\<in>set (procs st). p = Done" "said (prints st) = 2"
    using test_zem_final [OF test_zem_speakers [THEN speaking.exec_inv, OF calm_fam_exec [OF assms], THEN speaker_done, OF that(1)] that(2)] o by blast
  moreover have "test_zem_main sched = Some (concat (map message_text (prints st)), 0)" if "\<forall>p\<in>set (procs st). p = Done"
    using that calm_fam_exec [OF assms] by (simp add: test_zem_main_def join_and_return_def)
  ultimately show ?thesis using o by blast
qed

theorem test_zem_program_witness:
  "\<exists>st. exec calm_fam_step test_zem_init both_early = Some st \<and> fam_stuck st \<and>
     test_zem_main both_early = Some (concat (map message_text [MainFirst, ThreadSays 2, ThreadSays 1, OnePrinted, SecondPrinted]), 0)"
proof -
  obtain st where st: "exec calm_fam_step test_zem_init both_early = Some st"
    "prints st = [MainFirst, ThreadSays 2, ThreadSays 1, OnePrinted, SecondPrinted]" "procs st = [Done, Done, Done]"
    using both_early_run unfolding map_option_eq_Some prod.inject by (elim exE conjE)
  have "fam_stuck st" by (rule all_done_stuck) (simp add: st)
  with test_zem_program [OF st(1)] st show ?thesis by simp
qed

text \<open>
  With a spurious wakeup neither holds: thread 1 of \<open>test-toggle\<close> prints before thread 0, and a thread of \<open>test-zem\<close>
  before the line of the main thread that should come first.
\<close>

theorem spurious_out_of_turn:
  "map_option prints (exec fam_step (toggle_init 2 1) [ZLock 1, ZRun 1 [], ZSpurious 1, ZLock 1, ZRun 1 [], ZPrint 1]) = Some [1]"
  "map_option prints (exec fam_step test_zem_init [ZLock 1, ZRun 1 [], ZSpurious 1, ZLock 1, ZRun 1 [], ZPrint 1]) = Some [ThreadSays 1]"
  by code_simp+

end
