(* ===== verification/Barber.thy ===== *)
theory Barber
  imports Pthreads CString
begin

text \<open>
  The sleeping barber of \<open>pthreads-sync-code/own-sync-problem/barber-cv.c\<close>: thread 0 is the barber,
  the others are customers; three chairs, one mutex, two condition variables.
\<close>

section \<open>The program\<close>

definition chairs :: int where "chairs = 3"
definition MAX_CUSTOMERS :: nat where "MAX_CUSTOMERS = 5"

text \<open>The lines that the barber and the customers print; a customer is named by its \<open>id\<close>, one less than its thread.\<close>

datatype shop_line = Sleeping | Cutting int | Waits nat int | GetsHaircut nat | Leaves nat

record shop =
  waiting_customers :: int
  said :: "shop_line list"

datatype shop_cond = Arrived | Ready
datatype shop_label = BTop | CArrive | CCalled

definition say :: "shop_line \<Rightarrow> shop \<Rightarrow> shop" where
  "say x s = s\<lparr>said := said s @ [x]\<rparr>"

fun barber_code :: "(shop_cond, shop_label, shop) code" where
  "barber_code t BTop s =
     (if waiting_customers s = 0 then (say Sleeping s, [], Wait Arrived BTop)
      else
        (let s = s\<lparr>waiting_customers := waiting_customers s - 1\<rparr> in
         (say (Cutting (waiting_customers s)) s, [Signal Ready], Unlock BTop)))"
| "barber_code t CArrive s =
     (if waiting_customers s < chairs
      then
        (let s = s\<lparr>waiting_customers := waiting_customers s + 1\<rparr> in
         (say (Waits (t - 1) (waiting_customers s)) s, [Signal Arrived], Wait Ready CCalled))
      else (say (Leaves (t - 1)) s, [], Return))"
| "barber_code t CCalled s = (say (GetsHaircut (t - 1)) s, [], Return)"

definition shop_init :: "nat \<Rightarrow> (shop_cond, shop_label, shop) system" where
  "shop_init customers = mon_init (\<lambda>t. if t = 0 then BTop else CArrive) (Suc customers) \<lparr>waiting_customers = 0, said = []\<rparr>"

fun line_text :: "shop_line \<Rightarrow> string" where
  "line_text Sleeping = ''Barber is sleeping'' @ [nl]"
| "line_text (Cutting k) = ''Barber is cutting hair. Waiting customers: '' @ show_int k @ [nl]"
| "line_text (Waits i k) = ''Customer '' @ show_int (int i) @ '' is waiting. Total waiting: '' @ show_int k @ [nl]"
| "line_text (GetsHaircut i) = ''Customer '' @ show_int (int i) @ '' is getting a haircut.'' @ [nl]"
| "line_text (Leaves i) = ''Customer '' @ show_int (int i) @ '' left, no chairs available.'' @ [nl]"

text \<open>
  \<open>main\<close>, for \<open>n\<close> customers (\<open>MAX_CUSTOMERS\<close> in the code): the text printed and the exit status once all customers have
  been joined, or \<open>None\<close> while one of them is still there. The barber is not joined: it ends with the process.
\<close>

definition barber_main :: "nat \<Rightarrow> action list \<Rightarrow> (string \<times> int) option" where
  "barber_main n sched =
     (case exec (mon_step barber_code) (shop_init n) sched of
        None \<Rightarrow> None
      | Some st \<Rightarrow>
          if \<forall>p\<in>set (tl (threads st)). p = Done then Some (concat (map line_text (said (shared st))), 0) else None)"

section \<open>The invariant\<close>

fun barber_at :: "(shop_cond, shop_label) thread \<Rightarrow> bool" where
  "barber_at (Enter l) = (l = BTop)" | "barber_at (Inside l) = (l = BTop)"
| "barber_at (Asleep c l) = (c = Arrived \<and> l = BTop)" | "barber_at Done = False"

fun customer_at :: "(shop_cond, shop_label) thread \<Rightarrow> bool" where
  "customer_at (Enter l) = (l \<noteq> BTop)" | "customer_at (Inside l) = (l \<noteq> BTop)"
| "customer_at (Asleep c l) = (c = Ready \<and> l = CCalled)" | "customer_at Done = True"

text \<open>
  Exactly the waiting customers sleep; the barber sleeps only in an empty shop.
\<close>

fun is_cut :: "shop_line \<Rightarrow> bool" where
  "is_cut (Cutting k) = True" | "is_cut x = False"

fun is_wait :: "shop_line \<Rightarrow> bool" where
  "is_wait (Waits i k) = True" | "is_wait x = False"

definition shop_inv :: "shop \<Rightarrow> (shop_cond, shop_label) thread list \<Rightarrow> bool" where
  "shop_inv s ps \<longleftrightarrow> ps \<noteq> [] \<and> barber_at (ps ! 0) \<and> (\<forall>t<length ps. t \<noteq> 0 \<longrightarrow> customer_at (ps ! t)) \<and>
     waiting_customers s = int (sleepers Ready ps) \<and> waiting_customers s \<le> chairs \<and>
     (is_asleep (ps ! 0) \<longrightarrow> waiting_customers s = 0) \<and>
     int (length (filter is_wait (said s))) = int (length (filter is_cut (said s))) + waiting_customers s"

lemma wake_at: "barber_at p \<Longrightarrow> barber_at (wake p)" "customer_at p \<Longrightarrow> customer_at (wake p)"
  "\<not> is_asleep (wake p)"
  by (cases p; auto)+

lemma signal_roles:
  assumes "wakeups [Signal c] ws ps = Some ps'" "shop_inv s ps"
  shows "ps' \<noteq> [] \<and> length ps' = length ps \<and> barber_at (ps' ! 0) \<and> (\<forall>t<length ps. t \<noteq> 0 \<longrightarrow> customer_at (ps' ! t)) \<and>
     (is_asleep (ps' ! 0) \<longrightarrow> is_asleep (ps ! 0) \<and> c \<noteq> Arrived)"
  using assms(1)
proof (cases rule: signal_one)
  case nobody
  have "c \<noteq> Arrived" if "is_asleep (ps ! 0)"
  proof
    assume "c = Arrived"
    moreover have "asleep_on Arrived (ps ! 0)" using that assms(2) by (cases "ps ! 0") (auto simp: shop_inv_def)
    moreover have "ps ! 0 \<in> set ps" using assms(2) by (simp add: shop_inv_def)
    ultimately have "0 < sleepers c ps" by (auto simp: sleepers_pos list_ex_iff)
    then show False using nobody by simp
  qed
  then show ?thesis using nobody assms(2) by (auto simp: shop_inv_def)
next
  case (one w)
  have "w = 0" if "c = Arrived"
  proof (rule ccontr)
    assume "w \<noteq> 0"
    then have "customer_at (ps ! w)" using assms(2) one(1) by (simp add: shop_inv_def)
    then show False using one(2) that by (cases "ps ! w") auto
  qed
  then show ?thesis
    using one assms(2) by (auto simp: shop_inv_def nth_list_update wake_at)
qed

lemma inside_awake: "ps ! t = Inside l \<Longrightarrow> \<not> asleep_on c (ps ! t)"
  by simp

lemma barber_segment:
  assumes t: "t < length ps" "ps ! t = Inside BTop" and inv: "shop_inv s ps"
    and step: "barber_code t BTop s = (s', es, q)" and w: "wakeups es ws ps = Some ps'"
  shows "shop_inv s' (ps'[t := after_leave q])"
proof -
  have t0: "t = 0" using inv t by (force simp: shop_inv_def)
  show ?thesis
  proof (cases "waiting_customers s = 0")
    case True
    then have s': "s' = say Sleeping s" "es = []" "q = Wait Arrived BTop" using step by auto
    then have "ps' = ps" using w by (simp split: if_splits)
    then show ?thesis
      using inv True s' t t0 sleepers_update [OF t(1), of Ready "Asleep Arrived BTop"]
      by (auto simp: shop_inv_def say_def)
  next
    case False
    then have s': "s' = say (Cutting (waiting_customers s - 1)) (s\<lparr>waiting_customers := waiting_customers s - 1\<rparr>)"
      "es = [Signal Ready]" "q = Unlock BTop" using step by (auto simp: Let_def)
    note r = signal_roles [OF w [unfolded s'(2)] inv]
    have "0 < sleepers Ready ps" using inv False by (auto simp: shop_inv_def)
    then have "int (sleepers Ready ps') = int (sleepers Ready ps) - 1"
      using signal_sleepers [OF w [unfolded s'(2)], of Ready] by simp
    moreover have "ps' ! t = Inside BTop"
      using w [unfolded s'(2)] t by (cases rule: signal_one) (auto simp: nth_list_update)
    ultimately have "int (sleepers Ready (ps'[t := Enter BTop])) = int (sleepers Ready ps) - 1"
      using sleepers_update [of t ps' Ready "Enter BTop"] r t by simp
    then show ?thesis
      using r inv s' t0 by (auto simp: shop_inv_def say_def)
  qed
qed

lemma customer_segment:
  assumes t: "t < length ps" "ps ! t = Inside l" and l: "l \<noteq> BTop" and inv: "shop_inv s ps"
    and step: "barber_code t l s = (s', es, q)" and w: "wakeups es ws ps = Some ps'"
  shows "shop_inv s' (ps'[t := after_leave q])"
proof -
  have "barber_at (ps ! 0)" using inv by (simp add: shop_inv_def)
  then have t0: "t \<noteq> 0" using t l by (metis barber_at.simps(2))
  show ?thesis
  proof (cases "l = CArrive \<and> waiting_customers s < chairs")
    case True
    then have s': "s' = say (Waits (t - 1) (waiting_customers s + 1)) (s\<lparr>waiting_customers := waiting_customers s + 1\<rparr>)"
      "es = [Signal Arrived]" "q = Wait Ready CCalled" using step by (auto simp: Let_def)
    note r = signal_roles [OF w [unfolded s'(2)] inv]
    have "sleepers Ready ps' = sleepers Ready ps"
      using signal_sleepers [OF w [unfolded s'(2)], of Ready] by simp
    moreover have "ps' ! t = Inside l"
      using w [unfolded s'(2)] t by (cases rule: signal_one) (auto simp: nth_list_update)
    ultimately have "int (sleepers Ready (ps'[t := Asleep Ready CCalled])) = int (sleepers Ready ps) + 1"
      using sleepers_update [of t ps' Ready "Asleep Ready CCalled"] r t by simp
    then show ?thesis
      using r inv s' t0 t True by (auto simp: shop_inv_def say_def nth_list_update)
  next
    case False
    then have s': "waiting_customers s' = waiting_customers s" "filter is_wait (said s') = filter is_wait (said s)"
      "filter is_cut (said s') = filter is_cut (said s)" "es = []" "q = Return"
      using step l by (cases l; auto simp: say_def split: if_splits)+
    then have ps': "ps' = ps" using w by (simp split: if_splits)
    have "int (sleepers Ready (ps[t := Done])) = int (sleepers Ready ps)"
      using sleepers_update [OF t(1), of Ready Done] t(2) by simp
    then show ?thesis
      unfolding ps' using inv s' t0 t by (auto simp: shop_inv_def nth_list_update)
  qed
qed

interpretation shop: calm_monitor barber_code shop_inv
proof
  fix t l s and ps :: "(shop_cond, shop_label) thread list"
  assume "t < length ps" "ps ! t = Enter l" "shop_inv s ps"
  moreover from this have "sleepers Ready (ps[t := Inside l]) = sleepers Ready ps"
    using sleepers_update [of t ps Ready "Inside l"] by simp
  ultimately show "shop_inv s (ps[t := Inside l])"
    by (auto simp: shop_inv_def nth_list_update)
next
  fix t l s s' es q ws and ps ps' :: "(shop_cond, shop_label) thread list"
  assume a: "t < length ps" "ps ! t = Inside l" "shop_inv s ps" "barber_code t l s = (s', es, q)" "wakeups es ws ps = Some ps'"
  then show "shop_inv s' (ps'[t := after_leave q])"
    using barber_segment customer_segment by (cases "l = BTop") blast+
qed

section \<open>What each customer prints\<close>

fun about :: "shop_line \<Rightarrow> nat option" where
  "about (Waits i k) = Some i" | "about (GetsHaircut i) = Some i" | "about (Leaves i) = Some i" | "about x = None"

definition lines_of :: "nat \<Rightarrow> shop \<Rightarrow> shop_line list" where
  "lines_of i s = filter (\<lambda>x. about x = Some i) (said s)"

fun customer_lines :: "nat \<Rightarrow> shop_label option \<Rightarrow> shop_line list \<Rightarrow> bool" where
  "customer_lines i (Some BTop) xs = False"
| "customer_lines i (Some CArrive) xs = (xs = [])"
| "customer_lines i (Some CCalled) xs = (\<exists>k. xs = [Waits i k])"
| "customer_lines i None xs = ((\<exists>k. xs = [Waits i k, GetsHaircut i]) \<or> xs = [Leaves i])"

definition shop_linv :: "shop \<Rightarrow> shop_label option list \<Rightarrow> bool" where
  "shop_linv s ls \<longleftrightarrow> ls \<noteq> [] \<and> ls ! 0 = Some BTop \<and> (\<forall>i<length ls - 1. customer_lines i (ls ! Suc i) (lines_of i s))"

lemma lines_of_say: "lines_of i (say x s) = lines_of i s @ (if about x = Some i then [x] else [])"
  by (simp add: lines_of_def say_def)

lemma lines_of_waiting: "lines_of i (s\<lparr>waiting_customers := k\<rparr>) = lines_of i s"
  by (simp add: lines_of_def)

lemma customer_speaks:
  assumes inv: "shop_linv s ls" and i: "Suc i < length ls" and x: "about x = Some i"
    and ok: "customer_lines i p (lines_of i s @ [x])"
  shows "shop_linv (say x (s\<lparr>waiting_customers := k\<rparr>)) (ls[Suc i := p])"
  using assms by (auto simp: shop_linv_def lines_of_say lines_of_waiting nth_list_update)

lemma barber_speaks:
  assumes "shop_linv s ls" "about x = None"
  shows "shop_linv (say x (s\<lparr>waiting_customers := k\<rparr>)) (ls[0 := Some BTop])"
  using assms by (auto simp: shop_linv_def lines_of_say lines_of_waiting nth_list_update)

interpretation talk: labelled_monitor barber_code shop_linv
proof
  fix t l s s' es q and ls :: "shop_label option list"
  assume a: "t < length ls" "ls ! t = Some l" "shop_linv s ls" "barber_code t l s = (s', es, q)"
  have keep: "s\<lparr>waiting_customers := waiting_customers s\<rparr> = s" by simp
  show "shop_linv s' (ls[t := label_of (after_leave q)])"
  proof (cases t)
    case 0
    then have "l = BTop" using a(2,3) by (simp add: shop_linv_def)
    then show ?thesis
      using a(4) barber_speaks [OF a(3), of Sleeping "waiting_customers s"]
        barber_speaks [OF a(3), of "Cutting (waiting_customers s - 1)" "waiting_customers s - 1"]
      by (auto simp: 0 keep Let_def split: if_splits)
  next
    case (Suc i)
    then have i: "Suc i < length ls" and c: "customer_lines i (Some l) (lines_of i s)"
      using a(1-3) unfolding shop_linv_def by (metis, metis less_diff_conv add.commute plus_1_eq_Suc)
    note speak = customer_speaks [OF a(3) i]
    show ?thesis
    proof (cases l)
      case CArrive
      then show ?thesis
        using a(4) c speak [of "Waits i (waiting_customers s + 1)" "Some CCalled" "waiting_customers s + 1"]
          speak [of "Leaves i" None "waiting_customers s"]
        by (auto simp: Suc keep Let_def split: if_splits)
    next
      case CCalled
      then show ?thesis using a(4) c speak [of "GetsHaircut i" None "waiting_customers s"] by (auto simp: Suc keep)
    qed (use c in simp)
  qed
qed

section \<open>The end of the day\<close>

text \<open>
  Without spurious wakeups the shop comes to rest: each action takes a point from a thread, and what it may give
  back (two points for a woken thread, four for an occupied chair) is paid by the thread that sits down or by the chair that
  becomes free.
\<close>

fun points :: "(shop_cond, shop_label) thread \<Rightarrow> nat" where
  "points (Enter l) = (if l = CArrive then 8 else 2)"
| "points (Inside l) = (if l = CArrive then 7 else 1)"
| "points (Asleep c l) = (if l = CArrive then 8 else 0)"
| "points Done = 0"

lemma signal_points:
  assumes "wakeups [Signal c] ws ps = Some ps'"
  shows "sum_list (map points ps') \<le> sum_list (map points ps) + 2"
  using assms
proof (cases rule: signal_one)
  case (one w)
  then have "points (wake (ps ! w)) \<le> points (ps ! w) + 2" by (cases "ps ! w") auto
  then show ?thesis using sum_map_update [OF one(1), of points "wake (ps ! w)"] one by simp
qed simp

lemma segment_points:
  assumes t: "t < length ps" "ps ! t = Inside l" and inv: "shop_inv s ps"
    and step: "barber_code t l s = (s', es, q)" and w: "wakeups es ws ps = Some ps'"
  shows "4 * nat (waiting_customers s') + sum_list (map points (ps'[t := after_leave q])) <
    4 * nat (waiting_customers s) + sum_list (map points ps)"
proof -
  have p': "t < length ps'" "ps' ! t = Inside l" using wakeups_nth(1) [OF w] wakeups_nth(2) [OF w t(1)] t by simp_all
  have upd: "sum_list (map points (ps'[t := after_leave q])) + points (Inside l) = sum_list (map points ps') + points (after_leave q)"
    using sum_map_update [OF p'(1), of points "after_leave q"] p'(2) by simp
  have pos: "0 \<le> waiting_customers s" using inv by (simp add: shop_inv_def)
  show ?thesis
  proof (cases "es = []")
    case True
    then have "ps' = ps" using w by (simp split: if_splits)
    then show ?thesis
      using upd step True by (cases l) (auto simp: say_def Let_def split: if_splits)
  next
    case False
    then obtain c where "es = [Signal c]" using step by (cases l) (auto simp: Let_def split: if_splits)
    then have "sum_list (map points ps') \<le> sum_list (map points ps) + 2" using signal_points w by blast
    then show ?thesis
      using upd step False pos by (cases l) (auto simp: say_def Let_def split: if_splits)
  qed
qed

interpretation closing: spending_monitor barber_code shop_inv points "\<lambda>s. 4 * nat (waiting_customers s)"
  by unfold_locales (simp, rule segment_points)

lemma shop_init_inv:
  "mutex_ok (shop_init n) \<and> shop_inv (shared (shop_init n)) (threads (shop_init n))"
  "mutex_ok (shop_init n) \<and> shop_linv (shared (shop_init n)) (map label_of (threads (shop_init n)))"
  "4 * nat (waiting_customers (shared (shop_init n))) + sum_list (map points (threads (shop_init n))) = 8 * n + 2"
proof -
  have m: "mutex_ok (shop_init n)" by (simp add: shop_init_def mon_init_mutex_ok)
  have "sleepers Ready (threads (shop_init n)) = 0"
    by (auto simp: sleepers_def num_def shop_init_def mon_init_def filter_empty_conv)
  then show "mutex_ok (shop_init n) \<and> shop_inv (shared (shop_init n)) (threads (shop_init n))"
    using m by (auto simp: shop_inv_def shop_init_def mon_init_def chairs_def simp del: upt_Suc)
  show "mutex_ok (shop_init n) \<and> shop_linv (shared (shop_init n)) (map label_of (threads (shop_init n)))"
    using m by (auto simp: shop_linv_def shop_init_def mon_init_def lines_of_def simp del: upt_Suc)
  have "threads (shop_init n) = Enter BTop # map (\<lambda>t. Enter CArrive) [0..<n]"
    by (simp add: shop_init_def mon_init_def upt_conv_Cons map_Suc_upt [symmetric] comp_def del: upt_Suc)
  then have "sum_list (map points (threads (shop_init n))) = 8 * n + 2"
    by (simp add: comp_def sum_list_triv)
  then show "4 * nat (waiting_customers (shared (shop_init n))) + sum_list (map points (threads (shop_init n))) = 8 * n + 2"
    by (simp add: shop_init_def mon_init_def)
qed

text \<open>When nobody can go on, the customers have left an empty shop.\<close>

lemma shop_stuck:
  assumes inv: "mutex_ok st" "shop_inv (shared st) (threads st)" and s: "stuck barber_code st"
  shows "waiting_customers (shared st) = 0" "\<forall>p\<in>set (tl (threads st)). p = Done"
proof -
  have d: "\<forall>p\<in>set (threads st). is_asleep p \<or> p = Done" using s stuck_iff [OF inv(1)] by blast
  have hd: "threads st ! 0 \<in> set (threads st)" "barber_at (threads st ! 0)" using inv(2) by (auto simp: shop_inv_def)
  then have "is_asleep (threads st ! 0)" using d by (metis barber_at.simps(4))
  then have w: "waiting_customers (shared st) = 0" "sleepers Ready (threads st) = 0"
    using inv(2) by (auto simp: shop_inv_def)
  have "p = Done" if p: "p \<in> set (tl (threads st))" for p
  proof -
    from p obtain t where "t < length (tl (threads st))" "p = tl (threads st) ! t"
      unfolding in_set_conv_nth by blast
    then have t: "Suc t < length (threads st)" "p = threads st ! Suc t" by (simp_all add: nth_tl)
    have "customer_at p" "p \<in> set (threads st)" using inv(2) t by (auto simp: shop_inv_def)
    moreover have "\<not> asleep_on Ready p"
      using w(2) sleepers_pos [of Ready "threads st"] \<open>p \<in> set (threads st)\<close> by (auto simp: list_ex_iff)
    ultimately show ?thesis using d by (cases p) auto
  qed
  then show "waiting_customers (shared st) = 0" "\<forall>p\<in>set (tl (threads st)). p = Done" using w(1) by blast+
qed

section \<open>Properties\<close>

text \<open>
  C40: The whole program, with any number of customers, without spurious wakeups, under every schedule: it makes a bounded number of
  steps, never more than three customers wait, every customer prints either that it waits and then that it gets a
  haircut or that it left, and the barber calls as many as sat down; where nothing can happen any more \<open>main\<close> has
  joined all customers and returned.
\<close>

theorem barber_shop_closes:
  assumes "exec (calm_step barber_code) (shop_init n) sched = Some st"
  shows "length sched \<le> 8 * n + 2 \<and> 0 \<le> waiting_customers (shared st) \<and> waiting_customers (shared st) \<le> 3 \<and>
     int (length (filter is_wait (said (shared st)))) =
       int (length (filter is_cut (said (shared st)))) + waiting_customers (shared st) \<and>
     (stuck barber_code st \<longrightarrow>
        waiting_customers (shared st) = 0 \<and> barber_main n sched = Some (concat (map line_text (said (shared st))), 0) \<and>
        (\<forall>i<n. (\<exists>k. lines_of i (shared st) = [Waits i k, GetsHaircut i]) \<or> lines_of i (shared st) = [Leaves i]))"
proof -
  note mon = calm_exec [OF assms]
  have inv: "mutex_ok st" "shop_inv (shared st) (threads st)"
    using shop.calm.exec_inv [OF shop_init_inv(1) assms] by blast+
  have linv: "shop_linv (shared st) (map label_of (threads st))"
    using talk.exec_inv [OF shop_init_inv(2) mon] by blast
  have len: "length (threads st) = Suc n"
    using exec_threads_length [OF mon] by (simp add: shop_init_def mon_init_def)
  have "length sched \<le> 8 * n + 2"
    using closing.spends.run_length [OF shop_init_inv(1) assms] by (simp add: shop_init_inv(3))
  moreover have "(\<exists>k. lines_of i (shared st) = [Waits i k, GetsHaircut i]) \<or> lines_of i (shared st) = [Leaves i]"
    if "stuck barber_code st" "i < n" for i
  proof -
    have "threads st ! Suc i \<in> set (tl (threads st))" using that(2) len by (metis Suc_less_eq length_tl diff_Suc_1 nth_mem nth_tl)
    then have "threads st ! Suc i = Done" using shop_stuck(2) [OF inv that(1)] by blast
    then have "map label_of (threads st) ! Suc i = None" using that(2) len by simp
    then show ?thesis using linv that(2) len unfolding shop_linv_def by (metis customer_lines.simps(4) diff_Suc_1 length_map)
  qed
  moreover have "barber_main n sched = Some (concat (map line_text (said (shared st))), 0)" if "stuck barber_code st"
    using shop_stuck(2) [OF inv that] mon by (simp add: barber_main_def)
  ultimately show ?thesis using inv(2) shop_stuck(1) [OF inv] by (auto simp: shop_inv_def chairs_def)
qed

theorem barber_shop_closes_witness:
  "\<exists>sched. length sched \<le> 26 \<and> barber_main 3 sched = Some (concat (map line_text
     [Waits 0 1, Waits 1 2, Cutting 1, GetsHaircut 0, Waits 2 2, Cutting 1, Cutting 0, GetsHaircut 2, GetsHaircut 1, Sleeping]), 0)"
proof -
  let ?sched = "[Lock 1, Segment 1 [], Lock 2, Segment 2 [], Lock 0, Segment 0 [1], Lock 1, Segment 1 [], Lock 3, Segment 3 [],
    Lock 0, Segment 0 [3], Lock 0, Segment 0 [2], Lock 3, Segment 3 [], Lock 2, Segment 2 [], Lock 0, Segment 0 []]"
  have r: "exec (calm_step barber_code) (shop_init 3) ?sched =
    Some \<lparr>shared = \<lparr>waiting_customers = 0, said = [Waits 0 1, Waits 1 2, Cutting 1, GetsHaircut 0, Waits 2 2, Cutting 1, Cutting 0,
        GetsHaircut 2, GetsHaircut 1, Sleeping]\<rparr>,
      threads = [Asleep Arrived BTop, Done, Done, Done], owner = None\<rparr>" (is "_ = Some ?st") by code_simp
  have "mutex_ok ?st" by (auto simp: mutex_ok_def nth_Cons split: nat.splits)
  then have "stuck barber_code ?st" unfolding stuck_iff [OF \<open>mutex_ok ?st\<close>] by simp
  with barber_shop_closes [OF r] show ?thesis by (intro exI [of _ ?sched]) simp
qed

text \<open>
  A spurious wakeup, which the customer's single wait does not withstand: the customer gets a haircut that no barber has given,
  and the barber then calls a customer who is not there.
\<close>

theorem spurious_haircut:
  "map_option (\<lambda>st. said (shared st)) (exec (mon_step barber_code) (shop_init 1)
     [Lock 1, Segment 1 [], Spurious 1, Lock 1, Segment 1 [], Lock 0, Segment 0 []]) =
   Some [Waits 0 1, GetsHaircut 0, Cutting 0]"
  by code_simp

end
