(* ===== verification/RwLock.thy ===== *)
theory RwLock
  imports Pthreads
begin

text \<open>
  The two reader-writer locks of \<open>pthreads-sync-code/rwlock\<close> (\<open>rwlock.h\<close>,
  \<open>rwlock-reader-pref.cpp\<close>, \<open>rwlock-writer-pref.cpp\<close>), used by threads that each work through a list
  of read and write accesses: lock, hold, unlock.
\<close>

section \<open>The operations\<close>

record read_write_lock =
  readers :: int
  writers_waiting :: int
  writer_active :: bool

definition InitalizeReadWriteLock :: read_write_lock where
  "InitalizeReadWriteLock = \<lparr>readers = 0, writers_waiting = 0, writer_active = False\<rparr>"

datatype rw_cond = ReadersOk | WritersOk
datatype access = Rd | Wr

text \<open>A thread wants its first access, is inside its waiting loop, or holds the lock.\<close>

datatype phase = Want | Blocked | Holding

type_synonym rw_label = "access list \<times> phase"
type_synonym rw_step = "read_write_lock \<times> rw_cond wakeup list \<times> (rw_cond, rw_label) leave"

definition next_access :: "access list \<Rightarrow> (rw_cond, rw_label) leave" where
  "next_access r = (if r = [] then Return else Unlock (r, Want))"

definition rp_ReaderLock :: "access list \<Rightarrow> read_write_lock \<Rightarrow> rw_step" where
  "rp_ReaderLock r rw =
     (if writer_active rw then (rw, [], Wait ReadersOk (Rd # r, Blocked))
      else (rw\<lparr>readers := readers rw + 1\<rparr>, [], Unlock (Rd # r, Holding)))"

definition wp_ReaderLock :: "access list \<Rightarrow> read_write_lock \<Rightarrow> rw_step" where
  "wp_ReaderLock r rw =
     (if writer_active rw \<or> writers_waiting rw > 0 then (rw, [], Wait ReadersOk (Rd # r, Blocked))
      else (rw\<lparr>readers := readers rw + 1\<rparr>, [], Unlock (Rd # r, Holding)))"

definition ReaderUnlock :: "access list \<Rightarrow> read_write_lock \<Rightarrow> rw_step" where
  "ReaderUnlock r rw =
     (let rw = rw\<lparr>readers := readers rw - 1\<rparr> in
      (rw, if readers rw = 0 then [Signal WritersOk] else [], next_access r))"

text \<open>The waiting loop of \<open>WriterLock\<close> and what follows it.\<close>

definition writer_wait :: "access list \<Rightarrow> read_write_lock \<Rightarrow> rw_step" where
  "writer_wait r rw =
     (if writer_active rw \<or> readers rw > 0 then (rw, [], Wait WritersOk (Wr # r, Blocked))
      else (rw\<lparr>writers_waiting := writers_waiting rw - 1, writer_active := True\<rparr>, [], Unlock (Wr # r, Holding)))"

definition WriterLock :: "access list \<Rightarrow> read_write_lock \<Rightarrow> rw_step" where
  "WriterLock r rw = writer_wait r (rw\<lparr>writers_waiting := writers_waiting rw + 1\<rparr>)"

definition rp_WriterUnlock :: "access list \<Rightarrow> read_write_lock \<Rightarrow> rw_step" where
  "rp_WriterUnlock r rw =
     (let rw = rw\<lparr>writer_active := False\<rparr> in
      (rw, Broadcast ReadersOk # (if readers rw = 0 then [Signal WritersOk] else []), next_access r))"

definition wp_WriterUnlock :: "access list \<Rightarrow> read_write_lock \<Rightarrow> rw_step" where
  "wp_WriterUnlock r rw =
     (let rw = rw\<lparr>writer_active := False\<rparr> in
      (rw, if writers_waiting rw > 0 then [Signal WritersOk] else [Broadcast ReadersOk], next_access r))"

text \<open>The operations of \<open>rwlock-writer-pref.cpp\<close> that have their own copies there.\<close>

definition wp_InitalizeReadWriteLock :: read_write_lock where
  "wp_InitalizeReadWriteLock = \<lparr>readers = 0, writers_waiting = 0, writer_active = False\<rparr>"

definition wp_ReaderUnlock :: "access list \<Rightarrow> read_write_lock \<Rightarrow> rw_step" where
  "wp_ReaderUnlock r rw =
     (let rw = rw\<lparr>readers := readers rw - 1\<rparr> in
      (rw, if readers rw = 0 then [Signal WritersOk] else [], next_access r))"

definition wp_WriterLock :: "access list \<Rightarrow> read_write_lock \<Rightarrow> rw_step" where
  "wp_WriterLock r rw = writer_wait r (rw\<lparr>writers_waiting := writers_waiting rw + 1\<rparr>)"

lemma same_copies [simp]:
  "wp_InitalizeReadWriteLock = InitalizeReadWriteLock" "wp_ReaderUnlock = ReaderUnlock" "wp_WriterLock = WriterLock"
  by (auto simp: wp_InitalizeReadWriteLock_def InitalizeReadWriteLock_def wp_ReaderUnlock_def ReaderUnlock_def
      wp_WriterLock_def WriterLock_def fun_eq_iff)

lemma either_copy [simp]:
  "(if wp then wp_ReaderUnlock r rw else ReaderUnlock r rw) = ReaderUnlock r rw"
  "(if wp then wp_WriterLock r rw else WriterLock r rw) = WriterLock r rw"
  by simp_all

text \<open>\<open>rw_code True\<close> is the writer-preferring lock, \<open>rw_code False\<close> the reader-preferring one.\<close>

fun rw_code :: "bool \<Rightarrow> (rw_cond, rw_label, read_write_lock) code" where
  "rw_code wp t ([], ph) rw = (rw, [], Return)"
| "rw_code wp t (Rd # r, Holding) rw = (if wp then wp_ReaderUnlock r rw else ReaderUnlock r rw)"
| "rw_code wp t (Rd # r, ph) rw = (if wp then wp_ReaderLock r rw else rp_ReaderLock r rw)"
| "rw_code wp t (Wr # r, Want) rw = (if wp then wp_WriterLock r rw else WriterLock r rw)"
| "rw_code wp t (Wr # r, Blocked) rw = writer_wait r rw"
| "rw_code wp t (Wr # r, Holding) rw = (if wp then wp_WriterUnlock r rw else rp_WriterUnlock r rw)"

definition rw_system :: "access list list \<Rightarrow> (rw_cond, rw_label, read_write_lock) system" where
  "rw_system scripts = mon_init (\<lambda>t. (scripts ! t, Want)) (length scripts) InitalizeReadWriteLock"

section \<open>The invariant\<close>

fun holds :: "access \<Rightarrow> rw_label option \<Rightarrow> bool" where
  "holds a (Some (b # r, Holding)) = (a = b)"
| "holds a l = False"

fun waits :: "rw_label option \<Rightarrow> bool" where
  "waits (Some (Wr # r, Blocked)) = True"
| "waits l = False"

definition holders :: "access \<Rightarrow> (rw_cond, rw_label) thread list \<Rightarrow> nat" where
  "holders a = num (\<lambda>p. holds a (label_of p))"

definition waiting :: "(rw_cond, rw_label) thread list \<Rightarrow> nat" where
  "waiting = num (\<lambda>p. waits (label_of p))"

fun sleep_ok :: "(rw_cond, rw_label) thread \<Rightarrow> bool" where
  "sleep_ok (Asleep ReadersOk l) = (\<exists>r. l = (Rd # r, Blocked))"
| "sleep_ok (Asleep WritersOk l) = (\<exists>r. l = (Wr # r, Blocked))"
| "sleep_ok p = True"

text \<open>
  The three fields count the threads they should; nobody sleeps without reason: a sleeping writer
  has a reader, an active writer or a waiting writer that is awake to blame, a sleeping reader an
  active or, with writer preference, a waiting writer.
\<close>

definition rw_inv :: "bool \<Rightarrow> read_write_lock \<Rightarrow> (rw_cond, rw_label) thread list \<Rightarrow> bool" where
  "rw_inv wp rw ps \<longleftrightarrow> readers rw = int (holders Rd ps) \<and> of_bool (writer_active rw) = int (holders Wr ps) \<and>
     writers_waiting rw = int (waiting ps) \<and> (writer_active rw \<longrightarrow> readers rw = 0) \<and>
     (\<forall>t<length ps. sleep_ok (ps ! t)) \<and>
     (0 < sleepers WritersOk ps \<longrightarrow> writer_active rw \<or> 0 < readers rw \<or> sleepers WritersOk ps < waiting ps) \<and>
     (0 < sleepers ReadersOk ps \<longrightarrow> writer_active rw \<or> wp \<and> 0 < writers_waiting rw)"

lemma sleeping_writers: "\<forall>t<length ps. sleep_ok (ps ! t) \<Longrightarrow> sleepers WritersOk ps \<le> waiting ps"
  unfolding sleepers_def waiting_def
proof (rule num_mono)
  fix t
  assume a: "\<forall>t<length ps. sleep_ok (ps ! t)" "t < length ps" "asleep_on WritersOk (ps ! t)"
  then have "sleep_ok (ps ! t)" by blast
  with a(3) show "waits (label_of (ps ! t))" by (cases "ps ! t") auto
qed

text \<open>What a segment of thread \<open>t\<close> does to the counts.\<close>

lemma segment_counts:
  assumes t: "t < length ps" "ps ! t = Inside l" and w: "wakeups es ws ps = Some ps'"
  shows "int (holders a (ps'[t := p])) = int (holders a ps) - of_bool (holds a (Some l)) + of_bool (holds a (label_of p))"
    "int (waiting (ps'[t := p])) = int (waiting ps) - of_bool (waits (Some l)) + of_bool (waits (label_of p))"
    "int (sleepers c (ps'[t := p])) = int (sleepers c ps') + of_bool (asleep_on c p)"
    "(\<forall>u<length ps. sleep_ok (ps ! u)) \<Longrightarrow> sleep_ok p \<Longrightarrow> (\<forall>u<length (ps'[t := p]). sleep_ok (ps'[t := p] ! u))"
proof -
  note n = wakeups_nth [OF w]
  have t': "t < length ps'" "ps' ! t = Inside l" using t n(1) n(2) [OF t(1)] by simp_all
  show "int (holders a (ps'[t := p])) = int (holders a ps) - of_bool (holds a (Some l)) + of_bool (holds a (label_of p))"
    using num_update [OF t'(1), of "\<lambda>p. holds a (label_of p)" p] num_labels_wakeups [OF w, of "holds a"] t'(2)
    by (simp add: holders_def)
  show "int (waiting (ps'[t := p])) = int (waiting ps) - of_bool (waits (Some l)) + of_bool (waits (label_of p))"
    using num_update [OF t'(1), of "\<lambda>p. waits (label_of p)" p] num_labels_wakeups [OF w, of waits] t'(2)
    by (simp add: waiting_def)
  show "int (sleepers c (ps'[t := p])) = int (sleepers c ps') + of_bool (asleep_on c p)"
    using sleepers_update [OF t'(1), of c p] t'(2) by simp
  assume s: "\<forall>u<length ps. sleep_ok (ps ! u)" "sleep_ok p"
  have "sleep_ok (ps' ! u)" if "u < length ps'" for u
  proof (cases "ps' ! u")
    case (Asleep c l)
    then have "ps ! u = ps' ! u" using n(1) n(2) [of u] that by simp
    then show ?thesis using s(1) n(1) that by metis
  qed simp_all
  then show "\<forall>u<length (ps'[t := p]). sleep_ok (ps'[t := p] ! u)" using s(2) t'(1) by (simp add: nth_list_update)
qed

lemma no_wakeups: "wakeups [] ws ps = Some ps' \<Longrightarrow> ps' = ps"
  by (simp split: if_splits)

lemma broadcast_only:
  assumes "wakeups [Broadcast c] ws ps = Some ps'"
  shows "sleepers d ps' = (if d = c then 0 else sleepers d ps)"
proof -
  have "ps' = map (\<lambda>p. if asleep_on c p then wake p else p) ps" using assms by (simp split: if_splits)
  then show ?thesis by (simp add: broadcast_sleepers)
qed

lemma reader_lock_inv:
  assumes t: "t < length ps" "ps ! t = Inside (Rd # r, ph)" "ph \<noteq> Holding" and inv: "rw_inv wp rw ps"
    and step: "(if wp then wp_ReaderLock r rw else rp_ReaderLock r rw) = (rw', es, q)"
    and w: "wakeups es ws ps = Some ps'"
  shows "rw_inv wp rw' (ps'[t := after_leave q])"
proof -
  have l: "\<not> holds a (Some (Rd # r, ph))" "\<not> waits (Some (Rd # r, ph))" for a using t(3) by (cases ph; simp)+
  have es: "es = []" using step by (auto simp: wp_ReaderLock_def rp_ReaderLock_def split: if_splits)
  then have ps': "ps' = ps" using w no_wakeups by blast
  note c = segment_counts [where p = "after_leave q", OF t(1,2) w]
  note cs = c(1) [of Rd] c(1) [of Wr] c(2) c(3) [of WritersOk] c(3) [of ReadersOk] c(4)
  show ?thesis
  proof (cases "writer_active rw \<or> wp \<and> writers_waiting rw > 0")
    case True
    then have q: "rw' = rw" "q = Wait ReadersOk (Rd # r, Blocked)"
      using step by (auto simp: wp_ReaderLock_def rp_ReaderLock_def split: if_splits)
    show ?thesis using inv cs True unfolding rw_inv_def q ps' by (auto simp: l)
  next
    case False
    then have q: "rw' = rw\<lparr>readers := readers rw + 1\<rparr>" "q = Unlock (Rd # r, Holding)"
      using step by (auto simp: wp_ReaderLock_def rp_ReaderLock_def split: if_splits)
    show ?thesis using inv cs False unfolding rw_inv_def q ps' by (auto simp: l)
  qed
qed

lemma writer_wait_inv:
  assumes t: "t < length ps" "ps ! t = Inside (Wr # r, ph)" "ph \<noteq> Holding"
    and rw: "readers rw = int (holders Rd ps)" "of_bool (writer_active rw) = int (holders Wr ps)"
      "writers_waiting rw = int (waiting ps) + of_bool (ph = Want)" "writer_active rw \<longrightarrow> readers rw = 0"
      "\<forall>t<length ps. sleep_ok (ps ! t)"
      "0 < sleepers ReadersOk ps \<longrightarrow> writer_active rw \<or> wp \<and> 0 < writers_waiting rw"
    and step: "writer_wait r rw = (rw', es, q)" and w: "wakeups es ws ps = Some ps'"
  shows "rw_inv wp rw' (ps'[t := after_leave q])"
proof -
  have l: "\<not> holds a (Some (Wr # r, ph))" "waits (Some (Wr # r, ph)) \<longleftrightarrow> ph \<noteq> Want" for a
    using t(3) by (cases ph; simp)+
  have es: "es = []" using step by (auto simp: writer_wait_def split: if_splits)
  then have ps': "ps' = ps" using w no_wakeups by blast
  note c = segment_counts [where p = "after_leave q", OF t(1,2) w]
  note cs = c(1) [of Rd] c(1) [of Wr] c(2) c(3) [of WritersOk] c(3) [of ReadersOk] c(4)
  show ?thesis
  proof (cases "writer_active rw \<or> readers rw > 0")
    case True
    then have q: "rw' = rw" "q = Wait WritersOk (Wr # r, Blocked)" using step by (auto simp: writer_wait_def)
    show ?thesis using rw cs True unfolding rw_inv_def q ps' by (auto simp: l split: if_splits)
  next
    case False
    then have q: "rw' = rw\<lparr>writers_waiting := writers_waiting rw - 1, writer_active := True\<rparr>"
      "q = Unlock (Wr # r, Holding)" using step by (auto simp: writer_wait_def)
    have "readers rw = 0" using False rw(1) by simp
    then show ?thesis using rw cs False unfolding rw_inv_def q ps' by (auto simp: l split: if_splits)
  qed
qed

lemma after_next_access:
  "\<not> holds a (label_of (after_leave (next_access r)))" "\<not> waits (label_of (after_leave (next_access r)))"
  "\<not> asleep_on c (after_leave (next_access r))" "sleep_ok (after_leave (next_access r))"
  by (cases r; cases "hd r"; simp add: next_access_def)+

lemma reader_unlock_inv:
  assumes t: "t < length ps" "ps ! t = Inside (Rd # r, Holding)" and inv: "rw_inv wp rw ps"
    and step: "ReaderUnlock r rw = (rw', es, q)" and w: "wakeups es ws ps = Some ps'"
  shows "rw_inv wp rw' (ps'[t := after_leave q])"
proof -
  have q: "rw' = rw\<lparr>readers := readers rw - 1\<rparr>" "es = (if readers rw = 1 then [Signal WritersOk] else [])"
    "q = next_access r" using step by (auto simp: ReaderUnlock_def Let_def)
  note c = segment_counts [where p = "after_leave q", OF t w]
  have pos: "1 \<le> readers rw"
  proof -
    have "0 < holders Rd ps" unfolding holders_def num_pos using t by (intro exI [of _ t]) simp
    then show ?thesis using inv by (simp add: rw_inv_def)
  qed
  have sl': "int (sleepers d ps') = int (sleepers d ps) - of_bool (readers rw = 1 \<and> d = WritersOk \<and> 0 < sleepers WritersOk ps)" for d
  proof (cases "readers rw = 1")
    case True
    then have "wakeups [Signal WritersOk] ws ps = Some ps'" using w q(2) by simp
    from signal_sleepers [OF this, of d] show ?thesis using True by simp
  next
    case False
    then have "ps' = ps" using no_wakeups [of ws ps ps'] w q(2) by simp
    then show ?thesis using False by simp
  qed
  have sl: "int (sleepers d (ps'[t := after_leave q])) =
      int (sleepers d ps) - of_bool (readers rw = 1 \<and> d = WritersOk \<and> 0 < sleepers WritersOk ps)" for d
    using c(3) [of d] sl' [of d] by (simp add: q(3) after_next_access)
  have le: "sleepers WritersOk ps \<le> waiting ps" using inv by (intro sleeping_writers) (simp add: rw_inv_def)
  have ok: "\<forall>u<length (ps'[t := after_leave q]). sleep_ok (ps'[t := after_leave q] ! u)"
    using c(4) inv by (simp add: rw_inv_def q(3) after_next_access)
  have n: "int (holders Rd (ps'[t := after_leave q])) = int (holders Rd ps) - 1"
    "int (holders Wr (ps'[t := after_leave q])) = int (holders Wr ps)"
    "int (waiting (ps'[t := after_leave q])) = int (waiting ps)"
    using c(1) [of Rd] c(1) [of Wr] c(2) by (simp_all add: q(3) after_next_access)
  show ?thesis
  proof (cases "readers rw = 1 \<and> 0 < sleepers WritersOk ps")
    case True
    then show ?thesis
      using inv n sl [of WritersOk] sl [of ReadersOk] le ok unfolding rw_inv_def q(1) by auto
  next
    case False
    then have "sleepers d (ps'[t := after_leave q]) = sleepers d ps" for d using sl [of d] by (auto split: if_splits)
    then show ?thesis
      using inv n False pos ok unfolding rw_inv_def q(1) by auto
  qed
qed

text \<open>
  What both \<open>WriterUnlock\<close>s achieve: if writers sleep one is woken; readers still asleep wait for a
  writer, which only the writer preference allows.
\<close>

lemma writer_unlock_inv:
  assumes t: "t < length ps" "ps ! t = Inside (Wr # r, Holding)" and inv: "rw_inv wp rw ps"
    and step: "(if wp then wp_WriterUnlock r rw else rp_WriterUnlock r rw) = (rw', es, q)"
    and w: "wakeups es ws ps = Some ps'"
  shows "rw_inv wp rw' (ps'[t := after_leave q])"
proof -
  have q: "rw' = rw\<lparr>writer_active := False\<rparr>" "q = next_access r"
    using step by (auto simp: wp_WriterUnlock_def rp_WriterUnlock_def Let_def split: if_splits)
  note c = segment_counts [where p = "after_leave q", OF t w]
  have "0 < holders Wr ps" unfolding holders_def num_pos using t by (intro exI [of _ t]) simp
  moreover have "of_bool (writer_active rw) = int (holders Wr ps)" using inv by (simp add: rw_inv_def)
  ultimately have act: "writer_active rw" by (cases "writer_active rw") simp_all
  then have rd: "readers rw = 0" using inv by (simp add: rw_inv_def)
  have le: "sleepers WritersOk ps \<le> waiting ps" using inv by (intro sleeping_writers) (simp add: rw_inv_def)
  have ww: "writers_waiting rw = int (waiting ps)" using inv by (simp add: rw_inv_def)
  have woken: "(0 < sleepers WritersOk ps' \<longrightarrow> sleepers WritersOk ps' < waiting ps) \<and>
    (0 < sleepers ReadersOk ps' \<longrightarrow> wp \<and> 0 < waiting ps)"
  proof (cases "wp \<and> 0 < waiting ps")
    case True
    then have "wakeups [Signal WritersOk] ws ps = Some ps'"
      using step w ww by (auto simp: wp_WriterUnlock_def Let_def)
    from signal_sleepers [OF this, of WritersOk] True le show ?thesis by (simp add: of_bool_def split: if_splits)
  next
    case False
    show ?thesis
    proof (cases wp)
      case True
      then have "wakeups [Broadcast ReadersOk] ws ps = Some ps'"
        using False step w ww by (auto simp: wp_WriterUnlock_def Let_def)
      from broadcast_only [OF this] True False le show ?thesis by simp
    next
      case False
      then have "wakeups [Broadcast ReadersOk, Signal WritersOk] ws ps = Some ps'"
        using step w rd by (auto simp: rp_WriterUnlock_def Let_def simp del: wakeups.simps)
      then have "wakeups [Signal WritersOk] ws (map (\<lambda>p. if asleep_on ReadersOk p then wake p else p) ps) = Some ps'"
        by (subst (asm) wakeups.simps)
      from signal_sleepers [OF this, of WritersOk] signal_sleepers [OF this, of ReadersOk] le
      show ?thesis by (simp add: broadcast_sleepers of_bool_def split: if_splits)
    qed
  qed
  show ?thesis
    using inv act rd woken c(1) [of Rd] c(1) [of Wr] c(2) c(3) [of WritersOk] c(3) [of ReadersOk] c(4)
    unfolding rw_inv_def by (auto simp: q after_next_access)
qed

lemma writer_lock_inv:
  assumes t: "t < length ps" "ps ! t = Inside (Wr # r, Want)" and inv: "rw_inv wp rw ps"
    and step: "WriterLock r rw = (rw', es, q)" and w: "wakeups es ws ps = Some ps'"
  shows "rw_inv wp rw' (ps'[t := after_leave q])"
proof (rule writer_wait_inv [OF t _ _ _ _ _ _ _ _ w])
  show "writer_wait r (rw\<lparr>writers_waiting := writers_waiting rw + 1\<rparr>) = (rw', es, q)"
    using step by (simp add: WriterLock_def)
qed (use inv in \<open>auto simp: rw_inv_def\<close>)

lemma blocked_writer_inv:
  assumes t: "t < length ps" "ps ! t = Inside (Wr # r, Blocked)" and inv: "rw_inv wp rw ps"
    and step: "writer_wait r rw = (rw', es, q)" and w: "wakeups es ws ps = Some ps'"
  shows "rw_inv wp rw' (ps'[t := after_leave q])"
  by (rule writer_wait_inv [OF t _ _ _ _ _ _ _ step w]) (use inv in \<open>auto simp: rw_inv_def\<close>)

lemma finished_inv:
  assumes t: "t < length ps" "ps ! t = Inside ([], ph)" and inv: "rw_inv wp rw ps" and w: "wakeups [] ws ps = Some ps'"
  shows "rw_inv wp rw (ps'[t := Done])"
proof -
  have "ps' = ps" using w by (rule no_wakeups)
  then show ?thesis
    using segment_counts(1) [where p = Done, OF t w, of Rd] segment_counts(1) [where p = Done, OF t w, of Wr]
      segment_counts(2-4) [where p = Done, OF t w] inv unfolding rw_inv_def by auto
qed

lemma rw_segment_inv:
  assumes t: "t < length ps" "ps ! t = Inside l" and inv: "rw_inv wp rw ps"
    and step: "rw_code wp t l rw = (rw', es, q)" and w: "wakeups es ws ps = Some ps'"
  shows "rw_inv wp rw' (ps'[t := after_leave q])"
proof -
  obtain r ph where l: "l = (r, ph)" by (cases l)
  consider (none) "r = []" | (reader) r' where "r = Rd # r'" | (writer) r' where "r = Wr # r'"
    by (metis access.exhaust neq_Nil_conv)
  then show ?thesis
  proof cases
    case none
    then show ?thesis using finished_inv [of t ps ph] assms l by auto
  next
    case (reader r')
    show ?thesis
    proof (cases "ph = Holding")
      case True
      then show ?thesis using reader_unlock_inv [OF t(1) _ inv _ w] t(2) step l reader by auto
    next
      case False
      then have "rw_code wp t l rw = (if wp then wp_ReaderLock r' rw else rp_ReaderLock r' rw)"
        unfolding l reader by (cases ph) auto
      then show ?thesis using reader_lock_inv [OF t(1) _ False inv _ w] t(2) step l reader by auto
    qed
  next
    case (writer r')
    then show ?thesis
      using writer_lock_inv [OF t(1) _ inv _ w] blocked_writer_inv [OF t(1) _ inv _ w]
        writer_unlock_inv [OF t(1) _ inv _ w] t(2) step l writer by (cases ph) auto
  qed
qed

lemma relabel:
  assumes "t < length ps" "label_of p = label_of (ps ! t)"
  shows "holders a (ps[t := p]) = holders a ps" "waiting (ps[t := p]) = waiting ps"
proof -
  show "holders a (ps[t := p]) = holders a ps"
    using num_update [OF assms(1), of "\<lambda>p. holds a (label_of p)" p] assms(2) by (simp add: holders_def)
  show "waiting (ps[t := p]) = waiting ps"
    using num_update [OF assms(1), of "\<lambda>p. waits (label_of p)" p] assms(2) by (simp add: waiting_def)
qed

interpretation rw: monitor "rw_code wp" "rw_inv wp" for wp
proof
  fix t l rw and ps :: "(rw_cond, rw_label) thread list"
  assume a: "t < length ps" "ps ! t = Enter l" "rw_inv wp rw ps"
  have "sleepers c (ps[t := Inside l]) = sleepers c ps" for c
    using sleepers_update [OF a(1), of c "Inside l"] a(2) by simp
  moreover have "\<forall>u<length ps. sleep_ok (ps[t := Inside l] ! u)"
    using a by (simp add: rw_inv_def nth_list_update)
  ultimately show "rw_inv wp rw (ps[t := Inside l])"
    using a(3) relabel [OF a(1), of "Inside l"] a(2) by (auto simp: rw_inv_def)
next
  fix t c l rw and ps :: "(rw_cond, rw_label) thread list"
  assume a: "t < length ps" "ps ! t = Asleep c l" "rw_inv wp rw ps"
  have le: "sleepers d (ps[t := Enter l]) \<le> sleepers d ps" for d
    using sleepers_update [OF a(1), of d "Enter l"] a(2) by (cases "d = c") simp_all
  have "\<forall>u<length ps. sleep_ok (ps[t := Enter l] ! u)"
    using a by (simp add: rw_inv_def nth_list_update)
  then show "rw_inv wp rw (ps[t := Enter l])"
    using a(3) relabel [OF a(1), of "Enter l"] a(2) le [of ReadersOk] le [of WritersOk]
    unfolding rw_inv_def by auto
qed (rule rw_segment_inv)

lemma rw_system_inv: "mutex_ok (rw_system scripts)" "rw_inv wp (shared (rw_system scripts)) (threads (rw_system scripts))"
proof -
  have "holds a (Some (r, Want)) = False" "waits (Some (r, Want)) = False" for a r by (cases r; cases "hd r"; simp)+
  then show "rw_inv wp (shared (rw_system scripts)) (threads (rw_system scripts))"
    by (simp add: rw_system_def mon_init_def InitalizeReadWriteLock_def rw_inv_def holders_def waiting_def sleepers_def
        num_def filter_empty_conv)
  show "mutex_ok (rw_system scripts)" by (simp add: rw_system_def mon_init_mutex_ok)
qed

text \<open>When all threads sleep or are done, they are done.\<close>

lemma rw_all_done:
  assumes inv: "rw_inv wp rw ps" and d: "\<forall>p\<in>set ps. is_asleep p \<or> p = Done"
  shows "\<forall>p\<in>set ps. p = Done"
proof -
  have ok: "\<forall>t<length ps. sleep_ok (ps ! t)" using inv by (simp add: rw_inv_def)
  have pt: "is_asleep (ps ! t) \<or> ps ! t = Done" "sleep_ok (ps ! t)" if "t < length ps" for t
    using d ok that nth_mem by blast+
  have "\<not> holds a (label_of (ps ! t))" if "t < length ps" for a t
    using pt [OF that] by (cases "ps ! t" rule: sleep_ok.cases) auto
  then have h: "holders a ps = 0" for a unfolding holders_def using num_pos by (metis gr0I)
  have "waits (label_of (ps ! t)) \<longrightarrow> asleep_on WritersOk (ps ! t)" if "t < length ps" for t
    using pt [OF that] by (cases "ps ! t" rule: sleep_ok.cases) auto
  then have "waiting ps \<le> sleepers WritersOk ps" unfolding waiting_def sleepers_def by (intro num_mono) blast
  then have z: "sleepers c ps = 0" for c
    using inv h [of Rd] h [of Wr] sleeping_writers [OF ok] by (cases c) (auto simp: rw_inv_def)
  have "p = Done" if p: "p \<in> set ps" for p
  proof (cases p)
    case (Asleep c l)
    then have "0 < sleepers c ps" unfolding sleepers_pos list_ex_iff using p by force
    then show ?thesis using z by simp
  qed (use d p in auto)
  then show ?thesis by blast
qed

text \<open>While a writer waits, no segment of the writer-preferring lock adds a reader.\<close>

lemma waiting_writer_readers:
  "rw_code True t l rw = (rw', es, q) \<Longrightarrow> 0 < writers_waiting rw \<Longrightarrow> readers rw' \<le> readers rw"
  by (cases "(True, t, l, rw)" rule: rw_code.cases)
    (auto simp: wp_ReaderLock_def ReaderUnlock_def WriterLock_def writer_wait_def wp_WriterUnlock_def Let_def
      split: if_splits)

section \<open>Termination\<close>

text \<open>Locking and unlocking is two segments beside the waits, for each access still to come.\<close>

fun rw_weight :: "rw_label \<Rightarrow> nat" where
  "rw_weight (as, ph) = max 1 (2 * length as - (if ph = Holding then 1 else 0))"

interpretation rw_ends: weighted_code "rw_code wp" rw_weight for wp
proof -
  have "case q of Wait c l' \<Rightarrow> es = [] \<and> rw_weight l' \<le> rw_weight l | Unlock l' \<Rightarrow> rw_weight l' < rw_weight l | Return \<Rightarrow> 0 < rw_weight l"
    if "rw_code wp t l s = (s', es, q)" for t l s s' es q
    using that
    by (cases "(wp, t, l, s)" rule: rw_code.cases)
      (auto simp: wp_ReaderLock_def rp_ReaderLock_def ReaderUnlock_def WriterLock_def writer_wait_def
        wp_WriterUnlock_def rp_WriterUnlock_def next_access_def Let_def neq_Nil_conv split: if_splits)
  then show "weighted_code (rw_code wp) rw_weight" by unfold_locales fastforce+
qed

section \<open>Properties\<close>

text \<open>
  C16: Both reader-writer locks (\<open>wp\<close> chooses the policy), any number of threads working through any
  lists of accesses, any schedule, spurious wakeups included: at most one thread holds the lock for
  writing and then none for reading, the fields of the lock count the threads that read, write and
  wait to write, and the lock never deadlocks: when no thread can go on, all accesses are done.
\<close>

theorem rwlock_excludes_and_finishes:
  assumes "exec (mon_step (rw_code wp)) (rw_system scripts) sched = Some st"
  shows "holders Wr (threads st) \<le> 1 \<and> (0 < holders Wr (threads st) \<longrightarrow> holders Rd (threads st) = 0) \<and>
     readers (shared st) = int (holders Rd (threads st)) \<and>
     (writer_active (shared st) \<longleftrightarrow> 0 < holders Wr (threads st)) \<and>
     writers_waiting (shared st) = int (waiting (threads st)) \<and>
     (stuck (rw_code wp) st \<longrightarrow> (\<forall>p\<in>set (threads st). p = Done))"
proof -
  have "mutex_ok st \<and> rw_inv wp (shared st) (threads st)"
    using rw.exec_inv [OF _ assms] rw_system_inv [where scripts = scripts] by blast
  moreover from this have "\<forall>p\<in>set (threads st). p = Done" if "stuck (rw_code wp) st"
    using that stuck_iff [of st "rw_code wp"] rw_all_done [of wp "shared st" "threads st"] by blast
  ultimately show ?thesis by (cases "writer_active (shared st)") (auto simp: rw_inv_def)
qed

text \<open>A reader, then a writer that has to wait for it.\<close>

definition reader_then_writer :: "action list" where
  "reader_then_writer = [Lock 0, Segment 0 [], Lock 1, Segment 1 [], Lock 0, Segment 0 [1], Lock 1, Segment 1 []]"

theorem rwlock_excludes_and_finishes_witness:
  "\<exists>st. exec (mon_step (rw_code True)) (rw_system [[Rd], [Wr]]) reader_then_writer = Some st \<and>
     writer_active (shared st) \<and> holders Wr (threads st) \<le> 1 \<and> holders Rd (threads st) = 0"
proof -
  have r: "exec (mon_step (rw_code True)) (rw_system [[Rd], [Wr]]) reader_then_writer =
    Some \<lparr>shared = \<lparr>readers = 0, writers_waiting = 0, writer_active = True\<rparr>,
      threads = [Done, Enter ([Wr], Holding)], owner = None\<rparr>" by code_simp
  from rwlock_excludes_and_finishes [OF r] r show ?thesis by simp
qed

text \<open>
  C31: Writer preference: in every reachable state in which a writer waits for the writer-preferring
  lock, no step, not even of a reader that was woken, lets a further reader in.
\<close>

theorem waiting_writer_stops_readers:
  assumes "exec (mon_step (rw_code True)) (rw_system scripts) sched = Some st" "0 < waiting (threads st)"
    "mon_step (rw_code True) a st = Some st'"
  shows "holders Rd (threads st') \<le> holders Rd (threads st)"
proof -
  have m: "mutex_ok st \<and> rw_inv True (shared st) (threads st)"
    using rw.exec_inv [OF _ assms(1)] rw_system_inv [where scripts = scripts] by blast
  then have "rw_inv True (shared st') (threads st')" using rw.step_inv [OF _ assms(3)] by blast
  moreover have "readers (shared st') \<le> readers (shared st)"
  proof (cases a)
    case (Segment t ws)
    with assms(3) obtain l es q where b: "rw_code True t l (shared st) = (shared st', es, q)"
      by (auto split: if_splits thread.splits prod.splits)
    have "0 < writers_waiting (shared st)" using m assms(2) by (simp add: rw_inv_def)
    with b show ?thesis by (rule waiting_writer_readers)
  qed (use assms(3) in \<open>auto split: if_splits thread.splits\<close>)
  ultimately show ?thesis using m by (simp add: rw_inv_def)
qed

theorem waiting_writer_stops_readers_witness:
  "\<exists>st st'. exec (mon_step (rw_code True)) (rw_system [[Rd], [Wr], [Rd]])
       [Lock 0, Segment 0 [], Lock 1, Segment 1 [], Lock 2] = Some st \<and>
     mon_step (rw_code True) (Segment 2 []) st = Some st' \<and> waiting (threads st) = 1 \<and>
     holders Rd (threads st') \<le> holders Rd (threads st) \<and> threads st' ! 2 = Asleep ReadersOk ([Rd], Blocked)"
proof -
  have r: "exec (mon_step (rw_code True)) (rw_system [[Rd], [Wr], [Rd]])
       [Lock 0, Segment 0 [], Lock 1, Segment 1 [], Lock 2] =
    Some \<lparr>shared = \<lparr>readers = 1, writers_waiting = 1, writer_active = False\<rparr>,
      threads = [Enter ([Rd], Holding), Asleep WritersOk ([Wr], Blocked), Inside ([Rd], Want)], owner = Some 2\<rparr>"
    (is "_ = Some ?st") by code_simp
  have s: "mon_step (rw_code True) (Segment 2 []) ?st =
    Some \<lparr>shared = \<lparr>readers = 1, writers_waiting = 1, writer_active = False\<rparr>,
      threads = [Enter ([Rd], Holding), Asleep WritersOk ([Wr], Blocked), Asleep ReadersOk ([Rd], Blocked)], owner = None\<rparr>"
    by code_simp
  have w: "waiting (threads ?st) = 1" by code_simp
  then have "0 < waiting (threads ?st)" by simp
  from waiting_writer_stops_readers [OF r this s] r s w show ?thesis
    by (intro exI conjI) (assumption | simp)+
qed

section \<open>The price of reader preference\<close>

text \<open>
  Two readers overlap: each takes the lock again before the other gives it back, so that the writer, which has come
  after the first of them, waits all the time.
\<close>

definition overlap :: "action list" where
  "overlap = [Lock 1, Segment 1 [], Lock 0, Segment 0 [], Lock 0, Segment 0 [], Lock 1, Segment 1 []]"

definition starving_run :: "nat \<Rightarrow> action list" where
  "starving_run n = [Lock 0, Segment 0 [], Lock 2, Segment 2 []] @ concat (replicate n overlap)"

definition starving_state :: "nat \<Rightarrow> (rw_cond, rw_label, read_write_lock) system" where
  "starving_state n = \<lparr>shared = \<lparr>readers = 1, writers_waiting = 1, writer_active = False\<rparr>,
     threads = [Enter (replicate (Suc n) Rd, Holding), if n = 0 then Done else Enter (replicate n Rd, Want),
       Asleep WritersOk ([Wr], Blocked)], owner = None\<rparr>"

lemma overlap_round:
  "exec (calm_step (rw_code False)) (starving_state (Suc n)) overlap = Some (starving_state n)"
  by (cases n)
    (simp_all add: overlap_def starving_state_def calm_step_def rp_ReaderLock_def ReaderUnlock_def next_access_def)

lemma overlap_rounds:
  "exec (calm_step (rw_code False)) (starving_state n) (concat (replicate n overlap)) = Some (starving_state 0)"
  by (induction n) (simp_all add: exec_append overlap_round)

lemma starving_start:
  "exec (calm_step (rw_code False)) (rw_system [replicate (Suc (Suc n)) Rd, replicate (Suc n) Rd, [Wr]])
     [Lock 0, Segment 0 [], Lock 2, Segment 2 []] = Some (starving_state (Suc n))"
  by (simp add: rw_system_def mon_init_def InitalizeReadWriteLock_def starving_state_def calm_step_def
      rp_ReaderLock_def WriterLock_def writer_wait_def upt_conv_Cons numeral_2_eq_2 numeral_3_eq_3)

text \<open>
  C39: Reader preference lets a writer starve: for every \<open>n\<close> there is a schedule, without spurious wakeups, in which a
  writer that has come while the first reader held the lock still sleeps, at its first access, after two readers have
  been let in \<open>2 * n + 2\<close> more times: one of them has done all its accesses and the other holds the lock for its last.
\<close>

theorem reader_pref_writer_starves:
  "exec (calm_step (rw_code False)) (rw_system [replicate (n + 2) Rd, replicate (n + 1) Rd, [Wr]]) (starving_run (n + 1)) =
     Some \<lparr>shared = \<lparr>readers = 1, writers_waiting = 1, writer_active = False\<rparr>,
       threads = [Enter ([Rd], Holding), Done, Asleep WritersOk ([Wr], Blocked)], owner = None\<rparr>"
proof -
  have "n + 2 = Suc (Suc n)" "n + 1 = Suc n" by simp_all
  then show ?thesis
    unfolding starving_run_def exec_append by (simp only: starving_start overlap_rounds option.case) (simp add: starving_state_def)
qed

end
