(* ===== verification/RwLockTests.thy ===== *)
theory RwLockTests
  imports RwLock
begin

text \<open>
  The two test programs of the reader-writer locks, \<open>rwlock/test-reader-pref.cpp\<close> and
  \<open>rwlock/test-writer-pref.cpp\<close>: readers, writers and again readers each take the lock once and note
  when they got and gave it back; \<open>main\<close> then judges the times.
\<close>

section \<open>Creating the threads\<close>

text \<open>A thread is a reader or a writer and has a number, its index in the arrays of its kind.\<close>

type_synonym role = "access \<times> nat"

datatype start_error = NoMemory | CreateFailed int

text \<open>
  One of the three loops of \<open>main\<close>: \<open>k\<close> threads of kind \<open>a\<close>, numbered from \<open>i\<close>. The answers are, per
  thread, whether \<open>malloc\<close> succeeded and what \<open>pthread_create\<close> returned.
\<close>

fun create_threads :: "access \<Rightarrow> nat \<Rightarrow> nat \<Rightarrow> (bool \<times> int) list \<Rightarrow> start_error + role list \<times> (bool \<times> int) list" where
  "create_threads a i 0 env = Inr ([], env)"
| "create_threads a i (Suc k) [] = Inl NoMemory"
| "create_threads a i (Suc k) ((mok, ret) # env) =
     (if \<not> mok then Inl NoMemory
      else if ret \<noteq> 0 then Inl (CreateFailed ret)
      else (case create_threads a (Suc i) k env of
              Inl e \<Rightarrow> Inl e
            | Inr (rs, env) \<Rightarrow> Inr ((a, i) # rs, env)))"

definition test_roles :: "nat \<Rightarrow> nat \<Rightarrow> (bool \<times> int) list \<Rightarrow> start_error + role list" where
  "test_roles R W env =
     (case create_threads Rd 0 R env of
        Inl e \<Rightarrow> Inl e
      | Inr (rs, env) \<Rightarrow>
         (case create_threads Wr 0 W env of
            Inl e \<Rightarrow> Inl e
          | Inr (ws, env) \<Rightarrow>
             (case create_threads Rd R R env of
                Inl e \<Rightarrow> Inl e
              | Inr (rs', env) \<Rightarrow> Inr (rs @ ws @ rs'))))"

section \<open>The threads\<close>

text \<open>
  \<open>Reader\<close> and \<open>Writer\<close>: lock, note the time, sleep, note the time, unlock. The two notes of a
  thread are its marks; each is one critical section of the spin lock, which protects
  \<open>thread_index\<close> (called \<open>index\<close> in the other test) and the four arrays, here one function per
  array from the kind of the thread.
\<close>

record rw_test =
  lock_system :: "(rw_cond, rw_label, read_write_lock) system"
  marks :: "nat list"
  thread_index :: int
  acquire_time :: "access \<Rightarrow> nat \<Rightarrow> int"
  release_time :: "access \<Rightarrow> nat \<Rightarrow> int"

datatype test_action = Sync action | Stamp nat

text \<open>The thread has returned from the lock function and has not called the unlock function.\<close>

fun between :: "(rw_cond, rw_label) thread \<Rightarrow> bool" where
  "between (Enter (a # r, Holding)) = True"
| "between p = False"

definition set_time :: "(access \<Rightarrow> nat \<Rightarrow> int) \<Rightarrow> role \<Rightarrow> int \<Rightarrow> access \<Rightarrow> nat \<Rightarrow> int" where
  "set_time f r v = f(fst r := (f (fst r))(snd r := v))"

fun stamp :: "role \<Rightarrow> nat \<Rightarrow> rw_test \<Rightarrow> rw_test" where
  "stamp r t st =
     (let st = (if marks st ! t = 0
                then st\<lparr>acquire_time := set_time (acquire_time st) r (thread_index st)\<rparr>
                else st\<lparr>release_time := set_time (release_time st) r (thread_index st)\<rparr>)
      in st\<lparr>thread_index := thread_index st + 1, marks := (marks st)[t := Suc (marks st ! t)]\<rparr>)"

text \<open>The unlock function is called, by taking its mutex, after the second note.\<close>

definition too_early :: "action \<Rightarrow> rw_test \<Rightarrow> bool" where
  "too_early a st = (case a of
     Lock t \<Rightarrow> t < length (threads (lock_system st)) \<and> between (threads (lock_system st) ! t) \<and> marks st ! t < 2
   | _ \<Rightarrow> False)"

fun test_step :: "bool \<Rightarrow> role list \<Rightarrow> test_action \<Rightarrow> rw_test \<Rightarrow> rw_test option" where
  "test_step wp rs (Sync a) st =
     (if too_early a st then None
      else map_option (\<lambda>y. st\<lparr>lock_system := y\<rparr>) (mon_step (rw_code wp) a (lock_system st)))"
| "test_step wp rs (Stamp t) st =
     (if t < length rs \<and> between (threads (lock_system st) ! t) \<and> marks st ! t < 2
      then Some (stamp (rs ! t) t st) else None)"

text \<open>\<open>A\<close> and \<open>B\<close>: what the arrays hold before anything is written to them.\<close>

definition test_init :: "role list \<Rightarrow> (access \<Rightarrow> nat \<Rightarrow> int) \<Rightarrow> (access \<Rightarrow> nat \<Rightarrow> int) \<Rightarrow> rw_test" where
  "test_init rs A B = \<lparr>lock_system = rw_system (map (\<lambda>r. [fst r]) rs), marks = replicate (length rs) 0,
     thread_index = 0, acquire_time = A, release_time = B\<rparr>"

section \<open>The verdict\<close>

datatype verdict = ReaderWaited | WriterBeforeReader | WriterDisturbed | Passed

definition writer_disturbed :: "nat \<Rightarrow> rw_test \<Rightarrow> bool" where
  "writer_disturbed W st = list_ex (\<lambda>i. release_time st Wr i - acquire_time st Wr i \<noteq> 1) [0..<W]"

definition reader_pref_verdict :: "nat \<Rightarrow> nat \<Rightarrow> rw_test \<Rightarrow> verdict" where
  "reader_pref_verdict R W st =
     (let readers_acq = set (map (acquire_time st Rd) [0..<2 * R]);
          readers_rel = set (map (release_time st Rd) [0..<2 * R]);
          writers_acq = set (map (acquire_time st Wr) [0..<W])
      in if R > 0 \<and> Max readers_acq > Min readers_rel then ReaderWaited
         else if R > 0 \<and> W > 0 \<and> Min writers_acq < Max readers_rel then WriterBeforeReader
         else if writer_disturbed W st then WriterDisturbed
         else Passed)"

definition writer_pref_verdict :: "nat \<Rightarrow> nat \<Rightarrow> rw_test \<Rightarrow> verdict" where
  "writer_pref_verdict R W st =
     (let second_half_acq = set (map (acquire_time st Rd) [R..<2 * R]);
          second_half_rel = set (map (release_time st Rd) [R..<2 * R]);
          writers_rel = set (map (release_time st Wr) [0..<W])
      in if R > 0 \<and> Max second_half_acq > Min second_half_rel then ReaderWaited
         else if R > 0 \<and> W > 0 \<and> Min second_half_acq < Max writers_rel then WriterBeforeReader
         else if writer_disturbed W st then WriterDisturbed
         else Passed)"

section \<open>The invariant\<close>

lemma create_threads_ok:
  "create_threads a i k env = Inr (rs, env') \<Longrightarrow> rs = map (Pair a) [i..<i + k]"
  by (induction a i k env arbitrary: rs env' rule: create_threads.induct)
    (auto simp: upt_conv_Cons simp del: upt_Suc split: if_splits sum.splits)

lemma test_roles_ok:
  "test_roles R W env = Inr rs \<Longrightarrow> rs = map (Pair Rd) [0..<R] @ map (Pair Wr) [0..<W] @ map (Pair Rd) [R..<2 * R]"
  by (auto simp: test_roles_def mult_2 split: sum.splits dest!: create_threads_ok)

text \<open>
  A thread has made no mark before it holds the lock and both when it unlocks; while a writer
  holds the lock nobody else makes a mark.
\<close>

definition mark_ok :: "role \<Rightarrow> nat \<Rightarrow> rw_test \<Rightarrow> (rw_cond, rw_label) thread \<Rightarrow> bool" where
  "mark_ok r m st p \<longleftrightarrow> m \<le> 2 \<and>
     (case label_of p of
        None \<Rightarrow> m = 2
      | Some (l, ph) \<Rightarrow> l = [fst r] \<and> (if ph = Holding then between p \<or> m = 2 else m = 0)) \<and>
     (fst r = Wr \<longrightarrow> (m = 1 \<longrightarrow> acquire_time st Wr (snd r) = thread_index st - 1) \<and>
        (m = 2 \<longrightarrow> release_time st Wr (snd r) = acquire_time st Wr (snd r) + 1 \<and> release_time st Wr (snd r) < thread_index st))"

definition test_inv :: "bool \<Rightarrow> role list \<Rightarrow> rw_test \<Rightarrow> bool" where
  "test_inv wp rs st \<longleftrightarrow> mutex_ok (lock_system st) \<and> rw_inv wp (shared (lock_system st)) (threads (lock_system st)) \<and>
     length (threads (lock_system st)) = length rs \<and> length (marks st) = length rs \<and>
     (\<forall>t<length rs. mark_ok (rs ! t) (marks st ! t) st (threads (lock_system st) ! t))"

lemma writer_holds_alone:
  assumes inv: "rw_inv wp rw ps" and t: "t < length ps" "u < length ps" "t \<noteq> u" and h: "holds Wr (label_of (ps ! t))"
  shows "\<not> holds a (label_of (ps ! u))"
proof
  assume u: "holds a (label_of (ps ! u))"
  have w: "0 < holders Wr ps" "holders Wr ps \<le> 1" "holders Wr ps = 0 \<or> holders Rd ps = 0"
    using inv h t(1) by (auto simp: rw_inv_def holders_def num_pos of_bool_def split: if_splits)
  show False
  proof (cases a)
    case Rd
    then have "0 < holders Rd ps" using t(2) u unfolding holders_def num_pos by blast
    then show ?thesis using w by simp
  next
    case Wr
    then have "2 \<le> holders Wr ps" unfolding holders_def using num_two [OF t(1,2,3)] h u by simp
    then show ?thesis using w(2) by simp
  qed
qed

text \<open>How the lock and unlock functions end, for a thread with one access.\<close>

lemma single_access_leave:
  assumes "rw_code wp t ([a], ph) rw = (rw', es, q)"
  shows "if ph = Holding then q = Return else q \<in> {Wait ReadersOk ([a], Blocked), Wait WritersOk ([a], Blocked), Unlock ([a], Holding)}"
  using assms
  by (cases a; cases ph; cases wp)
    (auto simp: wp_ReaderLock_def rp_ReaderLock_def ReaderUnlock_def WriterLock_def writer_wait_def
      wp_WriterUnlock_def rp_WriterUnlock_def next_access_def Let_def split: if_splits)

lemma between_label: "between p \<longleftrightarrow> (\<exists>a r. p = Enter (a # r, Holding))"
  by (cases p rule: between.cases) auto

lemma sync_mark_ok:
  assumes step: "thread_step (rw_code wp) s a t p p'" and ok: "mark_ok r m st p"
    and early: "a = Lock t \<Longrightarrow> between p \<Longrightarrow> m = 2"
  shows "mark_ok r m (st\<lparr>lock_system := y\<rparr>) p'"
  using step
proof cases
  case kept
  then have "label_of p' = label_of p" "between p \<Longrightarrow> between p'"
    by (auto simp: label_woken between_label elim: woken.cases)
  then show ?thesis using ok by (auto simp: mark_ok_def split: option.splits)
next
  case (locked l)
  then show ?thesis using ok early by (cases l) (auto simp: mark_ok_def between_label split: if_splits)
next
  case (ran l s' es q ws)
  obtain ph where l: "l = ([fst r], ph)" using ok ran(2) by (cases l) (auto simp: mark_ok_def)
  have m: "if ph = Holding then m = 2 else m = 0" using ok ran(2) l by (auto simp: mark_ok_def split: if_splits)
  from single_access_leave [OF ran(4) [unfolded l]] m ok show ?thesis
    unfolding ran(3) by (auto simp: mark_ok_def split: if_splits)
qed

lemma stamp_mark_ok:
  assumes inv: "test_inv wp rs st" and d: "distinct rs" and t: "t < length rs" "between (threads (lock_system st) ! t)" "marks st ! t < 2"
    and u: "u < length rs"
  shows "mark_ok (rs ! u) (marks (stamp (rs ! t) t st) ! u) (stamp (rs ! t) t st) (threads (lock_system st) ! u)"
proof (cases "u = t")
  case True
  have "mark_ok (rs ! t) (marks st ! t) st (threads (lock_system st) ! t)" "t < length (marks st)"
    using inv t(1) by (simp_all add: test_inv_def)
  then show ?thesis
    using t(2,3) unfolding True by (auto simp: mark_ok_def Let_def set_time_def between_label less_2_cases_iff)
next
  case False
  let ?ps = "threads (lock_system st)"
  have ok: "mark_ok (rs ! u) (marks st ! u) st (?ps ! u)" using inv u by (simp add: test_inv_def)
  have ne: "rs ! u \<noteq> rs ! t" using d t(1) u False by (simp add: nth_eq_iff_index_eq)
  have not1: "marks st ! u \<noteq> 1" if w: "fst (rs ! u) = Wr"
  proof
    assume "marks st ! u = 1"
    then have "holds Wr (label_of (?ps ! u))"
      using ok w by (auto simp: mark_ok_def split: option.splits if_splits)
    moreover obtain a r where "?ps ! t = Enter (a # r, Holding)" using t(2) unfolding between_label by blast
    then have "holds a (label_of (?ps ! t))" by simp
    moreover have "rw_inv wp (shared (lock_system st)) ?ps" "length ?ps = length rs" using inv by (simp_all add: test_inv_def)
    ultimately show False using writer_holds_alone [of wp "shared (lock_system st)" ?ps u t a] t(1) u False by simp
  qed
  show ?thesis
  proof (cases "fst (rs ! u) = Wr")
    case True
    then have "fst (rs ! t) = Wr \<Longrightarrow> snd (rs ! t) \<noteq> snd (rs ! u)" using ne by (metis prod_eqI)
    then show ?thesis using ok not1 True False by (auto simp: mark_ok_def Let_def set_time_def split: option.splits)
  next
    case other: False
    then show ?thesis using ok False by (auto simp: mark_ok_def Let_def split: option.splits)
  qed
qed

lemma test_step_inv:
  assumes "test_inv wp rs st" "distinct rs" "test_step wp rs a st = Some st'"
  shows "test_inv wp rs st'"
proof (cases a)
  case (Sync b)
  then obtain y where y: "mon_step (rw_code wp) b (lock_system st) = Some y" "st' = st\<lparr>lock_system := y\<rparr>" "\<not> too_early b st"
    using assms(3) by (auto split: if_splits)
  have inv: "mutex_ok y \<and> rw_inv wp (shared y) (threads y)"
    using rw.step_inv [OF _ y(1)] assms(1) by (simp add: test_inv_def)
  have "mark_ok (rs ! t) (marks st ! t) st' (threads y ! t)" if t: "t < length rs" for t
    unfolding y(2)
  proof (rule sync_mark_ok)
    show "thread_step (rw_code wp) (shared (lock_system st)) b t (threads (lock_system st) ! t) (threads y ! t)"
      using mon_step_nth(2) [OF y(1)] t assms(1) by (simp add: test_inv_def)
    show ok: "mark_ok (rs ! t) (marks st ! t) st (threads (lock_system st) ! t)" using assms(1) t by (simp add: test_inv_def)
    show "marks st ! t = 2" if "b = Lock t" "between (threads (lock_system st) ! t)"
      using y(3) that t assms(1) ok by (auto simp: too_early_def test_inv_def mark_ok_def)
  qed
  then show ?thesis using inv mon_step_nth(1) [OF y(1)] assms(1) y(2) by (simp add: test_inv_def)
next
  case (Stamp t)
  then have t: "t < length rs" "between (threads (lock_system st) ! t)" "marks st ! t < 2" "st' = stamp (rs ! t) t st"
    using assms(3) by (auto split: if_splits)
  then show ?thesis
    using stamp_mark_ok [OF assms(1,2) t(1,2,3)] assms(1) by (auto simp: test_inv_def Let_def)
qed

interpretation rw_test: step_invariant "test_step wp rs" "\<lambda>st. test_inv wp rs st \<and> distinct rs" for wp rs
  by unfold_locales (blast intro: test_step_inv)

lemma test_init_inv: "test_inv wp rs (test_init rs A B)"
  using rw_system_inv [where scripts = "map (\<lambda>r. [fst r]) rs"]
  by (auto simp: test_inv_def test_init_def mark_ok_def) (auto simp: rw_system_def mon_init_def)

lemma test_roles_distinct: "test_roles R W env = Inr rs \<Longrightarrow> distinct rs"
  by (auto simp: distinct_map inj_on_def dest!: test_roles_ok)

lemma test_roles_nth:
  assumes "test_roles R W env = Inr rs"
  shows "length rs = 2 * R + W" "i < W \<Longrightarrow> rs ! (R + i) = (Wr, i)" "j < R \<Longrightarrow> rs ! (R + W + j) = (Rd, R + j)"
    "t < length rs \<Longrightarrow> R + W \<le> t \<Longrightarrow> fst (rs ! t) = Rd"
  using test_roles_ok [OF assms] by (auto simp: nth_append)

lemma all_done_times:
  assumes inv: "test_inv wp rs st" and rs: "test_roles R W env = Inr rs" and d: "\<forall>p\<in>set (threads (lock_system st)). p = Done"
  shows "\<forall>i<W. release_time st Wr i = acquire_time st Wr i + 1"
proof (intro allI impI)
  fix i assume i: "i < W"
  let ?t = "R + i"
  have t: "?t < length rs" "rs ! ?t = (Wr, i)" using test_roles_nth(1,2) [OF rs] i by simp_all
  have "threads (lock_system st) ! ?t = Done" using d inv t(1) by (metis nth_mem test_inv_def)
  moreover have "mark_ok (rs ! ?t) (marks st ! ?t) st (threads (lock_system st) ! ?t)" using inv t(1) by (simp add: test_inv_def)
  ultimately show "release_time st Wr i = acquire_time st Wr i + 1" using t(2) by (simp add: mark_ok_def)
qed

lemma not_disturbed:
  "\<forall>i<W. release_time st Wr i = acquire_time st Wr i + 1 \<Longrightarrow> \<not> writer_disturbed W st"
  by (auto simp: writer_disturbed_def list_ex_iff)

lemma verdict_not_disturbed:
  assumes "\<not> writer_disturbed W st"
  shows "reader_pref_verdict R W st \<noteq> WriterDisturbed" "writer_pref_verdict R W st \<noteq> WriterDisturbed"
  using assms unfolding reader_pref_verdict_def writer_pref_verdict_def Let_def by (auto simp only: verdict.distinct split: if_splits)

section \<open>Late readers\<close>

text \<open>
  The writer-preference test sleeps before it creates its second half of readers, so that the writers
  have called \<open>WriterLock\<close> by then. From a state in which they have, this is what stays true.
\<close>

definition phase_of :: "(rw_cond, rw_label) thread \<Rightarrow> phase option" where
  "phase_of p = map_option snd (label_of p)"

definition got_lock :: "(rw_cond, rw_label) thread \<Rightarrow> bool" where
  "got_lock p \<longleftrightarrow> phase_of p = None \<or> phase_of p = Some Holding"

definition writers_called :: "role list \<Rightarrow> rw_test \<Rightarrow> bool" where
  "writers_called rs st =
     list_all (\<lambda>t. fst (rs ! t) = Rd \<or> phase_of (threads (lock_system st) ! t) \<noteq> Some Want) [0..<length rs]"

definition late_not_started :: "nat \<Rightarrow> rw_test \<Rightarrow> bool" where
  "late_not_started k st = list_all (\<lambda>p. p = Enter ([Rd], Want)) (drop k (threads (lock_system st)))"

definition writers_gone :: "role list \<Rightarrow> rw_test \<Rightarrow> bool" where
  "writers_gone rs st = list_all (\<lambda>t. fst (rs ! t) = Rd \<or> threads (lock_system st) ! t = Done) [0..<length rs]"

definition late_inv :: "nat \<Rightarrow> role list \<Rightarrow> rw_test \<Rightarrow> bool" where
  "late_inv k rs st \<longleftrightarrow> writers_called rs st \<and>
     (\<forall>t<length rs. k \<le> t \<longrightarrow> got_lock (threads (lock_system st) ! t) \<longrightarrow> writers_gone rs st) \<and>
     (\<forall>t<length rs. k \<le> t \<longrightarrow> 0 < marks st ! t \<longrightarrow>
        (\<forall>u<length rs. fst (rs ! u) = Wr \<longrightarrow> release_time st Wr (snd (rs ! u)) < acquire_time st Rd (snd (rs ! t))))"

lemma access_not_Rd [simp]: "a \<noteq> Rd \<longleftrightarrow> a = Wr"
  by (cases a) auto

lemma writers_called_iff:
  "writers_called rs st \<longleftrightarrow> (\<forall>t<length rs. fst (rs ! t) = Wr \<longrightarrow> phase_of (threads (lock_system st) ! t) \<noteq> Some Want)"
  unfolding writers_called_def list_all_iff by (simp add: disj_imp Ball_def)

lemma writers_gone_iff:
  "writers_gone rs st \<longleftrightarrow> (\<forall>t<length rs. fst (rs ! t) = Wr \<longrightarrow> threads (lock_system st) ! t = Done)"
  unfolding writers_gone_def list_all_iff by (simp add: disj_imp Ball_def)

lemma phase_of_simps [simp]:
  "phase_of (Enter l) = Some (snd l)" "phase_of (Inside l) = Some (snd l)" "phase_of (Asleep c l) = Some (snd l)"
  "phase_of Done = None"
  by (simp_all add: phase_of_def)

lemma mark_ok_got_lock: "mark_ok r m st p \<Longrightarrow> 0 < m \<Longrightarrow> got_lock p"
  by (auto simp: mark_ok_def got_lock_def phase_of_def split: option.splits if_splits)

text \<open>What one step does to the phase of a thread.\<close>

lemma single_step_phases:
  assumes step: "thread_step (rw_code True) s a t p p'" and ok: "mark_ok r m st p"
  shows "phase_of p' = Some Want \<longrightarrow> phase_of p = Some Want" "p = Done \<longrightarrow> p' = Done"
    "got_lock p' \<longrightarrow> got_lock p \<or> fst r = Wr \<or> \<not> writer_active s \<and> writers_waiting s \<le> 0"
proof -
  have "(phase_of p' = Some Want \<longrightarrow> phase_of p = Some Want) \<and> (p = Done \<longrightarrow> p' = Done) \<and>
    (got_lock p' \<longrightarrow> got_lock p \<or> fst r = Wr \<or> \<not> writer_active s \<and> writers_waiting s \<le> 0)"
    using step
  proof cases
    case kept
    then show ?thesis by (auto simp: phase_of_def got_lock_def label_woken)
  next
    case (locked l)
    then show ?thesis by (auto simp: got_lock_def)
  next
    case (ran l s' es q ws)
    obtain ph where l: "l = ([fst r], ph)" using ok ran(2) by (cases l) (auto simp: mark_ok_def)
    have "fst r = Wr \<or> \<not> writer_active s \<and> writers_waiting s \<le> 0" if "ph \<noteq> Holding" "q = Unlock ([fst r], Holding)"
      using ran(4) that unfolding l by (cases "fst r"; cases ph) (auto simp: wp_ReaderLock_def split: if_splits)
    then show ?thesis
      using single_access_leave [OF ran(4) [unfolded l]] ran(2,3) l by (auto simp: got_lock_def split: if_splits)
  qed
  then show "phase_of p' = Some Want \<longrightarrow> phase_of p = Some Want" "p = Done \<longrightarrow> p' = Done"
    "got_lock p' \<longrightarrow> got_lock p \<or> fst r = Wr \<or> \<not> writer_active s \<and> writers_waiting s \<le> 0" by blast+
qed

text \<open>No writer is waiting or active and all have called: they are all done.\<close>

lemma idle_writers_gone:
  assumes inv: "test_inv True rs st" and c: "writers_called rs st"
    and idle: "\<not> writer_active (shared (lock_system st))" "writers_waiting (shared (lock_system st)) \<le> 0"
  shows "writers_gone rs st"
proof -
  let ?ps = "threads (lock_system st)"
  have n: "holders Wr ?ps = 0" "waiting ?ps = 0" "length ?ps = length rs"
    using inv idle by (auto simp: test_inv_def rw_inv_def)
  have "?ps ! t = Done" if t: "t < length rs" "fst (rs ! t) = Wr" for t
  proof -
    have nh: "\<not> holds Wr (label_of (?ps ! t))" "\<not> waits (label_of (?ps ! t))"
      using n t(1) num_pos [of "\<lambda>p. holds Wr (label_of p)" ?ps] num_pos [of "\<lambda>p. waits (label_of p)" ?ps]
      by (auto simp: holders_def waiting_def)
    have m: "mark_ok (rs ! t) (marks st ! t) st (?ps ! t)" using inv t(1) by (simp add: test_inv_def)
    have w: "phase_of (?ps ! t) \<noteq> Some Want" using c t by (simp add: writers_called_iff)
    show ?thesis
    proof (cases "label_of (?ps ! t)")
      case None
      then show ?thesis by (cases "?ps ! t") auto
    next
      case (Some l)
      then obtain ph where "label_of (?ps ! t) = Some ([Wr], ph)" using m t(2) by (cases l) (auto simp: mark_ok_def)
      then show ?thesis using nh w by (cases ph) (auto simp: phase_of_def)
    qed
  qed
  then show ?thesis by (auto simp: writers_gone_iff)
qed

lemma late_inv_sync:
  assumes inv: "test_inv True rs st" and late: "late_inv k rs st" and k: "\<forall>t<length rs. k \<le> t \<longrightarrow> fst (rs ! t) = Rd"
    and y: "mon_step (rw_code True) b (lock_system st) = Some y"
  shows "late_inv k rs (st\<lparr>lock_system := y\<rparr>)"
proof -
  let ?ps = "threads (lock_system st)"
  have step: "thread_step (rw_code True) (shared (lock_system st)) b t (?ps ! t) (threads y ! t)"
    "mark_ok (rs ! t) (marks st ! t) st (?ps ! t)" if "t < length rs" for t
    using mon_step_nth(2) [OF y] that inv by (simp_all add: test_inv_def)
  have called: "writers_called rs (st\<lparr>lock_system := y\<rparr>)"
    using late single_step_phases(1) [OF step] by (auto simp: late_inv_def writers_called_iff)
  have stay: "writers_gone rs st \<Longrightarrow> writers_gone rs (st\<lparr>lock_system := y\<rparr>)"
    using single_step_phases(2) [OF step] by (auto simp: writers_gone_iff)
  have "writers_gone rs (st\<lparr>lock_system := y\<rparr>)" if t: "t < length rs" "k \<le> t" "got_lock (threads y ! t)" for t
  proof (cases "got_lock (?ps ! t)")
    case True
    then show ?thesis using late t stay by (auto simp: late_inv_def)
  next
    case False
    have "fst (rs ! t) = Rd" using k t(1,2) by blast
    then have "\<not> writer_active (shared (lock_system st)) \<and> writers_waiting (shared (lock_system st)) \<le> 0"
      using single_step_phases(3) [OF step, of t] t(1,3) False by simp
    then show ?thesis using idle_writers_gone [OF inv] late stay by (auto simp: late_inv_def)
  qed
  then show ?thesis using late called by (auto simp: late_inv_def)
qed

lemma late_inv_stamp:
  assumes inv: "test_inv True rs st" and d: "distinct rs" and late: "late_inv k rs st"
    and k: "\<forall>t<length rs. k \<le> t \<longrightarrow> fst (rs ! t) = Rd"
    and t: "t < length rs" "between (threads (lock_system st) ! t)" "marks st ! t < 2"
  shows "late_inv k rs (stamp (rs ! t) t st)"
proof -
  let ?st' = "stamp (rs ! t) t st"
  have same: "lock_system ?st' = lock_system st" "thread_index ?st' = thread_index st + 1" "length (marks st) = length rs"
    using inv by (simp_all add: Let_def test_inv_def)
  then have m: "marks ?st' ! u = (if u = t then Suc (marks st ! t) else marks st ! u)" if "u < length rs" for u
    using that by (simp add: Let_def nth_list_update)
  have ne: "u \<noteq> t \<Longrightarrow> rs ! u \<noteq> rs ! t" if "u < length rs" for u using d t(1) that by (simp add: nth_eq_iff_index_eq)
  have rel: "release_time ?st' Wr (snd (rs ! u)) = (if u = t \<and> marks st ! t \<noteq> 0 then thread_index st else release_time st Wr (snd (rs ! u)))"
    if "u < length rs" "fst (rs ! u) = Wr" for u
    using that ne [OF that(1)] by (cases "u = t") (auto simp: Let_def set_time_def prod_eq_iff)
  have gone: "writers_gone rs st \<Longrightarrow> marks st ! u = 2 \<and> u \<noteq> t" if u: "u < length rs" "fst (rs ! u) = Wr" for u
  proof -
    assume "writers_gone rs st"
    then have "threads (lock_system st) ! u = Done" using u by (auto simp: writers_gone_iff)
    moreover have "mark_ok (rs ! u) (marks st ! u) st (threads (lock_system st) ! u)" using inv u(1) by (simp add: test_inv_def)
    ultimately show ?thesis using t(2) by (auto simp: mark_ok_def)
  qed
  have "release_time ?st' Wr (snd (rs ! u)) < acquire_time ?st' Rd (snd (rs ! v))"
    if v: "v < length rs" "k \<le> v" "0 < marks ?st' ! v" and u: "u < length rs" "fst (rs ! u) = Wr" for u v
  proof -
    have "mark_ok (rs ! v) (marks st ! v) st (threads (lock_system st) ! v)" using inv v(1) by (simp add: test_inv_def)
    then have "got_lock (threads (lock_system st) ! v)"
      using v(3) m [OF v(1)] t(2) mark_ok_got_lock by (cases "v = t") (auto simp: between_label got_lock_def)
    then have g: "marks st ! u = 2" "u \<noteq> t" using late v(1,2) gone [OF u] by (auto simp: late_inv_def)
    then have r: "release_time ?st' Wr (snd (rs ! u)) = release_time st Wr (snd (rs ! u))" using rel [OF u] by simp
    show ?thesis
    proof (cases "v = t \<and> marks st ! t = 0")
      case True
      then have "acquire_time ?st' Rd (snd (rs ! v)) = thread_index st" using k v(1,2) by (auto simp: Let_def set_time_def)
      moreover have "mark_ok (rs ! u) (marks st ! u) st (threads (lock_system st) ! u)" using inv u(1) by (simp add: test_inv_def)
      ultimately show ?thesis using r u(2) g(1) by (simp add: mark_ok_def)
    next
      case False
      then have "acquire_time ?st' Rd (snd (rs ! v)) = acquire_time st Rd (snd (rs ! v))"
        using k v(1,2) ne [OF v(1)] by (auto simp: Let_def set_time_def prod_eq_iff)
      moreover have "0 < marks st ! v" using False v(3) m [OF v(1)] by (auto split: if_splits)
      ultimately show ?thesis using r late u v(1,2) by (auto simp: late_inv_def)
    qed
  qed
  moreover have "writers_called rs ?st' = writers_called rs st" "writers_gone rs ?st' = writers_gone rs st"
    unfolding writers_called_def writers_gone_def same(1) by (rule refl)+
  ultimately show ?thesis using late unfolding late_inv_def same(1) by (simp del: stamp.simps)
qed

interpretation late_readers: step_invariant "test_step True rs"
  "\<lambda>st. test_inv True rs st \<and> distinct rs \<and> (\<forall>t<length rs. k \<le> t \<longrightarrow> fst (rs ! t) = Rd) \<and> late_inv k rs st" for rs k
proof
  fix st a st'
  assume i: "test_inv True rs st \<and> distinct rs \<and> (\<forall>t<length rs. k \<le> t \<longrightarrow> fst (rs ! t) = Rd) \<and> late_inv k rs st"
    and s: "test_step True rs a st = Some st'"
  have "late_inv k rs st'"
  proof (cases a)
    case (Sync b)
    then show ?thesis using i s late_inv_sync by (auto split: if_splits)
  next
    case (Stamp t)
    then show ?thesis using i s late_inv_stamp by (auto simp del: stamp.simps split: if_splits)
  qed
  then show "test_inv True rs st' \<and> distinct rs \<and> (\<forall>t<length rs. k \<le> t \<longrightarrow> fst (rs ! t) = Rd) \<and> late_inv k rs st'"
    using i s test_step_inv by blast
qed

lemma late_start:
  assumes inv: "test_inv True rs st" and c: "writers_called rs st" and l: "late_not_started k st"
  shows "late_inv k rs st"
proof -
  have "threads (lock_system st) ! t = Enter ([Rd], Want)" if "t < length rs" "k \<le> t" for t
  proof -
    have "t - k < length (drop k (threads (lock_system st)))" using that inv by (simp add: test_inv_def diff_less_mono)
    then have "drop k (threads (lock_system st)) ! (t - k) = Enter ([Rd], Want)"
      using l unfolding late_not_started_def list_all_length by blast
    then show ?thesis using that inv by (simp add: test_inv_def)
  qed
  moreover from this have "marks st ! t = 0" if "t < length rs" "k \<le> t" for t
    using that inv by (force simp: test_inv_def mark_ok_def)
  ultimately show ?thesis using c by (simp add: late_inv_def got_lock_def)
qed

section \<open>Properties\<close>

text \<open>
  Whatever the schedule, the array contents at the start and the policy of the lock, when all
  threads of either test have returned, every writer has noted its two times one after the other:
  neither test ever reports that a writer was disturbed.
\<close>

theorem rw_tests_writers_undisturbed:
  assumes "test_roles R W env = Inr rs" and "exec (test_step wp rs) (test_init rs A B) sched = Some st"
    and "\<forall>p\<in>set (threads (lock_system st)). p = Done"
  shows "(\<forall>i<W. release_time st Wr i = acquire_time st Wr i + 1) \<and>
     reader_pref_verdict R W st \<noteq> WriterDisturbed \<and> writer_pref_verdict R W st \<noteq> WriterDisturbed"
proof -
  have "test_inv wp rs st"
    using rw_test.exec_inv [OF _ assms(2)] test_init_inv test_roles_distinct [OF assms(1)] by blast
  from all_done_times [OF this assms(1,3)] have "\<forall>i<W. release_time st Wr i = acquire_time st Wr i + 1" .
  with verdict_not_disturbed [OF not_disturbed [OF this]] show ?thesis by blast
qed

text \<open>
  In the writer-preference test, when all writers have called \<open>WriterLock\<close> before the readers of
  the second half start, which is what the pause in \<open>main\<close> is for, each of these readers gets the
  lock only after all writers have given it back, and the test does not complain about readers and
  writers: it passes, unless it finds that these readers waited for each other.
\<close>

theorem writer_pref_test_late_readers:
  assumes "test_roles R W env = Inr rs" and "exec (test_step True rs) (test_init rs A B) before = Some mid"
    and "writers_called rs mid" and "late_not_started (R + W) mid"
    and "exec (test_step True rs) mid after = Some st" and "\<forall>p\<in>set (threads (lock_system st)). p = Done"
  shows "(\<forall>i<W. \<forall>j<R. release_time st Wr i < acquire_time st Rd (R + j)) \<and>
     writer_pref_verdict R W st \<in> {Passed, ReaderWaited}"
proof -
  note rs = test_roles_nth [OF assms(1)] and d = test_roles_distinct [OF assms(1)]
  have mid: "test_inv True rs mid"
    using rw_test.exec_inv [OF _ assms(2)] test_init_inv d by blast
  have "late_inv (R + W) rs mid" using late_start [OF mid assms(3,4)] .
  then have inv: "test_inv True rs st" "late_inv (R + W) rs st"
    using late_readers.exec_inv [OF _ assms(5), of "R + W"] mid d rs(4) by blast+
  have "release_time st Wr i < acquire_time st Rd (R + j)" if "i < W" "j < R" for i j
  proof -
    have t: "R + W + j < length rs" "R + i < length rs" using that rs(1) by simp_all
    have "threads (lock_system st) ! (R + W + j) = Done" using assms(6) inv(1) t(1) by (metis nth_mem test_inv_def)
    then have "0 < marks st ! (R + W + j)" using inv(1) t(1) by (force simp: test_inv_def mark_ok_def)
    moreover have "fst (rs ! (R + i)) = Wr" "snd (rs ! (R + i)) = i" "snd (rs ! (R + W + j)) = R + j" using rs that by simp_all
    ultimately show ?thesis using inv(2) t unfolding late_inv_def by (metis le_add1)
  qed
  then have *: "\<forall>i<W. \<forall>j<R. release_time st Wr i < acquire_time st Rd (R + j)" by blast
  have "\<not> (R > 0 \<and> W > 0 \<and>
    Min (set (map (acquire_time st Rd) [R..<2 * R])) < Max (set (map (release_time st Wr) [0..<W])))"
  proof
    assume a: "R > 0 \<and> W > 0 \<and>
      Min (set (map (acquire_time st Rd) [R..<2 * R])) < Max (set (map (release_time st Wr) [0..<W]))"
    then have "Min (set (map (acquire_time st Rd) [R..<2 * R])) \<in> set (map (acquire_time st Rd) [R..<2 * R])"
      "Max (set (map (release_time st Wr) [0..<W])) \<in> set (map (release_time st Wr) [0..<W])"
      by (intro Min_in Max_in; simp)+
    then obtain j i where "R \<le> j" "j < 2 * R" "i < W"
      "Min (set (map (acquire_time st Rd) [R..<2 * R])) = acquire_time st Rd j"
      "Max (set (map (release_time st Wr) [0..<W])) = release_time st Wr i" by auto
    moreover from this have "R + (j - R) = j" "j - R < R" by simp_all
    with * \<open>i < W\<close> have "release_time st Wr i < acquire_time st Rd j" by metis
    ultimately show False using a by simp
  qed
  then have "writer_pref_verdict R W st \<noteq> WriterBeforeReader"
    unfolding writer_pref_verdict_def Let_def by (auto simp only: verdict.distinct split: if_splits)
  moreover have "writer_pref_verdict R W st \<noteq> WriterDisturbed"
    by (rule verdict_not_disturbed [OF not_disturbed [OF all_done_times [OF inv(1) assms(1,6)]]])
  ultimately show ?thesis using * by (cases "writer_pref_verdict R W st") auto
qed

text \<open>
  The reader-preference test is not a test of the lock alone: with two readers and no writer, where
  nobody can wait, one schedule makes it pass and another makes it report that a reader waited.
\<close>

theorem reader_pref_test_false_alarm:
  "\<exists>good bad st st'. test_roles 1 0 [(True, 0), (True, 0)] = Inr [(Rd, 0), (Rd, 1)] \<and>
     exec (test_step False [(Rd, 0), (Rd, 1)]) (test_init [(Rd, 0), (Rd, 1)] A B) good = Some st \<and>
     reader_pref_verdict 1 0 st = Passed \<and> threads (lock_system st) = [Done, Done] \<and>
     exec (test_step False [(Rd, 0), (Rd, 1)]) (test_init [(Rd, 0), (Rd, 1)] A B) bad = Some st' \<and>
     reader_pref_verdict 1 0 st' = ReaderWaited \<and> threads (lock_system st') = [Done, Done]"
proof -
  let ?rs = "[(Rd, 0), (Rd, 1)]"
  let ?run = "\<lambda>sched. exec (test_step False ?rs) (test_init ?rs A B) sched"
  let ?lock = "\<lambda>t. [Sync (Lock t), Sync (Segment t [])]"
  let ?sched = "?lock 0 @ ?lock 1 @ [Stamp 0, Stamp 1, Stamp 0, Stamp 1] @ ?lock 0 @ ?lock 1"
  let ?sched' = "?lock 0 @ [Stamp 0, Stamp 0] @ ?lock 0 @ ?lock 1 @ [Stamp 1, Stamp 1] @ ?lock 1"
  let ?see = "map_option (\<lambda>st. (reader_pref_verdict 1 0 st, threads (lock_system st)))"
  have "?see (?run ?sched) = Some (Passed, [Done, Done])" "?see (?run ?sched') = Some (ReaderWaited, [Done, Done])"
    by code_simp+
  then obtain st st' where "?run ?sched = Some st" "reader_pref_verdict 1 0 st = Passed" "threads (lock_system st) = [Done, Done]"
    "?run ?sched' = Some st'" "reader_pref_verdict 1 0 st' = ReaderWaited" "threads (lock_system st') = [Done, Done]"
    unfolding map_option_eq_Some prod.inject by (elim exE conjE)
  moreover have "test_roles 1 0 [(True, 0), (True, 0)] = Inr ?rs" by code_simp
  ultimately show ?thesis by (intro exI conjI)
qed

text \<open>A reader holds the lock, a writer waits for it, and a late reader comes.\<close>

definition three_roles :: "role list" where "three_roles = [(Rd, 0), (Wr, 0), (Rd, 1)]"

definition writer_queues :: "test_action list" where
  "writer_queues = [Sync (Lock 0), Sync (Segment 0 []), Sync (Lock 1), Sync (Segment 1 [])]"

definition all_finish :: "test_action list" where
  "all_finish = [Stamp 0, Stamp 0, Sync (Lock 2), Sync (Segment 2 []), Sync (Lock 0), Sync (Segment 0 [1]),
     Sync (Lock 1), Sync (Segment 1 []), Stamp 1, Stamp 1, Sync (Lock 1), Sync (Segment 1 []),
     Sync (Lock 2), Sync (Segment 2 []), Stamp 2, Stamp 2, Sync (Lock 2), Sync (Segment 2 [])]"

lemma three_roles: "test_roles 1 1 (replicate 3 (True, 0)) = Inr three_roles"
  by code_simp

lemma three_run:
  obtains mid st where "exec (test_step True three_roles) (test_init three_roles A B) writer_queues = Some mid"
    "writers_called three_roles mid" "late_not_started 2 mid"
    "exec (test_step True three_roles) mid all_finish = Some st" "threads (lock_system st) = [Done, Done, Done]"
    "acquire_time st Wr 0 = 2" "release_time st Wr 0 = 3" "acquire_time st Rd 1 = 4"
proof -
  let ?mid = "exec (test_step True three_roles) (test_init three_roles A B) writer_queues"
  have "map_option (\<lambda>mid. (writers_called three_roles mid, late_not_started 2 mid,
      map_option (\<lambda>st. (threads (lock_system st), acquire_time st Wr 0, release_time st Wr 0, acquire_time st Rd 1))
        (exec (test_step True three_roles) mid all_finish))) ?mid = Some (True, True, Some ([Done, Done, Done], 2, 3, 4))"
    by code_simp
  then show thesis unfolding map_option_eq_Some prod.inject
  proof (elim exE conjE)
    fix mid z
    assume a: "?mid = Some mid" "writers_called three_roles mid = True" "late_not_started 2 mid = True"
      "exec (test_step True three_roles) mid all_finish = Some z"
      "threads (lock_system z) = [Done, Done, Done]" "acquire_time z Wr 0 = 2" "release_time z Wr 0 = 3" "acquire_time z Rd 1 = 4"
    then show thesis by (intro that [of mid z]) simp_all
  qed
qed

theorem rw_tests_writers_undisturbed_witness:
  "\<exists>st. exec (test_step True three_roles) (test_init three_roles (\<lambda>_ _. 0) (\<lambda>_ _. 0)) (writer_queues @ all_finish) = Some st \<and>
     release_time st Wr 0 = acquire_time st Wr 0 + 1 \<and> writer_pref_verdict 1 1 st \<noteq> WriterDisturbed"
proof -
  obtain mid st where r: "exec (test_step True three_roles) (test_init three_roles (\<lambda>_ _. 0) (\<lambda>_ _. 0)) writer_queues = Some mid"
    "exec (test_step True three_roles) mid all_finish = Some st" "threads (lock_system st) = [Done, Done, Done]"
    by (rule three_run)
  then have e: "exec (test_step True three_roles) (test_init three_roles (\<lambda>_ _. 0) (\<lambda>_ _. 0)) (writer_queues @ all_finish) = Some st"
    by (simp add: exec_append)
  have d: "\<forall>p\<in>set (threads (lock_system st)). p = Done" using r(3) by simp
  from rw_tests_writers_undisturbed [OF three_roles e d] e show ?thesis by auto
qed

theorem writer_pref_test_late_readers_witness:
  "\<exists>mid st. exec (test_step True three_roles) (test_init three_roles (\<lambda>_ _. 0) (\<lambda>_ _. 0)) writer_queues = Some mid \<and>
     exec (test_step True three_roles) mid all_finish = Some st \<and> release_time st Wr 0 < acquire_time st Rd 1 \<and>
     acquire_time st Rd 1 = 4"
proof -
  obtain mid st where r: "exec (test_step True three_roles) (test_init three_roles (\<lambda>_ _. 0) (\<lambda>_ _. 0)) writer_queues = Some mid"
    "writers_called three_roles mid" "late_not_started 2 mid"
    "exec (test_step True three_roles) mid all_finish = Some st" "threads (lock_system st) = [Done, Done, Done]"
    "acquire_time st Rd 1 = 4"
    by (rule three_run)
  have l: "late_not_started (1 + 1) mid" using r(3) by (simp add: numeral_2_eq_2)
  have d: "\<forall>p\<in>set (threads (lock_system st)). p = Done" using r(5) by simp
  from writer_pref_test_late_readers [OF three_roles r(1,2) l r(4) d] r show ?thesis by auto
qed

end
