(* ===== verification/RwTestMains.thy ===== *)
theory RwTestMains
  imports RwLockTests CString
begin

text \<open>
  The two test programs of \<open>rwlock\<close> from their arguments to what they print: thread creation with its error
  exits, the threads, the joins and the verdict. The parts are those of \<open>RwLockTests\<close>.
\<close>

section \<open>The programs\<close>

text \<open>
  \<open>Reader\<close> and \<open>Writer\<close> of either program, on the lock it is linked with. They end without a \<open>return\<close> statement,
  which is undefined behaviour in C++; the model takes their end for a normal return, as a compiler that emits
  one for them makes it.
\<close>

definition reader_pref_threads :: "role list \<Rightarrow> test_action \<Rightarrow> rw_test \<Rightarrow> rw_test option" where
  "reader_pref_threads rs = test_step False rs"

definition writer_pref_threads :: "role list \<Rightarrow> test_action \<Rightarrow> rw_test \<Rightarrow> rw_test option" where
  "writer_pref_threads rs = test_step True rs"

fun start_message :: "start_error \<Rightarrow> string" where
  "start_message NoMemory = ''Couldn't allocate memory for thread arg.''"
| "start_message (CreateFailed ret) = ''Error - pthread_create() return code: '' @ show_int ret"

fun reader_pref_message :: "verdict \<Rightarrow> string" where
  "reader_pref_message ReaderWaited = ''Reader should not wait to acquire lock''"
| "reader_pref_message WriterBeforeReader = ''All readers get lock before any writer''"
| "reader_pref_message WriterDisturbed = ''No reader/ writer is allowed when a writer holds lock''"
| "reader_pref_message Passed = ''PASSED''"

fun writer_pref_message :: "verdict \<Rightarrow> string" where
  "writer_pref_message ReaderWaited = ''Reader should not wait to acquire lock in second half''"
| "writer_pref_message WriterBeforeReader = ''Reader can not acquire lock when writer is holding a lock''"
| "writer_pref_message WriterDisturbed = ''No reader/ writer is allowed when a writer holds lock''"
| "writer_pref_message Passed = ''PASSED''"

definition joined :: "rw_test \<Rightarrow> bool" where
  "joined st \<longleftrightarrow> (\<forall>p\<in>set (threads (lock_system st)). p = Done)"

text \<open>
  The line printed and the exit status, or \<open>None\<close> for a schedule after which the joins still wait. \<open>A\<close> and \<open>B\<close> are the
  contents of the new arrays.
\<close>

definition reader_pref_main ::
    "nat \<Rightarrow> nat \<Rightarrow> (bool \<times> int) list \<Rightarrow> (access \<Rightarrow> nat \<Rightarrow> int) \<Rightarrow> (access \<Rightarrow> nat \<Rightarrow> int) \<Rightarrow> test_action list \<Rightarrow> (string \<times> int) option"
where
  "reader_pref_main R W env A B sched =
     (case test_roles R W env of
        Inl e \<Rightarrow> Some (start_message e, 1)
      | Inr rs \<Rightarrow>
          (case exec (reader_pref_threads rs) (test_init rs A B) sched of
             None \<Rightarrow> None
           | Some st \<Rightarrow> if joined st then Some (reader_pref_message (reader_pref_verdict R W st), 0) else None))"

definition writer_pref_main ::
    "nat \<Rightarrow> nat \<Rightarrow> (bool \<times> int) list \<Rightarrow> (access \<Rightarrow> nat \<Rightarrow> int) \<Rightarrow> (access \<Rightarrow> nat \<Rightarrow> int) \<Rightarrow> test_action list \<Rightarrow> (string \<times> int) option"
where
  "writer_pref_main R W env A B sched =
     (case test_roles R W env of
        Inl e \<Rightarrow> Some (start_message e, 1)
      | Inr rs \<Rightarrow>
          (case exec (writer_pref_threads rs) (test_init rs A B) sched of
             None \<Rightarrow> None
           | Some st \<Rightarrow> if joined st then Some (writer_pref_message (writer_pref_verdict R W st), 0) else None))"

section \<open>When threads can be created\<close>

definition answers_ok :: "nat \<Rightarrow> (bool \<times> int) list \<Rightarrow> bool" where
  "answers_ok k env \<longleftrightarrow> k \<le> length env \<and> (\<forall>x\<in>set (take k env). fst x \<and> snd x = 0)"

lemma create_threads_Inr: "answers_ok k env \<Longrightarrow> \<exists>rs. create_threads a i k env = Inr (rs, drop k env)"
  by (induction a i k env rule: create_threads.induct) (auto simp: answers_ok_def split: sum.splits)

lemma create_threads_Inl: "\<not> answers_ok k env \<Longrightarrow> \<exists>e. create_threads a i k env = Inl e"
  by (induction a i k env rule: create_threads.induct) (auto simp: answers_ok_def split: sum.splits)

lemma answers_ok_add: "answers_ok (j + k) env \<longleftrightarrow> answers_ok j env \<and> answers_ok k (drop j env)"
  by (auto simp: answers_ok_def take_add)

lemma test_roles_iff: "(\<exists>rs. test_roles R W env = Inr rs) \<longleftrightarrow> answers_ok (2 * R + W) env"
proof -
  have "(\<exists>rs. test_roles R W env = Inr rs) \<longleftrightarrow>
      answers_ok R env \<and> answers_ok W (drop R env) \<and> answers_ok R (drop W (drop R env))"
  proof (cases "answers_ok R env \<and> answers_ok W (drop R env)")
    case True
    then obtain rs ws where "create_threads Rd 0 R env = Inr (rs, drop R env)"
      "create_threads Wr 0 W (drop R env) = Inr (ws, drop W (drop R env))" using create_threads_Inr by meson
    then show ?thesis using True create_threads_Inr [of R "drop W (drop R env)" Rd R] create_threads_Inl [of R "drop W (drop R env)" Rd R]
      by (cases "answers_ok R (drop W (drop R env))") (auto simp: test_roles_def)
  next
    case False
    then show ?thesis using create_threads_Inr [of R env Rd 0] create_threads_Inl [of R env Rd 0] create_threads_Inl [of W "drop R env" Wr 0]
      by (cases "answers_ok R env") (auto simp: test_roles_def)
  qed
  also have "\<dots> \<longleftrightarrow> answers_ok (R + (W + R)) env" by (simp only: answers_ok_add)
  also have "R + (W + R) = 2 * R + W" by simp
  finally show ?thesis .
qed

section \<open>Every run ends\<close>

definition calm_test :: "bool \<Rightarrow> role list \<Rightarrow> test_action \<Rightarrow> rw_test \<Rightarrow> rw_test option" where
  "calm_test wp rs a st = (case a of Sync (Spurious t) \<Rightarrow> None | _ \<Rightarrow> test_step wp rs a st)"

lemma calm_test_step: "calm_test wp rs a st = Some st' \<Longrightarrow> test_step wp rs a st = Some st'"
  unfolding calm_test_def by (simp only: split: test_action.splits action.splits if_splits) simp_all

definition unmarked :: "rw_test \<Rightarrow> nat" where
  "unmarked st = sum_list (map (\<lambda>m. 2 - m) (marks st))"

interpretation test_ends: bounded_runs "calm_test wp rs" "\<lambda>st. test_inv wp rs st \<and> distinct rs"
  "\<lambda>st. rw_ends.fuel (lock_system st) + unmarked st" for wp rs
proof
  fix st st' and a
  assume inv: "test_inv wp rs st \<and> distinct rs" and step: "calm_test wp rs a st = Some st'"
  have t: "test_step wp rs a st = Some st'" using step by (rule calm_test_step)
  show "test_inv wp rs st' \<and> distinct rs" using rw_test.step_inv [OF inv t] .
  show "rw_ends.fuel (lock_system st') + unmarked st' < rw_ends.fuel (lock_system st) + unmarked st"
  proof (cases a)
    case (Sync b)
    then obtain y where y: "mon_step (rw_code wp) b (lock_system st) = Some y" "st' = st\<lparr>lock_system := y\<rparr>"
      using t by (auto split: if_splits)
    moreover have "calm_step (rw_code wp) b (lock_system st) = Some y"
      using y(1) step Sync by (auto simp: calm_step_def calm_test_def split: action.splits)
    from rw_ends.ends.step_fuel [OF TrueI this] show ?thesis by (simp add: y(2) unmarked_def)
  next
    case (Stamp u)
    then have u: "u < length rs" "marks st ! u < 2" "st' = stamp (rs ! u) u st" using t by (auto split: if_splits)
    then have "u < length (marks st)" using inv by (simp add: test_inv_def)
    from sum_map_update [OF this, of "\<lambda>m. 2 - m" "Suc (marks st ! u)"] u(2)
    have "sum_list (map (\<lambda>m. 2 - m) ((marks st)[u := Suc (marks st ! u)])) < unmarked st"
      unfolding unmarked_def by linarith
    moreover have "lock_system st' = lock_system st" "marks st' = (marks st)[u := Suc (marks st ! u)]"
      unfolding u(3) by (simp_all add: Let_def)
    ultimately show ?thesis by (simp add: unmarked_def)
  qed
qed

lemma test_stuck_joined:
  assumes inv: "test_inv wp rs st" and s: "\<forall>a. calm_test wp rs a st = None"
  shows "joined st"
proof -
  let ?y = "lock_system st"
  have "mon_step (rw_code wp) (Segment t ws) ?y = None" for t ws
    using s [rule_format, of "Sync (Segment t ws)"] by (simp add: calm_test_def too_early_def)
  moreover have "mon_step (rw_code wp) (Lock t) ?y = None" for t
  proof (cases "too_early (Lock t) st")
    case True
    then have "t < length rs" "between (threads ?y ! t)" "marks st ! t < 2"
      using inv by (auto simp: too_early_def test_inv_def)
    then show ?thesis using s [rule_format, of "Stamp t"] by (simp add: calm_test_def)
  next
    case False
    then show ?thesis using s [rule_format, of "Sync (Lock t)"] by (simp add: calm_test_def)
  qed
  ultimately have "stuck (rw_code wp) ?y" unfolding stuck_def by blast
  then show ?thesis
    using stuck_iff [of ?y "rw_code wp"] rw_all_done [of wp "shared ?y" "threads ?y"] inv by (simp add: test_inv_def joined_def)
qed

text \<open>A spurious wakeup gives back two points, so it makes a run longer by three steps at most.\<close>

definition spurious_wakeups :: "test_action list \<Rightarrow> nat" where
  "spurious_wakeups sched = length (filter (\<lambda>a. case a of Sync b \<Rightarrow> is_spurious b | Stamp t \<Rightarrow> False) sched)"

lemma test_step_fuel:
  assumes inv: "test_inv wp rs st \<and> distinct rs" and step: "test_step wp rs a st = Some st'"
  shows "1 + (rw_ends.fuel (lock_system st') + unmarked st') \<le> rw_ends.fuel (lock_system st) + unmarked st + 3 * spurious_wakeups [a]"
proof (cases "\<exists>t. a = Sync (Spurious t)")
  case True
  then obtain t y where t: "a = Sync (Spurious t)" and y: "mon_step (rw_code wp) (Spurious t) (lock_system st) = Some y"
    "st' = st\<lparr>lock_system := y\<rparr>"
    using step by (auto simp del: mon_step.simps split: if_splits)
  then show ?thesis
    using rw_ends.any_step_fuel [OF y(1)] by (simp add: spurious_wakeups_def spurious_count_def unmarked_def)
next
  case False
  then have "calm_test wp rs a st = Some st'" using step unfolding calm_test_def by (cases a) (auto simp del: test_step.simps split: action.splits)
  from test_ends.step_fuel [OF inv this] show ?thesis by simp
qed

lemma test_run_fuel:
  assumes "test_inv wp rs st \<and> distinct rs" "exec (test_step wp rs) st sched = Some st'"
  shows "length sched + (rw_ends.fuel (lock_system st') + unmarked st') \<le>
     rw_ends.fuel (lock_system st) + unmarked st + 3 * spurious_wakeups sched"
  using assms
proof (induction sched arbitrary: st)
  case (Cons a sched)
  then obtain st1 where s1: "test_step wp rs a st = Some st1" "exec (test_step wp rs) st1 sched = Some st'"
    by (auto simp del: test_step.simps split: option.splits)
  have "spurious_wakeups (a # sched) = spurious_wakeups [a] + spurious_wakeups sched" by (simp add: spurious_wakeups_def)
  then show ?case
    using test_step_fuel [OF Cons.prems(1) s1(1)] Cons.IH [OF rw_test.step_inv [OF Cons.prems(1) s1(1)] s1(2)] by simp
qed (simp add: spurious_wakeups_def)

lemma joined_stuck:
  assumes "test_inv wp rs st" "joined st"
  shows "calm_test wp rs a st = None"
proof -
  have d: "threads (lock_system st) ! t = Done" if "t < length (threads (lock_system st))" for t
    using assms(2) that by (simp add: joined_def)
  have n: "length (threads (lock_system st)) = length rs" using assms(1) by (simp add: test_inv_def)
  show ?thesis
  proof (cases a)
    case (Sync b)
    then show ?thesis using d by (cases b) (auto simp: calm_test_def)
  next
    case (Stamp t)
    then show ?thesis using d n by (auto simp: calm_test_def)
  qed
qed

section \<open>Properties\<close>

text \<open>
  C36: Each test program that ends has either failed to create a thread, which its exit status 1 tells, or has let all
  threads return and prints one of three lines with status 0: whatever the schedule, it never says that somebody got in
  while a writer held the lock.
\<close>

theorem rw_test_reports:
  "(\<forall>l c. reader_pref_main R W env A B sched = Some (l, c) \<longrightarrow>
      (if answers_ok (2 * R + W) env
       then c = 0 \<and> l \<in> {''PASSED'', ''Reader should not wait to acquire lock'', ''All readers get lock before any writer''}
       else c = 1)) \<and>
   (\<forall>l c. writer_pref_main R W env A B sched = Some (l, c) \<longrightarrow>
      (if answers_ok (2 * R + W) env
       then c = 0 \<and> l \<in> {''PASSED'', ''Reader should not wait to acquire lock in second half'',
         ''Reader can not acquire lock when writer is holding a lock''}
       else c = 1))"
proof (cases "answers_ok (2 * R + W) env")
  case True
  then obtain rs where rs: "test_roles R W env = Inr rs" using test_roles_iff by blast
  have r: "reader_pref_verdict R W st \<noteq> WriterDisturbed" if "exec (reader_pref_threads rs) (test_init rs A B) sched = Some st" "joined st" for st
    using rw_tests_writers_undisturbed [OF rs, of False A B sched st] that by (simp add: reader_pref_threads_def joined_def)
  have w: "writer_pref_verdict R W st \<noteq> WriterDisturbed" if "exec (writer_pref_threads rs) (test_init rs A B) sched = Some st" "joined st" for st
    using rw_tests_writers_undisturbed [OF rs, of True A B sched st] that by (simp add: writer_pref_threads_def joined_def)
  have m: "v \<noteq> WriterDisturbed \<Longrightarrow> reader_pref_message v \<in> {''PASSED'', ''Reader should not wait to acquire lock'', ''All readers get lock before any writer''}"
    "v \<noteq> WriterDisturbed \<Longrightarrow> writer_pref_message v \<in> {''PASSED'', ''Reader should not wait to acquire lock in second half'',
         ''Reader can not acquire lock when writer is holding a lock''}" for v
    by (cases v; simp)+
  show ?thesis
    using True rs m r w unfolding reader_pref_main_def writer_pref_main_def by (auto split: option.splits if_splits)
next
  case False
  then obtain e where "test_roles R W env = Inl e" using test_roles_iff by (metis sum.exhaust)
  then show ?thesis using False by (simp add: reader_pref_main_def writer_pref_main_def)
qed

theorem rw_test_reports_witness:
  "\<exists>l. writer_pref_main 1 1 (replicate 3 (True, 0)) (\<lambda>_ _. 0) (\<lambda>_ _. 0) (writer_queues @ all_finish) = Some (l, 0) \<and>
     l \<noteq> ''No reader/ writer is allowed when a writer holds lock''"
proof -
  have "map_option snd (writer_pref_main 1 1 (replicate 3 (True, 0)) (\<lambda>_ _. 0) (\<lambda>_ _. 0) (writer_queues @ all_finish)) = Some 0"
    by code_simp
  then obtain l where l: "writer_pref_main 1 1 (replicate 3 (True, 0)) (\<lambda>_ _. 0) (\<lambda>_ _. 0) (writer_queues @ all_finish) = Some (l, 0)"
    by auto
  have "answers_ok (2 * 1 + 1) (replicate 3 (True, 0))" by (simp add: answers_ok_def)
  with rw_test_reports [of 1 1 "replicate 3 (True, 0)" "\<lambda>_ _. 0" "\<lambda>_ _. 0" "writer_queues @ all_finish"] l show ?thesis by auto
qed

text \<open>
  C37: Both tests end, under every schedule: a run of the threads has at most a quadratic number of steps and three more
  for each spurious wakeup, and when nothing but a spurious wakeup can happen any more all threads have returned,
  so that \<open>main\<close> prints its verdict and ends with status 0.
\<close>

theorem rw_tests_end:
  assumes "test_roles R W env = Inr rs" and "exec (test_step wp rs) (test_init rs A B) sched = Some st"
  shows "length sched \<le> 4 * (2 * R + W) * (2 * R + W + 2) + 3 * spurious_wakeups sched \<and>
     ((\<forall>a. calm_test wp rs a st = None) \<longrightarrow>
        (\<exists>l. (if wp then writer_pref_main else reader_pref_main) R W env A B sched = Some (l, 0)))"
proof -
  let ?n = "2 * R + W"
  have n: "length rs = ?n" using test_roles_nth(1) [OF assms(1)] .
  have i: "test_inv wp rs (test_init rs A B) \<and> distinct rs" using test_init_inv test_roles_distinct [OF assms(1)] by blast
  have "map (\<lambda>t. rw_weight (map (\<lambda>r. [fst r]) rs ! t, Want)) [0..<?n] = map (\<lambda>t. 2) [0..<?n]" using n by simp
  then have "(\<Sum>t\<leftarrow>[0..<?n]. rw_weight (map (\<lambda>r. [fst r]) rs ! t, Want)) = ?n * 2"
    by (simp only: map_replicate_const sum_list_replicate length_upt) simp
  then have "rw_ends.fuel (rw_system (map (\<lambda>r. [fst r]) rs)) = (2 * ?n + 2) * (?n * 2) + 2 * ?n"
    using rw_ends.init_fuel [of "\<lambda>t. (map (\<lambda>r. [fst r]) rs ! t, Want)" ?n InitalizeReadWriteLock] n by (simp add: rw_system_def)
  moreover have "unmarked (test_init rs A B) = 2 * ?n" using n by (simp add: unmarked_def test_init_def sum_list_replicate)
  ultimately have "length sched \<le> (2 * ?n + 2) * (?n * 2) + 2 * ?n + 2 * ?n + 3 * spurious_wakeups sched"
    using test_run_fuel [OF i assms(2)] by (simp add: test_init_def)
  also have "\<dots> = 4 * ?n * (?n + 2) + 3 * spurious_wakeups sched" by (simp add: algebra_simps)
  finally have len: "length sched \<le> 4 * ?n * (?n + 2) + 3 * spurious_wakeups sched" .
  have "test_inv wp rs st" using rw_test.exec_inv [OF i assms(2)] by simp
  then have "joined st" if "\<forall>a. calm_test wp rs a st = None" using test_stuck_joined that by blast
  then show ?thesis
    using len assms by (cases wp) (auto simp: writer_pref_main_def reader_pref_main_def writer_pref_threads_def reader_pref_threads_def)
qed

text \<open>One reader, one writer and one reader; the reader that has to wait is woken spuriously once.\<close>

definition disturbed_run :: "test_action list" where
  "disturbed_run = map Sync [Lock 1, Segment 1 [], Lock 0, Segment 0 [], Spurious 0, Lock 0, Segment 0 []] @
     [Stamp 1, Stamp 1] @ map Sync [Lock 1, Segment 1 [], Lock 0, Segment 0 []] @ [Stamp 0, Stamp 0] @
     map Sync [Lock 0, Segment 0 [], Lock 2, Segment 2 []] @ [Stamp 2, Stamp 2] @ map Sync [Lock 2, Segment 2 []]"

theorem rw_tests_end_witness:
  "length disturbed_run \<le> 4 * (2 * 1 + 1) * (2 * 1 + 1 + 2) + 3 * spurious_wakeups disturbed_run \<and>
     spurious_wakeups disturbed_run = 1 \<and>
     (\<exists>l. writer_pref_main 1 1 (replicate 3 (True, 0)) (\<lambda>_ _. 0) (\<lambda>_ _. 0) disturbed_run = Some (l, 0))"
proof -
  let ?rs = "[(Rd, 0 :: nat), (Wr, 0), (Rd, 1)]" and ?init = "test_init [(Rd, 0), (Wr, 0), (Rd, 1)] (\<lambda>_ _. 0) (\<lambda>_ _. 0)"
  have r: "test_roles 1 1 (replicate 3 (True, 0)) = Inr ?rs" by code_simp
  have "map_option (\<lambda>st. threads (lock_system st)) (exec (test_step True ?rs) ?init disturbed_run) = Some [Done, Done, Done]"
    by code_simp
  then obtain st where st: "exec (test_step True ?rs) ?init disturbed_run = Some st" "threads (lock_system st) = [Done, Done, Done]"
    unfolding map_option_eq_Some by blast
  have "test_inv True ?rs ?init \<and> distinct ?rs" using test_init_inv [of True ?rs] by simp
  from rw_test.exec_inv [OF this st(1)] have "test_inv True ?rs st" by simp
  then have "\<forall>a. calm_test True ?rs a st = None" using joined_stuck st(2) by (simp add: joined_def)
  moreover have "spurious_wakeups disturbed_run = 1" by code_simp
  ultimately show ?thesis using rw_tests_end [OF r st(1)] by simp
qed

end
