(* ===== verification/ShmChannel.thy ===== *)
theory ShmChannel
  imports CString "HOL-Library.Sublist"
begin

text \<open>
  \<open>ipc-code/shm-posix-producer.c\<close> and \<open>shm-posix-consumer.c\<close>: two processes that share 4096 bytes of
  memory, divided into slots of 16 bytes, and a FIFO. The producer looks for a slot that holds the
  mark \<open>freeeee\<close>, prints a message into it and sends its number through the FIFO; the consumer
  receives the number, shows the message and puts the mark back. There is no lock; a step of a
  process is one access to one slot or to the FIFO. (\<open>ShmBytes\<close> divides the accesses to a slot into their bytes and
  shows that every run of that kind is a run of this one.)
\<close>

section \<open>The shared memory\<close>

definition SIZE :: nat where "SIZE = 4096"
definition MESSAGE_SIZE :: nat where "MESSAGE_SIZE = 16"
definition TOTAL_SLOTS :: nat where "TOTAL_SLOTS = SIZE div MESSAGE_SIZE"
definition FREE :: string where "FREE = ''freeeee''"
definition MESSAGE :: string where "MESSAGE = ''OSisFUN''"

text \<open>A string with its NUL is printed to an address of the memory.\<close>

definition write_str :: "string \<Rightarrow> nat \<Rightarrow> string \<Rightarrow> string" where
  "write_str m off s = take off m @ s @ NUL # drop (off + length s + 1) m"

text \<open>The loop that marks all slots.\<close>

fun mark_free :: "nat \<Rightarrow> string \<Rightarrow> string" where
  "mark_free 0 m = m"
| "mark_free (Suc i) m = write_str (mark_free i m) (i * MESSAGE_SIZE) FREE"

lemma length_write_str [simp]: "off + length s < length m \<Longrightarrow> length (write_str m off s) = length m"
  by (simp add: write_str_def)

lemma nth_write_str:
  "off + length s < length m \<Longrightarrow> k < length m \<Longrightarrow>
     write_str m off s ! k = (if k < off then m ! k else if k < off + length s then s ! (k - off)
       else if k = off + length s then NUL else m ! k)"
  by (auto simp: write_str_def nth_append nth_Cons' min_def)

text \<open>The bytes of a slot; a slot is terminated when there is a NUL among them.\<close>

definition block :: "string \<Rightarrow> nat \<Rightarrow> string" where
  "block m j = take MESSAGE_SIZE (drop (j * MESSAGE_SIZE) m)"

definition slot :: "string \<Rightarrow> nat \<Rightarrow> string" where
  "slot m j = cstr m (j * MESSAGE_SIZE)"

definition terminated :: "string \<Rightarrow> nat \<Rightarrow> bool" where
  "terminated m j \<longleftrightarrow> NUL \<in> set (block m j)"

lemma slot_block:
  assumes "terminated m j"
  shows "slot m j = takeWhile (\<lambda>c. c \<noteq> NUL) (block m j)"
proof -
  have "takeWhile (\<lambda>c. c \<noteq> NUL) (block m j @ drop MESSAGE_SIZE (drop (j * MESSAGE_SIZE) m)) =
      takeWhile (\<lambda>c. c \<noteq> NUL) (block m j)"
    using assms unfolding terminated_def by (rule takeWhile_append1) simp
  then show ?thesis by (simp only: slot_def cstr_def block_def append_take_drop_id)
qed

lemma in_memory: "length m = SIZE \<Longrightarrow> j < TOTAL_SLOTS \<Longrightarrow> k < MESSAGE_SIZE \<Longrightarrow> j * MESSAGE_SIZE + k < length m"
  by (simp add: SIZE_def MESSAGE_SIZE_def TOTAL_SLOTS_def)

lemma nth_block: "length m = SIZE \<Longrightarrow> j < TOTAL_SLOTS \<Longrightarrow> k < MESSAGE_SIZE \<Longrightarrow> block m j ! k = m ! (j * MESSAGE_SIZE + k)"
  unfolding block_def by (simp add: SIZE_def MESSAGE_SIZE_def TOTAL_SLOTS_def)

lemma length_block: "length m = SIZE \<Longrightarrow> j < TOTAL_SLOTS \<Longrightarrow> length (block m j) = MESSAGE_SIZE"
  by (simp add: block_def SIZE_def MESSAGE_SIZE_def TOTAL_SLOTS_def)

lemma other_block:
  assumes m: "length m = SIZE" "i < TOTAL_SLOTS" "j < TOTAL_SLOTS" "i \<noteq> j" and s: "length s < MESSAGE_SIZE"
  shows "block (write_str m (i * MESSAGE_SIZE) s) j = block m j"
proof -
  have l: "length (write_str m (i * MESSAGE_SIZE) s) = SIZE" using in_memory [OF m(1,2) s] m(1) by simp
  have "write_str m (i * MESSAGE_SIZE) s ! (j * MESSAGE_SIZE + k) = m ! (j * MESSAGE_SIZE + k)" if k: "k < MESSAGE_SIZE" for k
  proof (cases "i < j")
    case True
    then have "Suc i * MESSAGE_SIZE \<le> j * MESSAGE_SIZE" by (intro mult_le_mono1) simp
    then show ?thesis using nth_write_str [OF in_memory [OF m(1,2) s] in_memory [OF m(1,3) k]] s by simp
  next
    case False
    then have "Suc j * MESSAGE_SIZE \<le> i * MESSAGE_SIZE" using m(4) by (intro mult_le_mono1) simp
    then show ?thesis using nth_write_str [OF in_memory [OF m(1,2) s] in_memory [OF m(1,3) k]] k by simp
  qed
  then show ?thesis
    by (intro nth_equalityI) (simp_all add: length_block l m nth_block)
qed

lemma same_block:
  assumes m: "length m = SIZE" "i < TOTAL_SLOTS" and s: "length s < MESSAGE_SIZE"
  shows "\<exists>rest. block (write_str m (i * MESSAGE_SIZE) s) i = s @ NUL # rest"
proof -
  have "length (take (i * MESSAGE_SIZE) m) = i * MESSAGE_SIZE" using in_memory [OF m s] by simp
  then have "block (write_str m (i * MESSAGE_SIZE) s) i =
      take MESSAGE_SIZE (s @ NUL # drop (i * MESSAGE_SIZE + length s + 1) m)"
    by (simp add: block_def write_str_def)
  also have "\<dots> = s @ NUL # take (MESSAGE_SIZE - Suc (length s)) (drop (i * MESSAGE_SIZE + length s + 1) m)"
    using s by (simp add: take_Cons' less_imp_diff_less Suc_diff_Suc)
  finally show ?thesis by blast
qed

text \<open>What a write to one slot does to all slots.\<close>

lemma slot_write:
  assumes m: "length m = SIZE" "i < TOTAL_SLOTS" "j < TOTAL_SLOTS" "terminated m j" and s: "length s < MESSAGE_SIZE" "NUL \<notin> set s"
  shows "terminated (write_str m (i * MESSAGE_SIZE) s) j"
    "slot (write_str m (i * MESSAGE_SIZE) s) j = (if j = i then s else slot m j)"
proof -
  have "terminated (write_str m (i * MESSAGE_SIZE) s) j \<and>
    slot (write_str m (i * MESSAGE_SIZE) s) j = (if j = i then s else slot m j)"
  proof (cases "j = i")
    case True
    obtain rest where b: "block (write_str m (i * MESSAGE_SIZE) s) i = s @ NUL # rest" using same_block [OF m(1,2) s(1)] by blast
    then have "terminated (write_str m (i * MESSAGE_SIZE) s) i" by (simp add: terminated_def)
    moreover have "takeWhile (\<lambda>c. c \<noteq> NUL) (s @ NUL # rest) = s" using s(2) by (auto simp: takeWhile_append)
    ultimately show ?thesis using True b slot_block by simp
  next
    case False
    then have "block (write_str m (i * MESSAGE_SIZE) s) j = block m j" using other_block [OF m(1-3)] s(1) by simp
    then show ?thesis using False m(4) by (simp add: terminated_def slot_block)
  qed
  then show "terminated (write_str m (i * MESSAGE_SIZE) s) j"
    "slot (write_str m (i * MESSAGE_SIZE) s) j = (if j = i then s else slot m j)" by blast+
qed

section \<open>The two processes\<close>

text \<open>
  The producer: at the loop head, looking at slot \<open>i\<close> of its search, having found or written slot \<open>i\<close>,
  or at its end. The consumer: reading the FIFO, having received a number, having shown its message.
\<close>

datatype producer_pc = PLoop | PScan nat | PFound nat | PWritten nat | PExit
datatype consumer_pc = CRead | CGot nat | CShown nat

text \<open>
  \<open>sent\<close> and \<open>received\<close> record the messages announced and shown; \<open>corrupt\<close> an access outside the
  segment.
\<close>

record channel =
  shm :: string
  fifo :: "nat list"
  itr :: int
  ppc :: producer_pc
  cpc :: consumer_pc
  sent :: "string list"
  received :: "string list"
  corrupt :: bool

text \<open>\<open>snprintf(ptr, MESSAGE_SIZE, "%s %d", MESSAGE, itr)\<close>\<close>

definition message :: "int \<Rightarrow> string" where
  "message k = take (MESSAGE_SIZE - 1) (MESSAGE @ blank # show_int k)"

definition store_str :: "nat \<Rightarrow> string \<Rightarrow> channel \<Rightarrow> channel" where
  "store_str j s st =
     (if j * MESSAGE_SIZE + length s < length (shm st) then st\<lparr>shm := write_str (shm st) (j * MESSAGE_SIZE) s\<rparr>
      else st\<lparr>corrupt := True\<rparr>)"

definition load_str :: "nat \<Rightarrow> channel \<Rightarrow> string \<times> channel" where
  "load_str j st =
     (slot (shm st) j, if NUL \<in> set (drop (j * MESSAGE_SIZE) (shm st)) then st else st\<lparr>corrupt := True\<rparr>)"

definition producer_step :: "channel \<Rightarrow> channel option" where
  "producer_step st =
     (case ppc st of
        PLoop \<Rightarrow>
          (let v = itr st; st = st\<lparr>itr := itr st - 1\<rparr>
           in Some (st\<lparr>ppc := (if v \<noteq> 0 then PScan 0 else PExit)\<rparr>))
      | PScan i \<Rightarrow>
          if i < TOTAL_SLOTS then
            (let (s, st) = load_str i st in Some (st\<lparr>ppc := (if s = FREE then PFound i else PScan (Suc i))\<rparr>))
          else Some (st\<lparr>ppc := PLoop\<rparr>)
      | PFound i \<Rightarrow> Some ((store_str i (message (itr st)) st)\<lparr>ppc := PWritten i\<rparr>)
      | PWritten i \<Rightarrow>
          Some (st\<lparr>fifo := fifo st @ [i], sent := sent st @ [slot (shm st) i], ppc := PLoop\<rparr>)
      | PExit \<Rightarrow> None)"

text \<open>A read from the empty FIFO blocks.\<close>

definition consumer_step :: "channel \<Rightarrow> channel option" where
  "consumer_step st =
     (case cpc st of
        CRead \<Rightarrow> (case fifo st of [] \<Rightarrow> None | j # f \<Rightarrow> Some (st\<lparr>fifo := f, cpc := CGot j\<rparr>))
      | CGot j \<Rightarrow>
          (let (s, st) = load_str j st in Some (st\<lparr>received := received st @ [s], cpc := CShown j\<rparr>))
      | CShown j \<Rightarrow> Some ((store_str j FREE st)\<lparr>cpc := CRead\<rparr>))"

datatype process = Producer | Consumer

fun chan_step :: "process \<Rightarrow> channel \<Rightarrow> channel option" where
  "chan_step Producer st = producer_step st"
| "chan_step Consumer st = consumer_step st"

text \<open>After the marking loop of the producer; the consumer cannot do anything before.\<close>

definition chan_init :: "string \<Rightarrow> channel" where
  "chan_init m = \<lparr>shm = mark_free TOTAL_SLOTS m, fifo = [], itr = 1000, ppc = PLoop, cpc = CRead,
     sent = [], received = [], corrupt = False\<rparr>"

section \<open>The invariant\<close>

text \<open>The slot the consumer is busy with, and the message it still has to show.\<close>

fun in_hand :: "consumer_pc \<Rightarrow> nat list" where
  "in_hand CRead = []" | "in_hand (CGot j) = [j]" | "in_hand (CShown j) = [j]"

fun to_show :: "consumer_pc \<Rightarrow> nat list" where
  "to_show (CGot j) = [j]" | "to_show c = []"

fun claimed :: "producer_pc \<Rightarrow> nat list" where
  "claimed (PFound i) = [i]" | "claimed (PWritten i) = [i]" | "claimed p = []"

text \<open>
  A slot is free, or claimed by the producer, or announced in the FIFO, or in the consumer's hand,
  never two of these; what was sent is what was received and what is still under way, in order; the
  numbers sent fall.
\<close>

definition slots_ok :: "channel \<Rightarrow> bool" where
  "slots_ok st \<longleftrightarrow> length (shm st) = SIZE \<and> \<not> corrupt st \<and> (\<forall>j<TOTAL_SLOTS. terminated (shm st) j) \<and>
     distinct (claimed (ppc st) @ in_hand (cpc st) @ fifo st) \<and>
     (\<forall>j\<in>set (claimed (ppc st) @ in_hand (cpc st) @ fifo st). j < TOTAL_SLOTS) \<and>
     (\<forall>j<TOTAL_SLOTS. slot (shm st) j = FREE \<longleftrightarrow>
        j \<notin> set (in_hand (cpc st) @ fifo st) \<and> ppc st \<noteq> PWritten j)"

definition contents_ok :: "channel \<Rightarrow> bool" where
  "contents_ok st \<longleftrightarrow> (\<forall>j<TOTAL_SLOTS. slot (shm st) j = FREE \<or> slot (shm st) j \<in> range message)"

definition log_ok :: "channel \<Rightarrow> bool" where
  "log_ok st \<longleftrightarrow> sent st = received st @ map (slot (shm st)) (to_show (cpc st) @ fifo st)"

definition numbers_ok :: "channel \<Rightarrow> bool" where
  "numbers_ok st \<longleftrightarrow> (\<forall>i. ppc st = PWritten i \<longrightarrow> slot (shm st) i = message (itr st)) \<and>
     (\<forall>i. ppc st = PScan i \<longrightarrow> i \<le> TOTAL_SLOTS) \<and>
     (if ppc st = PExit then itr st = -1 else 0 \<le> itr st) \<and> itr st \<le> (if ppc st = PLoop then 1000 else 999) \<and>
     (\<exists>ks. sent st = map message ks \<and> sorted_wrt (>) ks \<and>
        (\<forall>k\<in>set ks. 0 \<le> k \<and> k < 1000 \<and> (if ppc st = PLoop then itr st \<le> k else itr st < k)))"

definition chan_inv :: "channel \<Rightarrow> bool" where
  "chan_inv st \<longleftrightarrow> slots_ok st \<and> log_ok st \<and> numbers_ok st"

lemma length_FREE: "length FREE < MESSAGE_SIZE" "NUL \<notin> set FREE"
  by (simp_all add: FREE_def MESSAGE_SIZE_def)

lemma message:
  "length (message k) < MESSAGE_SIZE" "NUL \<notin> set (message k)" "message k \<noteq> FREE"
proof -
  show "length (message k) < MESSAGE_SIZE" by (simp add: message_def MESSAGE_SIZE_def)
  have "NUL \<notin> set (MESSAGE @ blank # show_int k)" using show_int_no_NUL by (simp add: MESSAGE_def)
  then show "NUL \<notin> set (message k)" unfolding message_def by (meson in_set_takeD)
  show "message k \<noteq> FREE" by (simp add: message_def MESSAGE_def FREE_def MESSAGE_SIZE_def)
qed

lemma terminated_drop: "terminated m j \<Longrightarrow> NUL \<in> set (drop (j * MESSAGE_SIZE) m)"
  unfolding terminated_def block_def by (rule in_set_takeD)

lemma load_ok: "slots_ok st \<Longrightarrow> j < TOTAL_SLOTS \<Longrightarrow> load_str j st = (slot (shm st) j, st)"
  using terminated_drop by (simp add: load_str_def slots_ok_def)

lemma store_ok:
  assumes "slots_ok st" "j < TOTAL_SLOTS" "length s < MESSAGE_SIZE" "NUL \<notin> set s"
  obtains m where "store_str j s st = st\<lparr>shm := m\<rparr>" "length m = SIZE" "\<forall>i<TOTAL_SLOTS. terminated m i"
    "\<forall>i<TOTAL_SLOTS. slot m i = (if i = j then s else slot (shm st) i)"
proof -
  have l: "length (shm st) = SIZE" "\<forall>i<TOTAL_SLOTS. terminated (shm st) i" using assms(1) by (simp_all add: slots_ok_def)
  note in_memory [OF l(1) assms(2,3)]
  then show ?thesis
    using that [of "write_str (shm st) (j * MESSAGE_SIZE) s"] l slot_write [OF l(1) assms(2) _ _ assms(3,4)]
    by (simp add: store_str_def)
qed

lemma numbers_okD:
  assumes "numbers_ok st"
  obtains ks where "sent st = map message ks" "sorted_wrt (>) ks"
    "\<And>k. k \<in> set ks \<Longrightarrow> 0 \<le> k \<and> k < 1000 \<and> itr st \<le> k" "\<And>k. k \<in> set ks \<Longrightarrow> ppc st \<noteq> PLoop \<Longrightarrow> itr st < k"
  using assms unfolding numbers_ok_def by (metis less_imp_le)

lemma numbers_okI:
  assumes "\<And>i. ppc st = PWritten i \<Longrightarrow> slot (shm st) i = message (itr st)" "\<And>i. ppc st = PScan i \<Longrightarrow> i \<le> TOTAL_SLOTS"
    "if ppc st = PExit then itr st = -1 else 0 \<le> itr st" "itr st \<le> (if ppc st = PLoop then 1000 else 999)"
    "sent st = map message ks" "sorted_wrt (>) ks"
    "\<And>k. k \<in> set ks \<Longrightarrow> 0 \<le> k \<and> k < 1000 \<and> (if ppc st = PLoop then itr st \<le> k else itr st < k)"
  shows "numbers_ok st"
  unfolding numbers_ok_def using assms by blast

lemma producer_loop_inv:
  assumes inv: "chan_inv st" and step: "producer_step st = Some st'" and pc: "ppc st = PLoop"
  shows "chan_inv st'"
proof -
  have ok: "slots_ok st" "log_ok st" "numbers_ok st" using inv by (simp_all add: chan_inv_def)
  have st': "st' = st\<lparr>itr := itr st - 1, ppc := (if itr st \<noteq> 0 then PScan 0 else PExit)\<rparr>"
    using step pc by (simp add: producer_step_def Let_def)
  have "slots_ok st'" "log_ok st'" using ok(1,2) pc by (simp_all add: st' slots_ok_def log_ok_def)
  moreover from ok(3) obtain ks where ks: "sent st = map message ks" "sorted_wrt (>) ks"
    "\<And>k. k \<in> set ks \<Longrightarrow> 0 \<le> k \<and> k < 1000 \<and> itr st \<le> k" "\<And>k. k \<in> set ks \<Longrightarrow> ppc st \<noteq> PLoop \<Longrightarrow> itr st < k"
    by (rule numbers_okD) (rule that)
  have "0 \<le> itr st" "itr st \<le> 1000" using ok(3) pc by (simp_all add: numbers_ok_def)
  then have "numbers_ok st'"
    using ks(1-3) pc by (intro numbers_okI [of st' ks]) (auto simp: st' split: if_splits dest!: ks(3))
  ultimately show ?thesis by (simp add: chan_inv_def)
qed

lemma producer_scan_inv:
  assumes inv: "chan_inv st" and step: "producer_step st = Some st'" and pc: "ppc st = PScan i"
  shows "chan_inv st'"
proof -
  have ok: "slots_ok st" "log_ok st" "numbers_ok st" using inv by (simp_all add: chan_inv_def)
  from ok(3) obtain ks where ks: "sent st = map message ks" "sorted_wrt (>) ks"
    "\<And>k. k \<in> set ks \<Longrightarrow> 0 \<le> k \<and> k < 1000 \<and> itr st \<le> k" "\<And>k. k \<in> set ks \<Longrightarrow> ppc st \<noteq> PLoop \<Longrightarrow> itr st < k"
    by (rule numbers_okD) (rule that)
  have r: "0 \<le> itr st" "itr st \<le> 999" using ok(3) pc by (simp_all add: numbers_ok_def)
  show ?thesis
  proof (cases "i < TOTAL_SLOTS")
    case True
    have free: "slot (shm st) i = FREE \<longleftrightarrow> i \<notin> set (in_hand (cpc st) @ fifo st)" using ok(1) True pc by (simp add: slots_ok_def)
    have st': "st' = st\<lparr>ppc := (if slot (shm st) i = FREE then PFound i else PScan (Suc i))\<rparr>"
      using step pc True load_ok [OF ok(1) True] by (simp add: producer_step_def)
    have "slots_ok st'" using ok(1) pc True free by (simp add: st' slots_ok_def)
    moreover have "log_ok st'" using ok(2) by (simp add: st' log_ok_def)
    moreover have "numbers_ok st'" using ks r True pc by (intro numbers_okI [of st' ks]) (auto simp: st' split: if_splits)
    ultimately show ?thesis by (simp add: chan_inv_def)
  next
    case False
    then have st': "st' = st\<lparr>ppc := PLoop\<rparr>" using step pc by (simp add: producer_step_def)
    have "slots_ok st'" "log_ok st'" using ok(1,2) pc by (simp_all add: st' slots_ok_def log_ok_def)
    moreover have "numbers_ok st'" using ks r pc by (intro numbers_okI [of st' ks]) (auto simp: st')
    ultimately show ?thesis by (simp add: chan_inv_def)
  qed
qed

lemma producer_found_inv:
  assumes inv: "chan_inv st" and step: "producer_step st = Some st'" and pc: "ppc st = PFound i"
  shows "chan_inv st'"
proof -
  have ok: "slots_ok st" "log_ok st" "numbers_ok st" using inv by (simp_all add: chan_inv_def)
  have i: "i < TOTAL_SLOTS" "i \<notin> set (in_hand (cpc st) @ fifo st)" using ok(1) pc by (auto simp: slots_ok_def)
  obtain m where m: "store_str i (message (itr st)) st = st\<lparr>shm := m\<rparr>" "length m = SIZE" "\<forall>j<TOTAL_SLOTS. terminated m j"
    "\<forall>j<TOTAL_SLOTS. slot m j = (if j = i then message (itr st) else slot (shm st) j)"
    using store_ok [OF ok(1) i(1) message(1,2)] by metis
  have st': "st' = st\<lparr>shm := m, ppc := PWritten i\<rparr>" using step pc m(1) by (simp add: producer_step_def)
  have "slot m j = FREE \<longleftrightarrow> j \<notin> set (in_hand (cpc st) @ fifo st) \<and> i \<noteq> j" if "j < TOTAL_SLOTS" for j
    using m(4) that ok(1) pc message(3) by (auto simp: slots_ok_def)
  then have "slots_ok st'" using ok(1) pc m(2,3) by (simp add: st' slots_ok_def)
  moreover have "slot m j = slot (shm st) j" if "j \<in> set (to_show (cpc st) @ fifo st)" for j
    using that i(2) m(4) ok(1) by (cases "cpc st") (auto simp: slots_ok_def)
  then have "map (slot m) (to_show (cpc st) @ fifo st) = map (slot (shm st)) (to_show (cpc st) @ fifo st)"
    by (rule map_cong [OF refl])
  then have "log_ok st'" using ok(2) by (simp add: st' log_ok_def)
  moreover from ok(3) obtain ks where ks: "sent st = map message ks" "sorted_wrt (>) ks"
    "\<And>k. k \<in> set ks \<Longrightarrow> 0 \<le> k \<and> k < 1000 \<and> itr st \<le> k" "\<And>k. k \<in> set ks \<Longrightarrow> ppc st \<noteq> PLoop \<Longrightarrow> itr st < k"
    by (rule numbers_okD) (rule that)
  have "0 \<le> itr st" "itr st \<le> 999" using ok(3) pc by (simp_all add: numbers_ok_def)
  then have "numbers_ok st'" using ks i(1) m(4) pc by (intro numbers_okI [of st' ks]) (auto simp: st')
  ultimately show ?thesis by (simp add: chan_inv_def)
qed

lemma producer_written_inv:
  assumes inv: "chan_inv st" and step: "producer_step st = Some st'" and pc: "ppc st = PWritten i"
  shows "chan_inv st'"
proof -
  from pc have st': "st' = st\<lparr>fifo := fifo st @ [i], sent := sent st @ [slot (shm st) i], ppc := PLoop\<rparr>"
    using step by (simp add: producer_step_def)
  have ok: "slots_ok st" "log_ok st" "numbers_ok st" using inv by (simp_all add: chan_inv_def)
  have n: "slot (shm st) i = message (itr st)" "0 \<le> itr st" "itr st \<le> 999" using ok(3) pc by (simp_all add: numbers_ok_def)
  from ok(3) obtain ks where ks: "sent st = map message ks" "sorted_wrt (>) ks"
    "\<And>k. k \<in> set ks \<Longrightarrow> 0 \<le> k \<and> k < 1000 \<and> itr st \<le> k" "\<And>k. k \<in> set ks \<Longrightarrow> ppc st \<noteq> PLoop \<Longrightarrow> itr st < k"
    by (rule numbers_okD) (rule that)
  then have "sorted_wrt (>) (ks @ [itr st])" using pc by (simp add: sorted_wrt_append)
  then have "numbers_ok st'" using n ks pc by (intro numbers_okI [of st' "ks @ [itr st]"]) (auto simp: st')
  moreover have "slots_ok st'" using ok(1) pc by (auto simp: st' slots_ok_def)
  moreover have "log_ok st'" using ok(2) by (simp add: st' log_ok_def)
  ultimately show ?thesis by (simp add: chan_inv_def)
qed

lemma producer_inv:
  assumes inv: "chan_inv st" and step: "producer_step st = Some st'"
  shows "chan_inv st'"
proof (cases "ppc st")
  case PExit
  then show ?thesis using step by (simp add: producer_step_def)
qed (blast intro: producer_loop_inv producer_scan_inv producer_found_inv producer_written_inv inv step)+

text \<open>The producer's numbers do not depend on the consumer, as long as the slot just written stays.\<close>

lemma numbers_keep:
  assumes "numbers_ok st" "sent st' = sent st" "ppc st' = ppc st" "itr st' = itr st"
    "\<And>i. ppc st = PWritten i \<Longrightarrow> slot (shm st') i = slot (shm st) i"
  shows "numbers_ok st'"
proof -
  have "\<forall>i. ppc st = PWritten i \<longrightarrow> slot (shm st') i = message (itr st)"
    using assms(1,5) unfolding numbers_ok_def by metis
  then show ?thesis using assms(1) unfolding numbers_ok_def assms(2-4) by blast
qed

lemma consumer_inv:
  assumes inv: "chan_inv st" and step: "consumer_step st = Some st'"
  shows "chan_inv st'"
proof -
  have ok: "slots_ok st" "log_ok st" "numbers_ok st" using inv by (simp_all add: chan_inv_def)
  show ?thesis
  proof (cases "cpc st")
    case CRead
    then obtain j f where f: "fifo st = j # f" "st' = st\<lparr>fifo := f, cpc := CGot j\<rparr>"
      using step by (auto simp: consumer_step_def split: list.splits)
    have "slots_ok st'" "log_ok st'" using ok(1,2) CRead f(1) by (simp_all add: f(2) slots_ok_def log_ok_def)
    moreover have "numbers_ok st'" by (rule numbers_keep [OF ok(3)]) (simp_all add: f(2))
    ultimately show ?thesis by (simp add: chan_inv_def)
  next
    case (CGot j)
    then have "j < TOTAL_SLOTS" using ok(1) by (simp add: slots_ok_def)
    from load_ok [OF ok(1) this] have st': "st' = st\<lparr>received := received st @ [slot (shm st) j], cpc := CShown j\<rparr>"
      using step CGot by (simp add: consumer_step_def)
    have "slots_ok st'" "log_ok st'" using ok(1,2) CGot by (simp_all add: st' slots_ok_def log_ok_def)
    moreover have "numbers_ok st'" by (rule numbers_keep [OF ok(3)]) (simp_all add: st')
    ultimately show ?thesis by (simp add: chan_inv_def)
  next
    case (CShown j)
    then have j: "j < TOTAL_SLOTS" "j \<notin> set (claimed (ppc st))" "j \<notin> set (fifo st)" using ok(1) by (auto simp: slots_ok_def)
    obtain m where m: "store_str j FREE st = st\<lparr>shm := m\<rparr>" "length m = SIZE" "\<forall>i<TOTAL_SLOTS. terminated m i"
      "\<forall>i<TOTAL_SLOTS. slot m i = (if i = j then FREE else slot (shm st) i)"
      using store_ok [OF ok(1) j(1) length_FREE] by metis
    have st': "st' = st\<lparr>shm := m, cpc := CRead\<rparr>" using step CShown m(1) by (simp add: consumer_step_def)
    have "slots_ok st'" using ok(1) CShown m(2-4) j unfolding slots_ok_def by (auto simp: st')
    moreover have "map (slot m) (fifo st) = map (slot (shm st)) (fifo st)"
      using m(4) ok(1) j(3) by (intro map_cong) (auto simp: slots_ok_def)
    then have "log_ok st'" using ok(2) CShown by (simp add: st' log_ok_def)
    moreover have "numbers_ok st'"
    proof (rule numbers_keep [OF ok(3)])
      fix i assume "ppc st = PWritten i"
      then show "slot (shm st') i = slot (shm st) i" using j(2) m(4) ok(1) by (simp add: st' slots_ok_def)
    qed (simp_all add: st')
    ultimately show ?thesis by (simp add: chan_inv_def)
  qed
qed

interpretation channel: step_invariant chan_step chan_inv
proof
  fix st a st' assume "chan_inv st" "chan_step a st = Some st'"
  then show "chan_inv st'" using producer_inv [of st st'] consumer_inv [of st st'] by (cases a) simp_all
qed

text \<open>What a slot can hold.\<close>

lemma contents_store:
  assumes "slots_ok st" "j < TOTAL_SLOTS" "s = FREE \<or> s \<in> range message" "contents_ok st"
  shows "contents_ok (store_str j s st)"
proof -
  have s: "length s < MESSAGE_SIZE" "NUL \<notin> set s" using assms(3) length_FREE message(1,2) by auto
  from store_ok [OF assms(1,2) s] obtain m where "store_str j s st = st\<lparr>shm := m\<rparr>"
    "\<forall>i<TOTAL_SLOTS. slot m i = (if i = j then s else slot (shm st) i)" by metis
  then show ?thesis using assms(3,4) unfolding contents_ok_def by auto
qed

lemma contents_keep: "shm st' = shm st \<Longrightarrow> contents_ok st' = contents_ok st"
  by (simp add: contents_ok_def)

lemma load_shm: "load_str j st = (s, st') \<Longrightarrow> shm st' = shm st"
  by (auto simp: load_str_def)

lemma contents_step:
  assumes "slots_ok st" "contents_ok st" "chan_step a st = Some st'"
  shows "contents_ok st'"
proof (cases "(\<exists>i. a = Producer \<and> ppc st = PFound i) \<or> (\<exists>j. a = Consumer \<and> cpc st = CShown j)")
  case True
  then consider j where "a = Producer" "ppc st = PFound j" | j where "a = Consumer" "cpc st = CShown j" by blast
  then obtain j s where j: "j < TOTAL_SLOTS" "s = FREE \<or> s \<in> range message" "shm st' = shm (store_str j s st)"
  proof cases
    case (1 j)
    show ?thesis
      by (rule that [of j "message (itr st)"]) (use 1 assms(1,3) in \<open>auto simp: producer_step_def slots_ok_def\<close>)
  next
    case (2 j)
    show ?thesis
      by (rule that [of j FREE]) (use 2 assms(1,3) in \<open>auto simp: consumer_step_def slots_ok_def\<close>)
  qed
  from contents_store [OF assms(1) j(1,2) assms(2)] show ?thesis by (simp only: contents_keep [OF j(3)])
next
  case False
  have "shm st' = shm st"
  proof (cases a)
    case Producer
    then have "producer_step st = Some st'" "\<forall>i. ppc st \<noteq> PFound i" using False assms(3) by simp_all
    then show ?thesis
      by (cases "ppc st") (auto simp: producer_step_def Let_def dest: load_shm split: if_splits prod.splits)
  next
    case Consumer
    then have "consumer_step st = Some st'" "\<forall>i. cpc st \<noteq> CShown i" using False assms(3) by simp_all
    then show ?thesis
      by (cases "cpc st") (auto simp: consumer_step_def dest: load_shm split: list.splits prod.splits)
  qed
  from contents_keep [OF this] show ?thesis using assms(2) by simp
qed

lemma contents_exec: "chan_inv st \<Longrightarrow> contents_ok st \<Longrightarrow> exec chan_step st sched = Some st' \<Longrightarrow> contents_ok st'"
proof (induction sched arbitrary: st)
  case (Cons a sched)
  then obtain st1 where st1: "chan_step a st = Some st1" "exec chan_step st1 sched = Some st'" by (auto split: option.splits)
  have "slots_ok st" using Cons.prems(1) by (simp add: chan_inv_def)
  from Cons.IH [OF channel.step_inv [OF Cons.prems(1) st1(1)] contents_step [OF this Cons.prems(2) st1(1)] st1(2)]
  show ?case .
qed simp

text \<open>The marking loop establishes the invariant, whatever the segment held before.\<close>

lemma mark_free:
  assumes m: "length m = SIZE" and n: "n \<le> TOTAL_SLOTS"
  shows "length (mark_free n m) = SIZE \<and> (\<forall>j<n. terminated (mark_free n m) j \<and> slot (mark_free n m) j = FREE)"
  using n
proof (induction n)
  case (Suc n)
  then have IH: "length (mark_free n m) = SIZE" "\<forall>j<n. terminated (mark_free n m) j \<and> slot (mark_free n m) j = FREE"
    and n: "n < TOTAL_SLOTS" by simp_all
  have "length (mark_free (Suc n) m) = SIZE"
    using in_memory [OF IH(1) n length_FREE(1)] IH(1) by simp
  moreover have "terminated (mark_free (Suc n) m) j \<and> slot (mark_free (Suc n) m) j = FREE" if j: "j < Suc n" for j
  proof (cases "j = n")
    case True
    obtain rest where b: "block (write_str (mark_free n m) (n * MESSAGE_SIZE) FREE) n = FREE @ NUL # rest"
      using same_block [OF IH(1) n length_FREE(1)] by blast
    then have "terminated (mark_free (Suc n) m) n" by (simp add: terminated_def)
    moreover have "takeWhile (\<lambda>c. c \<noteq> NUL) (FREE @ NUL # rest) = FREE" using length_FREE(2) by (auto simp: takeWhile_append)
    ultimately show ?thesis using True b slot_block [of "mark_free (Suc n) m" n] by simp
  next
    case False
    then have jn: "j < n" "j < TOTAL_SLOTS" using j n by simp_all
    then show ?thesis using slot_write [OF IH(1) n jn(2) _ length_FREE] IH(2) False by simp
  qed
  ultimately show ?case by blast
qed (simp add: m)

lemma chan_init_inv: "length m = SIZE \<Longrightarrow> chan_inv (chan_init m)"
  using mark_free [of m TOTAL_SLOTS]
  by (auto simp: chan_inv_def slots_ok_def log_ok_def numbers_ok_def chan_init_def)

lemma chan_init_contents: "length m = SIZE \<Longrightarrow> contents_ok (chan_init m)"
  using mark_free [of m TOTAL_SLOTS] by (simp add: contents_ok_def chan_init_def)

section \<open>Termination\<close>

text \<open>
  The producer does at most 257 looks, a write and an announcement in each of its 1000 rounds; each
  announcement gives the consumer three steps.
\<close>

definition producer_fuel :: "channel \<Rightarrow> nat" where
  "producer_fuel st =
     (case ppc st of
        PLoop \<Rightarrow> 260 * nat (itr st) + 1
      | PScan i \<Rightarrow> 260 * nat (itr st) + (260 - i)
      | PFound i \<Rightarrow> 260 * nat (itr st) + 3
      | PWritten i \<Rightarrow> 260 * nat (itr st) + 2
      | PExit \<Rightarrow> 0)"

definition chan_fuel :: "channel \<Rightarrow> nat" where
  "chan_fuel st = 4 * producer_fuel st + 3 * length (fifo st) +
     (case cpc st of CRead \<Rightarrow> 0 | CGot j \<Rightarrow> 2 | CShown j \<Rightarrow> 1)"

lemma TOTAL_SLOTS_eq: "TOTAL_SLOTS = 256"
  by (simp add: TOTAL_SLOTS_def SIZE_def MESSAGE_SIZE_def)

lemma store_frame [simp]:
  "fifo (store_str j s st) = fifo st" "ppc (store_str j s st) = ppc st" "cpc (store_str j s st) = cpc st"
  "itr (store_str j s st) = itr st"
  by (simp_all add: store_str_def)

lemma load_frame:
  "load_str j st = (s, st') \<Longrightarrow> fifo st' = fifo st \<and> ppc st' = ppc st \<and> cpc st' = cpc st \<and> itr st' = itr st"
  by (auto simp: load_str_def)

lemma producer_fuel_cong: "ppc st' = ppc st \<Longrightarrow> itr st' = itr st \<Longrightarrow> producer_fuel st' = producer_fuel st"
  by (cases "ppc st") (simp_all add: producer_fuel_def)

lemma chan_step_fuel:
  assumes inv: "numbers_ok st" and step: "chan_step a st = Some st'"
  shows "chan_fuel st' < chan_fuel st"
proof (cases a)
  case Producer
  have i: "ppc st \<noteq> PExit \<Longrightarrow> 0 \<le> itr st" using inv by (simp add: numbers_ok_def)
  have "cpc st' = cpc st \<and> 4 * producer_fuel st' + 3 * length (fifo st') < 4 * producer_fuel st + 3 * length (fifo st)"
  proof (cases "ppc st")
    case PLoop
    then have "st' = st\<lparr>itr := itr st - 1, ppc := (if itr st \<noteq> 0 then PScan 0 else PExit)\<rparr>"
      using step Producer by (simp add: producer_step_def Let_def)
    then show ?thesis using PLoop i by (simp add: producer_fuel_def nat_diff_distrib' algebra_simps) 
  next
    case (PScan k)
    then have "k \<le> 256" using inv by (simp add: numbers_ok_def TOTAL_SLOTS_eq)
    then show ?thesis
      using step Producer PScan by (auto simp: producer_step_def producer_fuel_def TOTAL_SLOTS_eq dest: load_frame split: if_splits prod.splits)
  next
    case (PFound k)
    then show ?thesis using step Producer by (auto simp: producer_step_def producer_fuel_def)
  next
    case (PWritten k)
    then show ?thesis using step Producer by (auto simp: producer_step_def producer_fuel_def)
  next
    case PExit
    then show ?thesis using step Producer by (simp add: producer_step_def)
  qed
  then show ?thesis by (simp add: chan_fuel_def)
next
  case Consumer
  then have "consumer_step st = Some st'" using step by simp
  then have "ppc st' = ppc st \<and> itr st' = itr st \<and>
    3 * length (fifo st') + (case cpc st' of CRead \<Rightarrow> 0 | CGot j \<Rightarrow> 2 | CShown j \<Rightarrow> 1) <
    3 * length (fifo st) + (case cpc st of CRead \<Rightarrow> 0 | CGot j \<Rightarrow> 2 | CShown j \<Rightarrow> (1 :: nat))"
    by (cases "cpc st") (auto simp: consumer_step_def dest: load_frame split: list.splits prod.splits)
  then show ?thesis using producer_fuel_cong [of st' st] by (simp add: chan_fuel_def)
qed

interpretation channel_ends: bounded_runs chan_step chan_inv chan_fuel
proof
  fix st a st'
  assume "chan_inv st" "chan_step a st = Some st'"
  then show "chan_fuel st' < chan_fuel st" using chan_step_fuel by (simp add: chan_inv_def)
qed

section \<open>Properties\<close>


text \<open>
  C18: In every interleaving the consumer shows exactly the messages the producer sent, each once and in
  order, never one of a slot that was reused too early; the numbers sent fall from at most 999; and
  when neither process can go on, the producer has finished and everything sent was shown.
\<close>

theorem shm_delivers_in_order:
  assumes "length m = SIZE" and "exec chan_step (chan_init m) sched = Some st"
  shows "prefix (received st) (sent st) \<and>
     (\<exists>ks. sent st = map message ks \<and> sorted_wrt (>) ks \<and> set ks \<subseteq> {0..<1000}) \<and>
     (chan_step Producer st = None \<and> chan_step Consumer st = None \<longrightarrow> ppc st = PExit \<and> received st = sent st)"
proof -
  have inv: "slots_ok st" "log_ok st" "numbers_ok st"
    using channel.exec_inv [OF chan_init_inv [OF assms(1)] assms(2)] by (simp_all add: chan_inv_def)
  have "ppc st = PExit \<and> received st = sent st" if "producer_step st = None" "consumer_step st = None"
  proof -
    have "cpc st = CRead" "fifo st = []"
      using that(2) by (auto simp: consumer_step_def split: consumer_pc.splits list.splits prod.splits)
    moreover have "ppc st = PExit"
      using that(1) by (auto simp: producer_step_def Let_def split: producer_pc.splits if_splits prod.splits)
    ultimately show ?thesis using inv(2) by (simp add: log_ok_def)
  qed
  moreover obtain ks where "sent st = map message ks" "sorted_wrt (>) ks" "\<And>k. k \<in> set ks \<Longrightarrow> 0 \<le> k \<and> k < 1000 \<and> itr st \<le> k"
    using inv(3) by (rule numbers_okD) (rule that)
  then have "\<exists>ks. sent st = map message ks \<and> sorted_wrt (>) ks \<and> set ks \<subseteq> {0..<1000}" by (intro exI [of _ ks]) auto
  moreover have "prefix (received st) (sent st)" using inv(2) by (simp add: log_ok_def)
  ultimately show ?thesis by simp
qed

text \<open>
  C33: The two processes together do at most 1,040,004 steps, in every interleaving: the producer always
  ends, and then the consumer blocks on the empty FIFO.
\<close>

theorem shm_terminates:
  assumes "length m = SIZE" and "exec chan_step (chan_init m) sched = Some st"
  shows "length sched \<le> 1040004"
  using channel_ends.exec_fuel [OF chan_init_inv [OF assms(1)] assms(2)]
  by (simp add: chan_init_def chan_fuel_def producer_fuel_def)

text \<open>The first message travels.\<close>

definition first_message :: "process list" where
  "first_message = [Producer, Producer, Producer, Producer, Consumer, Consumer]"

lemma first_message_run:
  assumes "length m = SIZE"
  obtains st where "exec chan_step (chan_init m) first_message = Some st" "received st = [message 999]"
proof -
  let ?m = "mark_free TOTAL_SLOTS m"
  have m: "length ?m = SIZE" "terminated ?m 0" "slot ?m 0 = FREE" and z: "0 < TOTAL_SLOTS"
    using mark_free [OF assms, of TOTAL_SLOTS] by (simp_all add: TOTAL_SLOTS_eq)
  let ?m' = "write_str ?m (0 * MESSAGE_SIZE) (message 999)"
  note w = slot_write [OF m(1) z z m(2) message(1,2) [of 999]]
  have "NUL \<in> set ?m" "NUL \<in> set ?m'" using terminated_drop [OF m(2)] terminated_drop [OF w(1)] by simp_all
  moreover have "length (message 999) < length ?m" using message(1) [of 999] m(1) by (simp add: SIZE_def MESSAGE_SIZE_def)
  ultimately have "exec chan_step (chan_init m) first_message = Some (\<lparr>shm = ?m', fifo = [], itr = 999, ppc = PLoop,
      cpc = CShown 0, sent = [message 999], received = [message 999], corrupt = False\<rparr>)"
    using m z w(2) by (simp add: first_message_def chan_init_def producer_step_def consumer_step_def load_str_def store_str_def)
  then show ?thesis using that by simp
qed

theorem shm_delivers_in_order_witness:
  "\<exists>st. exec chan_step (chan_init (replicate SIZE NUL)) first_message = Some st \<and> received st = [message 999] \<and>
     prefix (received st) (sent st)"
proof -
  have l: "length (replicate SIZE NUL) = SIZE" by simp
  obtain st where "exec chan_step (chan_init (replicate SIZE NUL)) first_message = Some st" "received st = [message 999]"
    using first_message_run [OF l] .
  with shm_delivers_in_order [OF l this(1)] show ?thesis by blast
qed


theorem shm_terminates_witness:
  "\<exists>st. exec chan_step (chan_init (replicate SIZE NUL)) first_message = Some st \<and> received st = [message 999] \<and>
     length first_message \<le> 1040004"
proof -
  have l: "length (replicate SIZE NUL) = SIZE" by simp
  obtain st where "exec chan_step (chan_init (replicate SIZE NUL)) first_message = Some st" "received st = [message 999]"
    using first_message_run [OF l] .
  with shm_terminates [OF l this(1)] show ?thesis by blast
qed

end
