(* ===== verification/ShmBytes.thy ===== *)
theory ShmBytes
  imports ShmChannel
begin

text \<open>
  The producer and the consumer of \<open>ShmChannel\<close> with the bytes they exchange as steps of their own: \<open>strcmp\<close> and
  \<open>printf\<close> read a slot byte by byte, \<open>snprintf\<close> and \<open>sprintf\<close> write its bytes one at a time, in any order, and the other
  process may run in between. Every such run is a run of \<open>ShmChannel\<close>, where each of these calls is one step, so
  that what is shown there about messages, slots and the FIFO holds of the bytes too.
\<close>

section \<open>The processes\<close>

text \<open>
  \<open>pread\<close>: the bytes that \<open>strcmp\<close> has found equal; \<open>pleft\<close>: the bytes \<open>snprintf\<close> still has to write; \<open>cgot\<close>: the bytes
  \<open>printf\<close> has read; \<open>cleft\<close>: the bytes of the mark still to be written.
\<close>

record bytes_channel =
  chan :: channel
  pread :: nat
  pleft :: "nat list"
  cgot :: string
  cleft :: "nat list"

definition peek :: "nat \<Rightarrow> channel \<Rightarrow> char \<times> channel" where
  "peek p st = (if p < length (shm st) then (shm st ! p, st) else (NUL, st\<lparr>corrupt := True\<rparr>))"

definition poke :: "nat \<Rightarrow> char \<Rightarrow> channel \<Rightarrow> channel" where
  "poke p c st = (if p < length (shm st) then st\<lparr>shm := (shm st)[p := c]\<rparr> else st\<lparr>corrupt := True\<rparr>)"

text \<open>\<open>n\<close> chooses the byte that a printing function writes next.\<close>

definition producer_byte :: "nat \<Rightarrow> bytes_channel \<Rightarrow> bytes_channel option" where
  "producer_byte n b =
     (case ppc (chan b) of
        PScan i \<Rightarrow>
          if i < TOTAL_SLOTS then
            (let (c, st) = peek (i * MESSAGE_SIZE + pread b) (chan b) in
             if c \<noteq> (FREE @ [NUL]) ! pread b then Some (b\<lparr>chan := st\<lparr>ppc := PScan (Suc i)\<rparr>, pread := 0\<rparr>)
             else if c = NUL then
               Some (b\<lparr>chan := st\<lparr>ppc := PFound i\<rparr>, pread := 0, pleft := [0..<Suc (length (message (itr st)))]\<rparr>)
             else Some (b\<lparr>chan := st, pread := Suc (pread b)\<rparr>))
          else Some (b\<lparr>chan := (chan b)\<lparr>ppc := PLoop\<rparr>\<rparr>)
      | PFound i \<Rightarrow>
          if n < length (pleft b) then
            (let k = pleft b ! n; left = remove1 k (pleft b);
                 st = poke (i * MESSAGE_SIZE + k) ((message (itr (chan b)) @ [NUL]) ! k) (chan b)
             in Some (b\<lparr>chan := (if left = [] then st\<lparr>ppc := PWritten i\<rparr> else st), pleft := left\<rparr>))
          else None
      | _ \<Rightarrow> map_option (\<lambda>st. b\<lparr>chan := st\<rparr>) (producer_step (chan b)))"

definition consumer_byte :: "nat \<Rightarrow> bytes_channel \<Rightarrow> bytes_channel option" where
  "consumer_byte n b =
     (case cpc (chan b) of
        CRead \<Rightarrow> map_option (\<lambda>st. b\<lparr>chan := st\<rparr>) (consumer_step (chan b))
      | CGot j \<Rightarrow>
          (let (c, st) = peek (j * MESSAGE_SIZE + length (cgot b)) (chan b) in
           if c = NUL then
             Some (b\<lparr>chan := st\<lparr>received := received st @ [cgot b], cpc := CShown j\<rparr>, cgot := [], cleft := [0..<Suc (length FREE)]\<rparr>)
           else Some (b\<lparr>chan := st, cgot := cgot b @ [c]\<rparr>))
      | CShown j \<Rightarrow>
          if n < length (cleft b) then
            (let k = cleft b ! n; left = remove1 k (cleft b);
                 st = poke (j * MESSAGE_SIZE + k) ((FREE @ [NUL]) ! k) (chan b)
             in Some (b\<lparr>chan := (if left = [] then st\<lparr>cpc := CRead\<rparr> else st), cleft := left\<rparr>))
          else None)"

fun byte_step :: "process \<times> nat \<Rightarrow> bytes_channel \<Rightarrow> bytes_channel option" where
  "byte_step (Producer, n) b = producer_byte n b"
| "byte_step (Consumer, n) b = consumer_byte n b"

definition bytes_init :: "string \<Rightarrow> bytes_channel" where
  "bytes_init m = \<lparr>chan = chan_init m, pread = 0, pleft = [], cgot = [], cleft = []\<rparr>"

section \<open>The bytes of a slot\<close>

definition cell :: "string \<Rightarrow> nat \<Rightarrow> nat \<Rightarrow> char" where
  "cell m j k = m ! (j * MESSAGE_SIZE + k)"

lemma same_position:
  assumes "k < MESSAGE_SIZE" "k' < MESSAGE_SIZE"
  shows "j * MESSAGE_SIZE + k = i * MESSAGE_SIZE + k' \<longleftrightarrow> j = i \<and> k = k'"
proof
  assume e: "j * MESSAGE_SIZE + k = i * MESSAGE_SIZE + k'"
  have "(j * MESSAGE_SIZE + k) div MESSAGE_SIZE = j" "(i * MESSAGE_SIZE + k') div MESSAGE_SIZE = i" using assms by simp_all
  then show "j = i \<and> k = k'" using e by (metis add_left_cancel)
qed simp

lemma cell_update:
  assumes "length m = SIZE" "j < TOTAL_SLOTS" "k < MESSAGE_SIZE" "i < TOTAL_SLOTS" "k' < MESSAGE_SIZE"
  shows "cell (m[i * MESSAGE_SIZE + k' := c]) j k = (if j = i \<and> k = k' then c else cell m j k)"
  using in_memory [OF assms(1,2,3)] same_position [OF assms(3,5), of j i] by (auto simp: cell_def nth_list_update)

lemma cell_write:
  assumes m: "length m = SIZE" "j < TOTAL_SLOTS" "k < MESSAGE_SIZE" "i < TOTAL_SLOTS" and s: "length s < MESSAGE_SIZE"
  shows "cell (write_str m (i * MESSAGE_SIZE) s) j k = (if j = i \<and> k \<le> length s then (s @ [NUL]) ! k else cell m j k)"
proof (cases "j = i")
  case True
  then show ?thesis using nth_write_str [OF in_memory [OF m(1,4) s] in_memory [OF m(1,2,3)]]
    by (auto simp: cell_def nth_append)
next
  case False
  then have "block (write_str m (i * MESSAGE_SIZE) s) j = block m j" using other_block [OF m(1,4,2) _ s] by simp
  moreover have "length (write_str m (i * MESSAGE_SIZE) s) = SIZE" using in_memory [OF m(1,4) s] m(1) by simp
  ultimately show ?thesis using nth_block m(1-3) False by (metis cell_def)
qed

lemma slot_cells:
  assumes m: "length m = SIZE" "j < TOTAL_SLOTS" "terminated m j"
  shows "length (slot m j) < MESSAGE_SIZE" "k \<le> length (slot m j) \<Longrightarrow> cell m j k = (slot m j @ [NUL]) ! k" "NUL \<notin> set (slot m j)"
proof -
  have s: "slot m j = takeWhile (\<lambda>c. c \<noteq> NUL) (block m j)" by (rule slot_block [OF m(3)])
  have "NUL \<in> set (block m j)" using m(3) by (simp add: terminated_def)
  then have l: "length (slot m j) < length (block m j)"
    unfolding s by (metis (mono_tags, lifting) length_takeWhile_le le_neq_implies_less set_takeWhileD takeWhile_eq_take take_all_iff)
  then show len: "length (slot m j) < MESSAGE_SIZE" using length_block [OF m(1,2)] by simp
  show "NUL \<notin> set (slot m j)" unfolding s using set_takeWhileD by fastforce
  assume k: "k \<le> length (slot m j)"
  have "block m j ! k = (slot m j @ [NUL]) ! k"
  proof (cases "k < length (slot m j)")
    case True
    then show ?thesis unfolding s by (simp add: nth_append takeWhile_nth)
  next
    case False
    then have "k = length (takeWhile (\<lambda>c. c \<noteq> NUL) (block m j))" using k s by simp
    then show ?thesis using nth_length_takeWhile [of "\<lambda>c. c \<noteq> NUL" "block m j"] l s by (simp add: nth_append)
  qed
  then show "cell m j k = (slot m j @ [NUL]) ! k"
    using nth_block [OF m(1,2), of k] len k by (simp add: cell_def)
qed

lemma slot_from_cells:
  assumes m: "length m = SIZE" "j < TOTAL_SLOTS" "terminated m j"
    and s: "length s < MESSAGE_SIZE" "NUL \<notin> set s" "\<And>k. k \<le> length s \<Longrightarrow> cell m j k = (s @ [NUL]) ! k"
  shows "slot m j = s"
proof -
  note c = slot_cells [OF m]
  have "\<not> length (slot m j) < length s"
  proof
    assume l: "length (slot m j) < length s"
    then have "s ! length (slot m j) = NUL" using c(2) [of "length (slot m j)"] s(3) [of "length (slot m j)"] by (simp add: nth_append)
    then show False using l s(2) by (metis nth_mem)
  qed
  moreover have "\<not> length s < length (slot m j)"
  proof
    assume l: "length s < length (slot m j)"
    then have "slot m j ! length s = NUL" using c(2) [of "length s"] s(3) [of "length s"] by (simp add: nth_append)
    then show False using l c(3) by (metis nth_mem)
  qed
  ultimately have l: "length (slot m j) = length s" by simp
  show ?thesis
    by (rule nth_equalityI [OF l]) (use c(2) s(3) l in \<open>simp add: nth_append\<close>, metis less_imp_le_nat)
qed

text \<open>A message differs from the mark in each byte of the mark.\<close>

lemma message_cells: "k \<le> length FREE \<Longrightarrow> k \<le> length (message q) \<and> (message q @ [NUL]) ! k \<noteq> (FREE @ [NUL]) ! k"
proof -
  assume "k \<le> length FREE"
  then have "k \<in> {0, 1, 2, 3, 4, 5, 6, 7}" by (auto simp: FREE_def)
  then show ?thesis by (auto simp: message_def MESSAGE_def FREE_def MESSAGE_SIZE_def)
qed

section \<open>The simulation\<close>

text \<open>
  The slot-level state \<open>a\<close> that goes with \<open>b\<close>: a call that writes has its effect there with its last byte, a call
  that reads with its last byte read. Until then \<open>b\<close> holds the bytes that the calls under way have written.
\<close>

definition overlay :: "bytes_channel \<Rightarrow> channel \<Rightarrow> nat \<Rightarrow> nat \<Rightarrow> char" where
  "overlay b a j k =
     (if cpc a = CShown j \<and> k \<le> length FREE \<and> k \<notin> set (cleft b) then (FREE @ [NUL]) ! k
      else if ppc a = PFound j \<and> k \<le> length (message (itr a)) \<and> k \<notin> set (pleft b) then (message (itr a) @ [NUL]) ! k
      else cell (shm a) j k)"

definition producer_bytes :: "bytes_channel \<Rightarrow> channel \<Rightarrow> bool" where
  "producer_bytes b a \<longleftrightarrow>
     (case ppc a of
        PScan i \<Rightarrow> pread b \<le> length FREE \<and> (i < TOTAL_SLOTS \<or> pread b = 0) \<and>
          (\<forall>k<pread b. cell (shm (chan b)) i k = (FREE @ [NUL]) ! k)
      | PFound i \<Rightarrow> pread b = 0 \<and> pleft b \<noteq> [] \<and> distinct (pleft b) \<and> set (pleft b) \<subseteq> {..length (message (itr a))}
      | _ \<Rightarrow> pread b = 0)"

definition consumer_bytes :: "bytes_channel \<Rightarrow> channel \<Rightarrow> bool" where
  "consumer_bytes b a \<longleftrightarrow>
     (case cpc a of
        CRead \<Rightarrow> cgot b = []
      | CGot j \<Rightarrow> prefix (cgot b) (slot (shm a) j)
      | CShown j \<Rightarrow> cgot b = [] \<and> cleft b \<noteq> [] \<and> distinct (cleft b) \<and> set (cleft b) \<subseteq> {..length FREE})"

definition sim :: "bytes_channel \<Rightarrow> channel \<Rightarrow> bool" where
  "sim b a \<longleftrightarrow> chan_inv a \<and> contents_ok a \<and> chan b = a\<lparr>shm := shm (chan b)\<rparr> \<and> length (shm (chan b)) = SIZE \<and>
     (\<forall>j<TOTAL_SLOTS. \<forall>k<MESSAGE_SIZE. cell (shm (chan b)) j k = overlay b a j k) \<and>
     producer_bytes b a \<and> consumer_bytes b a"

text \<open>The steps inside the calls under way.\<close>

definition used :: "bytes_channel \<Rightarrow> nat" where
  "used b = pread b + (case ppc (chan b) of PFound i \<Rightarrow> Suc (length (message (itr (chan b)))) - length (pleft b) | _ \<Rightarrow> 0) +
     length (cgot b) + (case cpc (chan b) of CShown j \<Rightarrow> Suc (length FREE) - length (cleft b) | _ \<Rightarrow> 0)"

lemma simD:
  assumes "sim b a"
  shows "chan_inv a" "slots_ok a" "contents_ok a" "producer_bytes b a" "consumer_bytes b a" "length (shm (chan b)) = SIZE"
    "length (shm a) = SIZE" "chan b = a\<lparr>shm := shm (chan b)\<rparr>" "j < TOTAL_SLOTS \<Longrightarrow> terminated (shm a) j"
    "j < TOTAL_SLOTS \<Longrightarrow> k < MESSAGE_SIZE \<Longrightarrow> cell (shm (chan b)) j k = overlay b a j k"
  using assms by (auto simp: sim_def chan_inv_def slots_ok_def)

lemma sim_fields:
  assumes "sim b a"
  shows "ppc (chan b) = ppc a" "cpc (chan b) = cpc a" "itr (chan b) = itr a" "fifo (chan b) = fifo a" "sent (chan b) = sent a"
    "received (chan b) = received a" "corrupt (chan b) = corrupt a"
  using simD(8) [OF assms] by (metis channel.select_convs channel.surjective channel.update_convs(1))+

lemma simI:
  assumes "chan_inv a" "contents_ok a" "chan b = a\<lparr>shm := m\<rparr>" "length m = SIZE"
    "\<And>j k. j < TOTAL_SLOTS \<Longrightarrow> k < MESSAGE_SIZE \<Longrightarrow> cell m j k = overlay b a j k"
    "producer_bytes b a" "consumer_bytes b a"
  shows "sim b a"
  using assms by (simp add: sim_def)

lemma producer_bytes_cong:
  assumes "ppc a' = ppc a" "itr a' = itr a" "pread b' = pread b" "pleft b' = pleft b" "shm (chan b') = shm (chan b)"
  shows "producer_bytes b' a' = producer_bytes b a"
  unfolding producer_bytes_def assms by (rule refl)

lemma consumer_bytes_cong:
  assumes "cpc a' = cpc a" "shm a' = shm a" "cgot b' = cgot b" "cleft b' = cleft b"
  shows "consumer_bytes b' a' = consumer_bytes b a"
  unfolding consumer_bytes_def assms by (rule refl)

lemma peek_ok: "length (shm st) = SIZE \<Longrightarrow> j < TOTAL_SLOTS \<Longrightarrow> k < MESSAGE_SIZE \<Longrightarrow> peek (j * MESSAGE_SIZE + k) st = (cell (shm st) j k, st)"
  using in_memory [of "shm st" j k] by (simp add: peek_def cell_def)

lemma poke_ok:
  "length (shm st) = SIZE \<Longrightarrow> j < TOTAL_SLOTS \<Longrightarrow> k < MESSAGE_SIZE \<Longrightarrow>
     poke (j * MESSAGE_SIZE + k) c st = st\<lparr>shm := (shm st)[j * MESSAGE_SIZE + k := c]\<rparr>"
  using in_memory [of "shm st" j k] by (simp add: poke_def)

lemma claimed_in_hand:
  assumes "slots_ok a"
  shows "ppc a = PFound i \<Longrightarrow> i < TOTAL_SLOTS \<and> cpc a \<noteq> CShown i \<and> cpc a \<noteq> CGot i"
    "cpc a = CShown j \<Longrightarrow> j < TOTAL_SLOTS \<and> ppc a \<noteq> PFound j \<and> slot (shm a) j \<noteq> FREE"
    "cpc a = CGot j \<Longrightarrow> j < TOTAL_SLOTS \<and> ppc a \<noteq> PFound j"
    "ppc a = PWritten i \<Longrightarrow> i < TOTAL_SLOTS \<and> cpc a \<noteq> CShown i"
  using assms by (auto simp: slots_ok_def)

text \<open>\<open>strcmp\<close> against bytes that are being written: its answer is that of the slot as a whole.\<close>

lemma scan_answer:
  assumes sim: "sim b a" and pc: "ppc a = PScan i" and i: "i < TOTAL_SLOTS"
  shows "(\<And>k. k \<le> length FREE \<Longrightarrow> cell (shm (chan b)) i k = (FREE @ [NUL]) ! k) \<Longrightarrow> slot (shm a) i = FREE"
    "k \<le> length FREE \<Longrightarrow> cell (shm (chan b)) i k \<noteq> (FREE @ [NUL]) ! k \<Longrightarrow> slot (shm a) i \<noteq> FREE"
proof -
  note d = simD [OF sim]
  have small: "k < MESSAGE_SIZE" if "k \<le> length FREE" for k using that length_FREE(1) by simp
  note cells = slot_cells(2) [OF d(7) i d(9) [OF i]]
  have over: "cell (shm (chan b)) i k = overlay b a i k" if "k \<le> length FREE" for k using d(10) [OF i small [OF that]] .
  {
    assume all: "\<And>k. k \<le> length FREE \<Longrightarrow> cell (shm (chan b)) i k = (FREE @ [NUL]) ! k"
    show "slot (shm a) i = FREE"
    proof (cases "cpc a = CShown i")
      case True
      then obtain k where k: "k \<in> set (cleft b)" "k \<le> length FREE"
        using d(5) unfolding consumer_bytes_def by (cases "cleft b") auto
      then have "overlay b a i k = cell (shm a) i k" using pc by (simp add: overlay_def)
      then have e: "cell (shm a) i k = (FREE @ [NUL]) ! k" using over [OF k(2)] all [OF k(2)] by simp
      have "slot (shm a) i = FREE \<or> slot (shm a) i \<in> range message" using d(3) i by (simp add: contents_ok_def)
      then show ?thesis using e message_cells [OF k(2)] cells by force
    next
      case False
      then have "cell (shm a) i k = (FREE @ [NUL]) ! k" if "k \<le> length FREE" for k
        using over [OF that] all [OF that] pc by (simp add: overlay_def)
      then show ?thesis by (rule slot_from_cells [OF d(7) i d(9) [OF i] length_FREE])
    qed
  }
  assume k: "k \<le> length FREE" "cell (shm (chan b)) i k \<noteq> (FREE @ [NUL]) ! k"
  show "slot (shm a) i \<noteq> FREE"
  proof
    assume f: "slot (shm a) i = FREE"
    then have "cpc a \<noteq> CShown i" using claimed_in_hand(2) [OF d(2)] by blast
    then have "overlay b a i k = cell (shm a) i k" using pc by (simp add: overlay_def)
    then show False using over [OF k(1)] k cells [of k] f by simp
  qed
qed

lemma store_cells:
  assumes a: "slots_ok a" and j: "j < TOTAL_SLOTS" and s: "length s < MESSAGE_SIZE" "NUL \<notin> set s"
  obtains m where "store_str j s a = a\<lparr>shm := m\<rparr>" "\<And>i. i < TOTAL_SLOTS \<Longrightarrow> i \<noteq> j \<Longrightarrow> slot m i = slot (shm a) i"
    "\<And>i k. i < TOTAL_SLOTS \<Longrightarrow> k < MESSAGE_SIZE \<Longrightarrow> cell m i k = (if i = j \<and> k \<le> length s then (s @ [NUL]) ! k else cell (shm a) i k)"
proof -
  have l: "length (shm a) = SIZE" "\<And>i. i < TOTAL_SLOTS \<Longrightarrow> terminated (shm a) i" using a by (simp_all add: slots_ok_def)
  have "j * MESSAGE_SIZE + length s < length (shm a)" using in_memory [OF l(1) j s(1)] .
  then show ?thesis
    using that [of "write_str (shm a) (j * MESSAGE_SIZE) s"] cell_write [OF l(1) _ _ j s(1)] slot_write(2) [OF l(1) j _ l(2) s]
    by (simp add: store_str_def)
qed

lemma length_remove1_lt: "k \<in> set xs \<Longrightarrow> length (remove1 k xs) = length xs - 1 \<and> 0 < length xs"
  by (auto simp: length_remove1)

lemma few_left: "distinct xs \<Longrightarrow> set xs \<subseteq> {..n} \<Longrightarrow> length xs \<le> Suc n"
  by (metis card_atMost card_mono distinct_card finite_atMost)

lemma contents_step': "chan_inv a \<Longrightarrow> contents_ok a \<Longrightarrow> chan_step p a = Some a' \<Longrightarrow> contents_ok a'"
  using contents_step [of a p a'] by (simp add: chan_inv_def)

definition follows :: "process \<Rightarrow> bytes_channel \<Rightarrow> channel \<Rightarrow> bytes_channel \<Rightarrow> bool" where
  "follows p b a b' \<longleftrightarrow> (sim b' a \<and> used b' = Suc (used b)) \<or> (\<exists>a'. chan_step p a = Some a' \<and> sim b' a' \<and> used b \<le> used b' + 15)"

lemma followsI:
  assumes "sim b a" "chan_step p a = Some a'" "chan b' = a'\<lparr>shm := m\<rparr>" "length m = SIZE"
    "\<And>j k. j < TOTAL_SLOTS \<Longrightarrow> k < MESSAGE_SIZE \<Longrightarrow> cell m j k = overlay b' a' j k"
    "producer_bytes b' a'" "consumer_bytes b' a'" "used b \<le> used b' + 15"
  shows "follows p b a b'"
proof -
  have "chan_inv a'" "contents_ok a'"
    using channel.step_inv [OF simD(1) [OF assms(1)] assms(2)] contents_step' [OF simD(1,3) [OF assms(1)] assms(2)] .
  from simI [OF this assms(3-7)] show ?thesis using assms(2,8) by (auto simp: follows_def)
qed

text \<open>A step of the producer that leaves the memory alone.\<close>

lemma producer_quiet:
  assumes sim: "sim b a" and step: "producer_step a = Some a'" and a': "shm a' = shm a" "cpc a' = cpc a" "itr a' = itr a \<or> ppc a = PLoop"
    and b': "chan b' = a'\<lparr>shm := shm (chan b)\<rparr>" "cgot b' = cgot b" "cleft b' = cleft b" "producer_bytes b' a'" "used b \<le> used b' + 15"
    and pc: "\<And>i. ppc a \<noteq> PFound i" "\<And>i. ppc a' = PFound i \<Longrightarrow> pleft b' = [0..<Suc (length (message (itr a)))] \<and> itr a' = itr a"
  shows "follows Producer b a b'"
proof (rule followsI [OF sim _ b'(1)])
  note d = simD [OF sim]
  show "chan_step Producer a = Some a'" using step by simp
  show "length (shm (chan b)) = SIZE" by (rule d(6))
  show "cell (shm (chan b)) j k = overlay b' a' j k" if "j < TOTAL_SLOTS" "k < MESSAGE_SIZE" for j k
    using d(10) [OF that] pc a'(1,2) b'(3) by (auto simp: overlay_def)
  show "consumer_bytes b' a'" using d(5) consumer_bytes_cong [OF a'(2,1) b'(2,3)] by simp
qed (use b' in auto)

lemma shm_last:
  "st\<lparr>shm := m, ppc := p\<rparr> = st\<lparr>ppc := p, shm := m\<rparr>" "st\<lparr>shm := m, cpc := c\<rparr> = st\<lparr>cpc := c, shm := m\<rparr>"
  "st\<lparr>shm := m, fifo := f\<rparr> = st\<lparr>fifo := f, shm := m\<rparr>" "st\<lparr>shm := m, sent := s\<rparr> = st\<lparr>sent := s, shm := m\<rparr>"
  "st\<lparr>shm := m, received := s\<rparr> = st\<lparr>received := s, shm := m\<rparr>" "st\<lparr>shm := m, itr := v\<rparr> = st\<lparr>itr := v, shm := m\<rparr>"
  by simp_all

lemmas used_split = if_splits consumer_pc.splits

lemma producer_loop_sim:
  assumes sim: "sim b a" and pc: "ppc a = PLoop" and step: "producer_byte n b = Some b'"
  shows "follows Producer b a b'"
proof -
  let ?a' = "a\<lparr>itr := itr a - 1, ppc := (if itr a \<noteq> 0 then PScan 0 else PExit)\<rparr>"
  obtain m where m: "chan b = a\<lparr>shm := m\<rparr>" using simD(8) [OF sim] by blast
  have b': "b' = b\<lparr>chan := ?a'\<lparr>shm := m\<rparr>\<rparr>"
    using step pc by (auto simp: producer_byte_def producer_step_def m shm_last Let_def)
  show ?thesis
    by (rule producer_quiet [OF sim, of ?a'])
      (use pc simD(4) [OF sim] in \<open>auto simp: b' m producer_step_def producer_bytes_def used_def Let_def split: used_split\<close>)
qed

lemma same_cells:
  assumes m: "length m = SIZE" "length m' = SIZE" "i < TOTAL_SLOTS" "terminated m' i"
    and c: "\<And>k. k < MESSAGE_SIZE \<Longrightarrow> cell m i k = cell m' i k"
  shows "slot m i = slot m' i"
proof -
  have "block m i = block m' i"
    by (rule nth_equalityI) (use c nth_block [OF m(1,3)] nth_block [OF m(2,3)] in \<open>simp_all add: length_block m cell_def\<close>)
  then show ?thesis using m(4) slot_block [of m i] slot_block [of m' i] by (simp add: terminated_def)
qed

lemma producer_written_sim:
  assumes sim: "sim b a" and pc: "ppc a = PWritten i" and step: "producer_byte n b = Some b'"
  shows "follows Producer b a b'"
proof -
  let ?a' = "a\<lparr>fifo := fifo a @ [i], sent := sent a @ [slot (shm a) i], ppc := PLoop\<rparr>"
  note d = simD [OF sim]
  obtain m where m: "chan b = a\<lparr>shm := m\<rparr>" using d(8) by blast
  have i: "i < TOTAL_SLOTS" "cpc a \<noteq> CShown i" using claimed_in_hand(4) [OF d(2) pc] by simp_all
  have "slot m i = slot (shm a) i"
    using d(6) d(10) [OF i(1)] pc i(2) by (intro same_cells [OF _ d(7) i(1) d(9) [OF i(1)]]) (simp_all add: m overlay_def)
  then have b': "b' = b\<lparr>chan := ?a'\<lparr>shm := m\<rparr>\<rparr>"
    using step pc by (simp add: producer_byte_def producer_step_def m shm_last)
  show ?thesis
    by (rule producer_quiet [OF sim, of ?a'])
      (use pc d(4) in \<open>auto simp: b' m producer_step_def producer_bytes_def used_def Let_def split: used_split\<close>)
qed

lemma producer_scan_sim:
  assumes sim: "sim b a" and pc: "ppc a = PScan i" and step: "producer_byte n b = Some b'"
  shows "follows Producer b a b'"
proof -
  note d = simD [OF sim]
  obtain m where m: "chan b = a\<lparr>shm := m\<rparr>" using d(8) by blast
  have l: "length m = SIZE" using d(6) by (simp add: m)
  have pr: "pread b \<le> length FREE" "i < TOTAL_SLOTS \<or> pread b = 0" "\<forall>k<pread b. cell m i k = (FREE @ [NUL]) ! k"
    using d(4) pc by (simp_all add: producer_bytes_def m)
  have small: "pread b < MESSAGE_SIZE" "length FREE = 7" using pr(1) length_FREE(1) by (simp_all add: FREE_def)
  show ?thesis
  proof (cases "i < TOTAL_SLOTS")
    case True
    let ?c = "cell m i (pread b)"
    have pk: "peek (i * MESSAGE_SIZE + pread b) (chan b) = (?c, chan b)"
      using peek_ok [of "chan b" i "pread b"] l True small(1) by (simp add: m)
    have load: "load_str i a = (slot (shm a) i, a)" by (rule load_ok [OF d(2) True])
    show ?thesis
    proof (cases "?c = (FREE @ [NUL]) ! pread b")
      case False
      let ?a' = "a\<lparr>ppc := PScan (Suc i)\<rparr>"
      have b': "b' = b\<lparr>chan := ?a'\<lparr>shm := m\<rparr>, pread := 0\<rparr>"
        using step pc True False pk by (simp add: producer_byte_def m shm_last)
      have "slot (shm a) i \<noteq> FREE" using scan_answer(2) [OF sim pc True pr(1)] False by (simp add: m)
      then have s: "producer_step a = Some ?a'" using pc True load by (simp add: producer_step_def)
      show ?thesis
        by (rule producer_quiet [OF sim s]) (use pc pr(1) small(2) in \<open>auto simp: b' m producer_bytes_def used_def split: used_split\<close>)
    next
      case same: True
      show ?thesis
      proof (cases "?c = NUL")
        case False
        then have b': "b' = b\<lparr>chan := a\<lparr>shm := m\<rparr>, pread := Suc (pread b)\<rparr>"
          using step pc True same pk by (simp add: producer_byte_def m shm_last)
        have "pread b \<noteq> length FREE" using False same by auto
        then have "producer_bytes b' a" using pc pr True same by (auto simp: producer_bytes_def b' m less_Suc_eq)
        moreover have "overlay b' a = overlay b a" by (simp add: overlay_def b' fun_eq_iff)
        moreover have "consumer_bytes b' a" using d(5) consumer_bytes_cong [of a a b' b] by (simp add: b')
        ultimately have "sim b' a" using sim by (simp add: sim_def b' m)
        then show ?thesis using pc by (simp add: follows_def used_def b' m split: consumer_pc.split)
      next
        case nul: True
        let ?a' = "a\<lparr>ppc := PFound i\<rparr>"
        have b': "b' = b\<lparr>chan := ?a'\<lparr>shm := m\<rparr>, pread := 0, pleft := [0..<Suc (length (message (itr a)))]\<rparr>"
          using step pc True same nul pk by (simp add: producer_byte_def m shm_last del: upt_Suc)
        have "pread b = length FREE"
        proof (rule ccontr)
          assume "pread b \<noteq> length FREE"
          then have "NUL \<in> set FREE" using pr(1) same nul by (metis le_neq_implies_less nth_append nth_mem)
          then show False using length_FREE(2) by simp
        qed
        then have "cell m i k = (FREE @ [NUL]) ! k" if "k \<le> length FREE" for k
          using pr(3) same that by (cases "k = length FREE") simp_all
        then have "slot (shm a) i = FREE" using scan_answer(1) [OF sim pc True] by (simp add: m)
        then have s: "producer_step a = Some ?a'" using pc True load by (simp add: producer_step_def)
        show ?thesis
          by (rule producer_quiet [OF sim s])
            (use pc pr(1) small(2) in \<open>auto simp: b' m producer_bytes_def used_def simp del: upt_Suc split: used_split\<close>)
      qed
    qed
  next
    case False
    let ?a' = "a\<lparr>ppc := PLoop\<rparr>"
    have b': "b' = b\<lparr>chan := ?a'\<lparr>shm := m\<rparr>\<rparr>" using step pc False by (simp add: producer_byte_def m shm_last)
    have s: "producer_step a = Some ?a'" using pc False by (simp add: producer_step_def)
    show ?thesis
      by (rule producer_quiet [OF sim s]) (use pc pr(2) False in \<open>auto simp: b' m producer_bytes_def used_def split: used_split\<close>)
  qed
qed

text \<open>\<open>snprintf\<close> into a slot that nobody else looks at as a message.\<close>

lemma producer_found_sim:
  assumes sim: "sim b a" and pc: "ppc a = PFound i" and step: "producer_byte n b = Some b'"
  shows "follows Producer b a b'"
proof -
  let ?s = "message (itr a)"
  note d = simD [OF sim]
  obtain m where m: "chan b = a\<lparr>shm := m\<rparr>" using d(8) by blast
  have l: "length m = SIZE" using d(6) by (simp add: m)
  have i: "i < TOTAL_SLOTS" "cpc a \<noteq> CShown i" "cpc a \<noteq> CGot i" using claimed_in_hand(1) [OF d(2) pc] by simp_all
  have pl: "pread b = 0" "distinct (pleft b)" "set (pleft b) \<subseteq> {..length ?s}"
    using d(4) pc by (simp_all add: producer_bytes_def)
  let ?k = "pleft b ! n" and ?left = "remove1 (pleft b ! n) (pleft b)"
  have n: "n < length (pleft b)" using step pc by (simp add: producer_byte_def m split: if_splits)
  then have k: "?k \<in> set (pleft b)" by simp
  then have k': "?k \<le> length ?s" "?k < MESSAGE_SIZE" using pl(3) message(1) [of "itr a"] by auto
  let ?m = "m[i * MESSAGE_SIZE + ?k := (?s @ [NUL]) ! ?k]"
  have pk: "poke (i * MESSAGE_SIZE + ?k) ((?s @ [NUL]) ! ?k) (chan b) = a\<lparr>shm := ?m\<rparr>"
    using poke_ok [of "chan b" i ?k] l i(1) k'(2) by (simp add: m)
  have left: "set ?left = set (pleft b) - {?k}" using pl(2) by simp
  have few: "length ?left = length (pleft b) - 1" "0 < length (pleft b)" "length (pleft b) \<le> Suc (length ?s)" "length ?s \<le> 15"
    using length_remove1_lt [OF k] few_left [OF pl(2,3)] message(1) [of "itr a"] by (simp_all add: MESSAGE_SIZE_def)
  have cells: "cell ?m j k = (if j = i \<and> k \<le> length ?s \<and> k \<notin> set ?left then (?s @ [NUL]) ! k
      else if cpc a = CShown j \<and> k \<le> length FREE \<and> k \<notin> set (cleft b) then (FREE @ [NUL]) ! k else cell (shm a) j k)"
    if "j < TOTAL_SLOTS" "k < MESSAGE_SIZE" for j k
    using cell_update [OF l that i(1) k'(2)] d(10) [OF that] pc i(2) k'(1) unfolding left by (auto simp: m overlay_def)
  show ?thesis
  proof (cases "?left = []")
    case False
    then have b': "b' = b\<lparr>chan := a\<lparr>shm := ?m\<rparr>, pleft := ?left\<rparr>"
      using step pc n pk by (simp add: producer_byte_def m Let_def)
    have "sim b' a"
    proof (rule simI [OF d(1,3)])
      show "chan b' = a\<lparr>shm := ?m\<rparr>" by (simp add: b')
      show "length ?m = SIZE" using l by simp
      show "cell ?m j k = overlay b' a j k" if "j < TOTAL_SLOTS" "k < MESSAGE_SIZE" for j k
        using cells [OF that] pc i(2) by (auto simp: overlay_def b')
      show "producer_bytes b' a" using pc pl False left by (auto simp: producer_bytes_def b')
      show "consumer_bytes b' a" using d(5) consumer_bytes_cong [of a a b' b] by (simp add: b')
    qed
    moreover have "used b' = Suc (used b)"
    proof -
      have "length (pleft b) = Suc (length ?left)" "length ?left \<le> length ?s" using few by simp_all
      then show ?thesis using pc unfolding used_def by (simp add: b' m Suc_diff_le split: consumer_pc.split)
    qed
    ultimately show ?thesis by (simp add: follows_def)
  next
    case True
    then have b': "b' = b\<lparr>chan := a\<lparr>ppc := PWritten i, shm := ?m\<rparr>, pleft := []\<rparr>"
      using step pc n pk by (simp add: producer_byte_def m shm_last Let_def)
    obtain m' where m': "store_str i ?s a = a\<lparr>shm := m'\<rparr>" "\<And>j. j < TOTAL_SLOTS \<Longrightarrow> j \<noteq> i \<Longrightarrow> slot m' j = slot (shm a) j"
      "\<And>j k. j < TOTAL_SLOTS \<Longrightarrow> k < MESSAGE_SIZE \<Longrightarrow>
         cell m' j k = (if j = i \<and> k \<le> length ?s then (?s @ [NUL]) ! k else cell (shm a) j k)"
      by (rule store_cells [OF d(2) i(1) message(1,2) [of "itr a"]]) (rule that)
    let ?a' = "a\<lparr>ppc := PWritten i, shm := m'\<rparr>"
    show ?thesis
    proof (rule followsI [OF sim, of Producer ?a' _ ?m])
      show "chan_step Producer a = Some ?a'" using pc m'(1) by (simp add: producer_step_def shm_last)
      show "chan b' = ?a'\<lparr>shm := ?m\<rparr>" by (simp add: b')
      show "length ?m = SIZE" using l by simp
      show "cell ?m j k = overlay b' ?a' j k" if "j < TOTAL_SLOTS" "k < MESSAGE_SIZE" for j k
        using cells [OF that] m'(3) [OF that] True i(2) by (simp add: overlay_def b')
      show "producer_bytes b' ?a'" using pl(1) by (simp add: producer_bytes_def b')
      show "consumer_bytes b' ?a'"
        using d(5) m'(2) i(3) claimed_in_hand(3) [OF d(2)] by (auto simp: consumer_bytes_def b' split: consumer_pc.splits)
      have "length (pleft b) = 1" using few True by (cases "pleft b") simp_all
      then show "used b \<le> used b' + 15" using few(4) pc unfolding used_def by (simp add: b' m split: consumer_pc.split)
    qed
  qed
qed

lemma producer_sim:
  assumes "sim b a" "producer_byte n b = Some b'"
  shows "follows Producer b a b'"
proof (cases "ppc a")
  case PExit
  then show ?thesis using assms(2) sim_fields(1) [OF assms(1)] by (simp add: producer_byte_def producer_step_def)
qed (use assms producer_loop_sim producer_scan_sim producer_found_sim producer_written_sim in blast)+

lemma consumer_sim:
  assumes sim: "sim b a" and step: "consumer_byte n b = Some b'"
  shows "follows Consumer b a b'"
proof -
  note d = simD [OF sim]
  obtain m where m: "chan b = a\<lparr>shm := m\<rparr>" using d(8) by blast
  have l: "length m = SIZE" using d(6) by (simp add: m)
  show ?thesis
  proof (cases "cpc a")
    case CRead
    then obtain j f where f: "fifo a = j # f" "b' = b\<lparr>chan := a\<lparr>fifo := f, cpc := CGot j, shm := m\<rparr>\<rparr>"
      using step by (auto simp: consumer_byte_def consumer_step_def m shm_last split: list.splits)
    let ?a' = "a\<lparr>fifo := f, cpc := CGot j\<rparr>"
    show ?thesis
    proof (rule followsI [OF sim, of Consumer ?a' _ m])
      show "cell m j k = overlay b' ?a' j k" if "j < TOTAL_SLOTS" "k < MESSAGE_SIZE" for j k
        using d(10) [OF that] CRead by (simp add: overlay_def m f(2))
      show "producer_bytes b' ?a'" using d(4) producer_bytes_cong [of ?a' a b' b] by (simp add: f(2) m)
      show "consumer_bytes b' ?a'" using d(5) CRead by (simp add: consumer_bytes_def f(2))
      show "used b \<le> used b' + 15" using CRead by (simp add: used_def m f(2) split: producer_pc.split)
    qed (use CRead l f in \<open>simp_all add: consumer_step_def\<close>)
  next
    case (CGot j)
    have j: "j < TOTAL_SLOTS" "ppc a \<noteq> PFound j" using claimed_in_hand(3) [OF d(2) CGot] by simp_all
    note s = slot_cells [OF d(7) j(1) d(9) [OF j(1)]]
    have g: "prefix (cgot b) (slot (shm a) j)" using d(5) CGot by (simp add: consumer_bytes_def)
    then have k: "length (cgot b) \<le> length (slot (shm a) j)" "length (cgot b) < MESSAGE_SIZE"
      using prefix_length_le [OF g] s(1) by simp_all
    let ?c = "(slot (shm a) j @ [NUL]) ! length (cgot b)"
    have "cell m j (length (cgot b)) = ?c"
      using d(10) [OF j(1) k(2)] s(2) [OF k(1)] CGot j(2) by (simp add: overlay_def m)
    then have pk: "peek (j * MESSAGE_SIZE + length (cgot b)) (chan b) = (?c, chan b)"
      using peek_ok [of "chan b" j "length (cgot b)"] l j(1) k(2) by (simp add: m)
    have load: "load_str j a = (slot (shm a) j, a)" by (rule load_ok [OF d(2) j(1)])
    show ?thesis
    proof (cases "length (cgot b) = length (slot (shm a) j)")
      case True
      then have all: "cgot b = slot (shm a) j" using g by (auto simp: prefix_def)
      let ?a' = "a\<lparr>received := received a @ [slot (shm a) j], cpc := CShown j\<rparr>"
      have b': "b' = b\<lparr>chan := ?a'\<lparr>shm := m\<rparr>, cgot := [], cleft := [0..<Suc (length FREE)]\<rparr>"
        using step CGot pk all by (simp add: consumer_byte_def m shm_last del: upt_Suc)
      show ?thesis
      proof (rule followsI [OF sim, of Consumer ?a' _ m])
        show "chan_step Consumer a = Some ?a'" using CGot load by (simp add: consumer_step_def)
        show "cell m i k = overlay b' ?a' i k" if "i < TOTAL_SLOTS" "k < MESSAGE_SIZE" for i k
          using d(10) [OF that] CGot by (auto simp: overlay_def m b')
        show "producer_bytes b' ?a'" using d(4) producer_bytes_cong [of ?a' a b' b] by (simp add: b' m)
        show "used b \<le> used b' + 15" using CGot k(2) by (simp add: used_def m b' MESSAGE_SIZE_def del: upt_Suc split: producer_pc.split)
      qed (use CGot l in \<open>simp_all add: b' consumer_bytes_def del: upt_Suc\<close>, auto)
    next
      case False
      then have lt: "length (cgot b) < length (slot (shm a) j)" using k(1) by simp
      then have c: "?c = slot (shm a) j ! length (cgot b)" by (simp add: nth_append)
      then have "?c \<noteq> NUL" using s(3) lt by (metis nth_mem)
      then have b': "b' = b\<lparr>chan := a\<lparr>shm := m\<rparr>, cgot := cgot b @ [?c]\<rparr>"
        using step CGot pk by (simp add: consumer_byte_def m)
      have "prefix (cgot b @ [?c]) (slot (shm a) j)" unfolding c by (rule append_one_prefix [OF g lt])
      then have "consumer_bytes b' a" using CGot by (simp add: consumer_bytes_def b')
      moreover have "producer_bytes b' a" using d(4) producer_bytes_cong [of a a b' b] by (simp add: b' m)
      moreover have "overlay b' a = overlay b a" by (simp add: overlay_def b' fun_eq_iff)
      ultimately have "sim b' a" using sim by (simp add: sim_def b' m)
      then show ?thesis using CGot by (simp add: follows_def used_def b' m split: producer_pc.split)
    qed
  next
    case (CShown j)
    have j: "j < TOTAL_SLOTS" "ppc a \<noteq> PFound j" using claimed_in_hand(2) [OF d(2) CShown] by simp_all
    have cl: "cgot b = []" "distinct (cleft b)" "set (cleft b) \<subseteq> {..length FREE}"
      using d(5) CShown by (simp_all add: consumer_bytes_def)
    let ?k = "cleft b ! n" and ?left = "remove1 (cleft b ! n) (cleft b)"
    have n: "n < length (cleft b)" using step CShown by (simp add: consumer_byte_def m split: if_splits)
    then have k: "?k \<in> set (cleft b)" by simp
    then have k': "?k \<le> length FREE" "?k < MESSAGE_SIZE" using cl(3) length_FREE(1) by auto
    let ?m = "m[j * MESSAGE_SIZE + ?k := (FREE @ [NUL]) ! ?k]"
    have pk: "poke (j * MESSAGE_SIZE + ?k) ((FREE @ [NUL]) ! ?k) (chan b) = a\<lparr>shm := ?m\<rparr>"
      using poke_ok [of "chan b" j ?k] l j(1) k'(2) by (simp add: m)
    have left: "set ?left = set (cleft b) - {?k}" using cl(2) by simp
    have few: "length ?left = length (cleft b) - 1" "0 < length (cleft b)" "length (cleft b) \<le> Suc (length FREE)" "length FREE = 7"
      using length_remove1_lt [OF k] few_left [OF cl(2,3)] by (simp_all add: FREE_def)
    have cells: "cell ?m i k = (if i = j \<and> k \<le> length FREE \<and> k \<notin> set ?left then (FREE @ [NUL]) ! k
        else if ppc a = PFound i \<and> k \<le> length (message (itr a)) \<and> k \<notin> set (pleft b) then (message (itr a) @ [NUL]) ! k
        else cell (shm a) i k)"
      if "i < TOTAL_SLOTS" "k < MESSAGE_SIZE" for i k
      using cell_update [OF l that j(1) k'(2)] d(10) [OF that] CShown j(2) k'(1) unfolding left by (auto simp: m overlay_def)
    have scan: "producer_bytes b'' a''" if "chan b'' = a''\<lparr>shm := ?m\<rparr>" "pread b'' = pread b" "pleft b'' = pleft b"
      "ppc a'' = ppc a" "itr a'' = itr a" for b'' a''
    proof -
      have "cell ?m i k = (FREE @ [NUL]) ! k" if "cell m i k = (FREE @ [NUL]) ! k" "i < TOTAL_SLOTS" "k \<le> length FREE" for i k
        using cell_update [OF l that(2) _ j(1) k'(2)] that length_FREE(1) by auto
      then show ?thesis
        using d(4) that by (auto simp: producer_bytes_def m split: producer_pc.splits)
    qed
    show ?thesis
    proof (cases "?left = []")
      case False
      then have b': "b' = b\<lparr>chan := a\<lparr>shm := ?m\<rparr>, cleft := ?left\<rparr>"
        using step CShown n pk by (simp add: consumer_byte_def m Let_def)
      have "sim b' a"
      proof (rule simI [OF d(1,3)])
        show "chan b' = a\<lparr>shm := ?m\<rparr>" by (simp add: b')
        show "length ?m = SIZE" using l by simp
        show "cell ?m i k = overlay b' a i k" if "i < TOTAL_SLOTS" "k < MESSAGE_SIZE" for i k
          using cells [OF that] CShown by (simp add: overlay_def b')
        show "producer_bytes b' a" by (rule scan) (simp_all add: b')
        show "consumer_bytes b' a" using CShown cl False left by (auto simp: consumer_bytes_def b')
      qed
      moreover have "used b' = Suc (used b)"
      proof -
        have "length (cleft b) = Suc (length ?left)" "length ?left \<le> length FREE" using few by simp_all
        then show ?thesis using CShown unfolding used_def by (simp add: b' m Suc_diff_le split: producer_pc.split)
      qed
      ultimately show ?thesis by (simp add: follows_def)
    next
      case True
      then have b': "b' = b\<lparr>chan := a\<lparr>cpc := CRead, shm := ?m\<rparr>, cleft := []\<rparr>"
        using step CShown n pk by (simp add: consumer_byte_def m shm_last Let_def)
      obtain m' where m': "store_str j FREE a = a\<lparr>shm := m'\<rparr>"
        "\<And>i k. i < TOTAL_SLOTS \<Longrightarrow> k < MESSAGE_SIZE \<Longrightarrow>
           cell m' i k = (if i = j \<and> k \<le> length FREE then (FREE @ [NUL]) ! k else cell (shm a) i k)"
        by (rule store_cells [OF d(2) j(1) length_FREE]) (rule that)
      let ?a' = "a\<lparr>cpc := CRead, shm := m'\<rparr>"
      show ?thesis
      proof (rule followsI [OF sim, of Consumer ?a' _ ?m])
        show "chan_step Consumer a = Some ?a'" using CShown m'(1) by (simp add: consumer_step_def shm_last)
        show "chan b' = ?a'\<lparr>shm := ?m\<rparr>" by (simp add: b')
        show "length ?m = SIZE" using l by simp
        show "cell ?m i k = overlay b' ?a' i k" if "i < TOTAL_SLOTS" "k < MESSAGE_SIZE" for i k
          using cells [OF that] m'(2) [OF that] True j(2) by (simp add: overlay_def b')
        show "producer_bytes b' ?a'" by (rule scan) (simp_all add: b')
        show "consumer_bytes b' ?a'" using cl(1) by (simp add: consumer_bytes_def b')
        have "length (cleft b) = 1" using few True by (cases "cleft b") simp_all
        then show "used b \<le> used b' + 15" using few(4) CShown unfolding used_def by (simp add: b' m split: producer_pc.split)
      qed
    qed
  qed
qed

lemma bytes_init_sim: "length m = SIZE \<Longrightarrow> sim (bytes_init m) (chan_init m)"
  by (rule simI [OF chan_init_inv chan_init_contents])
    (use mark_free [of m TOTAL_SLOTS] in \<open>simp_all add: bytes_init_def chan_init_def overlay_def producer_bytes_def consumer_bytes_def\<close>)

lemma bytes_follow:
  "exec byte_step b sched = Some b' \<Longrightarrow> sim b a \<Longrightarrow>
     \<exists>sched' a'. exec chan_step a sched' = Some a' \<and> sim b' a' \<and> length sched + used b \<le> 16 * length sched' + used b'"
proof (induction sched arbitrary: b a)
  case (Cons x sched)
  obtain p n where x: "x = (p, n)" by (cases x)
  obtain b1 where b1: "byte_step x b = Some b1" "exec byte_step b1 sched = Some b'" using Cons.prems(1) by (auto split: option.splits)
  have "follows p b a b1" using b1(1) producer_sim [OF Cons.prems(2)] consumer_sim [OF Cons.prems(2)] x by (cases p) auto
  then consider "sim b1 a" "used b1 = Suc (used b)" |
    a1 where "chan_step p a = Some a1" "sim b1 a1" "used b \<le> used b1 + 15" unfolding follows_def by blast
  then show ?case
  proof cases
    case 1
    obtain sched' a' where "exec chan_step a sched' = Some a'" "sim b' a'" "length sched + used b1 \<le> 16 * length sched' + used b'"
      using Cons.IH [OF b1(2) 1(1)] by blast
    then show ?thesis using 1(2) by (intro exI [of _ sched'] exI [of _ a']) simp
  next
    case 2
    obtain sched' a' where "exec chan_step a1 sched' = Some a'" "sim b' a'" "length sched + used b1 \<le> 16 * length sched' + used b'"
      using Cons.IH [OF b1(2) 2(2)] by blast
    then show ?thesis using 2 by (intro exI [of _ "p # sched'"] exI [of _ a']) simp
  qed
qed (auto intro!: exI [of _ "[]"])

lemma used_bound:
  assumes "sim b a"
  shows "used b \<le> 45"
proof -
  note d = simD [OF assms]
  have f: "length FREE = 7" "length (message q) \<le> 15" for q using message(1) [of q] by (simp_all add: FREE_def MESSAGE_SIZE_def)
  have "pread b \<le> 7" using d(4) f(1) by (auto simp: producer_bytes_def split: producer_pc.splits)
  moreover have "length (cgot b) \<le> 15"
  proof (cases "cpc a")
    case (CGot j)
    then have "prefix (cgot b) (slot (shm a) j)" "j < TOTAL_SLOTS"
      using d(5) claimed_in_hand(3) [OF d(2) CGot] by (simp_all add: consumer_bytes_def)
    then show ?thesis using slot_cells(1) [OF d(7) _ d(9), of j] prefix_length_le by (fastforce simp: MESSAGE_SIZE_def)
  qed (use d(5) in \<open>simp_all add: consumer_bytes_def\<close>)
  moreover have "(case ppc (chan b) of PFound i \<Rightarrow> Suc (length (message (itr (chan b)))) - length (pleft b) | _ \<Rightarrow> 0) \<le> 16"
  proof -
    have "Suc (length (message (itr (chan b)))) - length (pleft b) \<le> 16" using f(2) [of "itr (chan b)"] by linarith
    then show ?thesis by (simp split: producer_pc.split)
  qed
  moreover have "(case cpc (chan b) of CShown j \<Rightarrow> Suc (length FREE) - length (cleft b) | _ \<Rightarrow> 0) \<le> 7 + 0"
    using d(5) f(1) sim_fields(2) [OF assms] length_greater_0_conv [of "cleft b"]
    by (auto simp: consumer_bytes_def split: consumer_pc.splits simp del: length_greater_0_conv)
  ultimately show ?thesis unfolding used_def by linarith
qed

section \<open>Runs\<close>

text \<open>
  Every run over bytes is a run over slots with the same messages sent and shown, the same numbers in the FIFO and the
  processes at the same places, and it has at most 16 times as many steps; no access leaves the segment.
\<close>

theorem bytes_refine_slots:
  assumes "length m = SIZE" and "exec byte_step (bytes_init m) sched = Some b"
  shows "\<exists>sched' a. exec chan_step (chan_init m) sched' = Some a \<and> sent (chan b) = sent a \<and> received (chan b) = received a \<and>
     fifo (chan b) = fifo a \<and> ppc (chan b) = ppc a \<and> cpc (chan b) = cpc a \<and> \<not> corrupt (chan b) \<and>
     length sched \<le> 16 * length sched' + 45"
proof -
  obtain sched' a where a: "exec chan_step (chan_init m) sched' = Some a" "sim b a"
    "length sched + used (bytes_init m) \<le> 16 * length sched' + used b"
    using bytes_follow [OF assms(2) bytes_init_sim [OF assms(1)]] by blast
  have "\<not> corrupt a" using simD(2) [OF a(2)] by (simp add: slots_ok_def)
  moreover have "length sched \<le> 16 * length sched' + 45" using a(3) used_bound [OF a(2)] by linarith
  ultimately show ?thesis using a(1) sim_fields [OF a(2)] by metis
qed

text \<open>So the processes that work on bytes always end, and deliver what was sent in order, once and completely.\<close>

theorem bytes_terminate:
  assumes "length m = SIZE" and "exec byte_step (bytes_init m) sched = Some b"
  shows "length sched \<le> 16640109"
proof -
  obtain sched' a where a: "exec chan_step (chan_init m) sched' = Some a" "length sched \<le> 16 * length sched' + 45"
    using bytes_refine_slots [OF assms] by blast
  have "length sched' \<le> 1040004"
    using channel_ends.exec_fuel [OF chan_init_inv [OF assms(1)] a(1)] by (simp add: chan_init_def chan_fuel_def producer_fuel_def)
  then show ?thesis using a(2) by simp
qed

lemma bytes_blocked:
  assumes sim: "sim b a" and "\<forall>x. byte_step x b = None"
  shows "ppc a = PExit \<and> cpc a = CRead \<and> fifo a = []"
proof -
  note d = simD [OF sim]
  note f = sim_fields [OF sim]
  have p: "producer_byte 0 b = None" and c: "consumer_byte 0 b = None"
    using spec [OF assms(2), of "(Producer, 0)"] spec [OF assms(2), of "(Consumer, 0)"] by simp_all
  have "ppc a = PExit"
    using p d(4) by (auto simp: producer_byte_def producer_bytes_def producer_step_def f Let_def
        split: producer_pc.splits if_splits prod.splits)
  moreover have "cpc a = CRead \<and> fifo a = []"
    using c d(5) by (auto simp: consumer_byte_def consumer_bytes_def consumer_step_def f Let_def
        split: consumer_pc.splits if_splits prod.splits list.splits)
  ultimately show ?thesis by blast
qed

theorem bytes_deliver_in_order:
  assumes "length m = SIZE" and "exec byte_step (bytes_init m) sched = Some b"
  shows "prefix (received (chan b)) (sent (chan b)) \<and>
     (\<exists>ks. sent (chan b) = map message ks \<and> sorted_wrt (>) ks \<and> set ks \<subseteq> {0..<1000}) \<and>
     ((\<forall>x. byte_step x b = None) \<longrightarrow> ppc (chan b) = PExit \<and> received (chan b) = sent (chan b))"
proof -
  obtain sched' a where a: "exec chan_step (chan_init m) sched' = Some a" "sim b a"
    using bytes_follow [OF assms(2) bytes_init_sim [OF assms(1)]] by blast
  note f = sim_fields [OF a(2)]
  have inv: "log_ok a" "numbers_ok a" using simD(1) [OF a(2)] by (simp_all add: chan_inv_def)
  obtain ks where "sent a = map message ks" "sorted_wrt (>) ks" "\<And>k. k \<in> set ks \<Longrightarrow> 0 \<le> k \<and> k < 1000 \<and> itr a \<le> k"
    using inv(2) by (rule numbers_okD) (rule that)
  then have "\<exists>ks. sent a = map message ks \<and> sorted_wrt (>) ks \<and> set ks \<subseteq> {0..<1000}" by (intro exI [of _ ks]) auto
  moreover have "received a = sent a" if "cpc a = CRead" "fifo a = []" using inv(1) that by (simp add: log_ok_def)
  moreover have "prefix (received a) (sent a)" using inv(1) by (simp add: log_ok_def)
  ultimately show ?thesis using bytes_blocked [OF a(2)] f by auto
qed

end
