(* ===== verification/IpcOriginals.thy ===== *)
theory IpcOriginals
  imports ShmChannel
begin

text \<open>
  The start of the programs of \<open>ShmChannel\<close>, and the other programs of \<open>ipc-code\<close>: a message in shared memory (\<open>shm-posix-producer-orig.c\<close>,
  \<open>shm-posix-consumer-orig.c\<close>), one through a pipe (\<open>pipe.c\<close>) and one in a datagram of a local
  socket (\<open>socket-client.c\<close> and \<open>socket-server.c\<close>, and the originals they were made from). The answers of
  the system calls are arguments; what a program prints is a list of lines, with its end.
\<close>

text \<open>An exit status, or the release of memory that was never allocated.\<close>

datatype finish = Status int | Bad_free

section \<open>How producer and consumer of ShmChannel start\<close>

text \<open>
  The producer up to its loop: the message and status with which it gives up, or the segment with all slots marked. The
  results of \<open>shm_open\<close>, \<open>ftruncate\<close>, \<open>mkfifo\<close> and \<open>open\<close> are not looked at.
\<close>

definition producer_start :: "bool \<Rightarrow> string \<Rightarrow> (string \<times> int) + string" where
  "producer_start mmap_ok m = (if \<not> mmap_ok then Inl (''Map failed'', -1) else Inr (mark_free TOTAL_SLOTS m))"

text \<open>
  The consumer: it gives up, it runs, or, when the FIFO could not be opened, every \<open>read\<close> fails and it sleeps and tries
  again for ever.
\<close>

datatype consumer_start = Gives_up string int | Sleeps_forever | Ready

definition consumer_begin :: "int \<Rightarrow> bool \<Rightarrow> int \<Rightarrow> consumer_start" where
  "consumer_begin shm_fd mmap_ok fd =
     (if shm_fd = -1 then Gives_up ''shared memory failed'' (-1)
      else if \<not> mmap_ok then Gives_up ''Map failed'' (-1)
      else if fd = -1 then Sleeps_forever
      else Ready)"

text \<open>The producer has started on a segment that held \<open>m\<close>: the state in which the runs of \<open>ShmChannel\<close> begin.\<close>

lemma both_started:
  assumes "producer_start ok m = Inr m'"
  shows "chan_init m = \<lparr>shm = m', fifo = [], itr = 1000, ppc = PLoop, cpc = CRead, sent = [], received = [], corrupt = False\<rparr>"
  using assms by (simp add: producer_start_def chan_init_def split: if_splits)

section \<open>A message in shared memory\<close>

definition message0 :: string where "message0 = ''Studying ''"
definition message1 :: string where "message1 = ''Operating Systems ''"
definition message2 :: string where "message2 = ''Is Fun!''"

text \<open>\<open>sprintf(ptr, "%s", s); ptr += strlen(s)\<close>\<close>

definition put_at :: "string \<Rightarrow> nat \<times> string \<Rightarrow> (nat \<times> string) outcome" where
  "put_at s p =
     (case p of (ptr, m) \<Rightarrow>
        if ptr + length s < length m then Inr (ptr + length s, write_str m ptr s) else Inl OutOfBounds)"

definition producer_orig :: "bool \<Rightarrow> string \<Rightarrow> (string \<times> string list \<times> int) outcome" where
  "producer_orig mmap_ok m =
     (if \<not> mmap_ok then Inr (m, [''Map failed''], -1)
      else seq (put_at message0 (0, m)) (\<lambda>p. seq (put_at message1 p) (\<lambda>p. seq (put_at message2 p) (\<lambda>p.
        Inr (snd p, [], 0)))))"

definition consumer_orig :: "int \<Rightarrow> bool \<Rightarrow> int \<Rightarrow> string \<Rightarrow> (string list \<times> int) outcome" where
  "consumer_orig shm_fd mmap_ok unlink_ret m =
     (if shm_fd = -1 then Inr ([''shared memory failed''], -1)
      else if \<not> mmap_ok then Inr ([''Map failed''], -1)
      else if NUL \<notin> set m then Inl OutOfBounds
      else if unlink_ret = -1 then Inr ([cstr m 0, ''Error removing OS''], -1)
      else Inr ([cstr m 0], 0))"

section \<open>A message through a pipe\<close>

definition pipe_message :: string where "pipe_message = ''Hello from the parent process!'' @ [nl]"

text \<open>
  The child, with what its uncleared buffer held and the number of bytes \<open>read\<close> delivered; the parent has
  written the message with its NUL.
\<close>

definition pipe_child :: "string \<Rightarrow> nat \<Rightarrow> string outcome" where
  "pipe_child junk n =
     (let buffer = take n (pipe_message @ [NUL]) @ drop n junk
      in if NUL \<in> set buffer then Inr (''Child process received: '' @ cstr buffer 0) else Inl OutOfBounds)"

definition pipe_main :: "int \<Rightarrow> int \<Rightarrow> string \<Rightarrow> nat \<Rightarrow> (string list \<times> int) outcome" where
  "pipe_main pipe_ret pid junk n =
     (if pipe_ret = -1 then Inr ([''Pipe creation failed''], 1)
      else if pid = -1 then Inr ([''Fork failed''], 1)
      else if pid = 0 then seq (pipe_child junk n) (\<lambda>l. Inr ([l], 0))
      else Inr ([], 0))"

section \<open>A datagram\<close>

text \<open>
  The client sends the text of a file, up to its first NUL; \<open>None\<close> is a file that cannot be opened. A
  failing \<open>socket\<close> is reported but does not stop it. Result: lines on the terminal, the datagram, the status.
\<close>

definition socket_client :: "int \<Rightarrow> string option \<Rightarrow> bool \<Rightarrow> int \<Rightarrow> string list \<times> string option \<times> int" where
  "socket_client sockfd file malloc_ok n =
     (let errs = (if sockfd < 0 then [''ERROR opening socket''] else []) in
      case file of
        None \<Rightarrow> (errs @ [''ERROR opening file''], None, 1)
      | Some content \<Rightarrow>
          if \<not> malloc_ok then (errs @ [''Memory allocation failed''], None, 1)
          else if n < 0 then (errs @ [''ERROR writing to socket''], None, 0)
          else (errs, Some (cstr (content @ [NUL]) 0), 0))"

text \<open>The original sends one line of its input.\<close>

definition socket_client_orig :: "int \<Rightarrow> string \<Rightarrow> int \<Rightarrow> string list \<times> string option \<times> int" where
  "socket_client_orig sockfd inp n =
     (if sockfd < 0 then ([''ERROR opening socket''], None, 0)
      else
        (let lines = [''Please enter the message: '', ''Sending data...''];
             buffer = fill_buffer 256 (fst (fgets 254 inp))
         in if n < 0 then (lines @ [''ERROR writing to socket''], None, 0) else (lines, Some (cstr buffer 0), 0)))"

text \<open>The original server: \<open>None\<close> is a failing \<open>recvfrom\<close>, which takes at most 255 bytes of a datagram.\<close>

definition socket_server_orig :: "int \<Rightarrow> int \<Rightarrow> string option \<Rightarrow> string list \<times> finish" where
  "socket_server_orig sockfd bind_ret dgram =
     (if sockfd < 0 then ([''ERROR opening socket''], Status 1)
      else if bind_ret < 0 then ([''ERROR on binding''], Status 1)
      else
        (case dgram of
           None \<Rightarrow> ([''Server ready'', ''ERROR reading from socket''], Status 1)
         | Some d \<Rightarrow> ([''Server ready'', ''Here is the message: '' @ cstr (fill_buffer 256 (take 255 d)) 0], Status 0)))"

text \<open>The other server does the same and then calls \<open>free(buffer)\<close> on its local array.\<close>

definition socket_server :: "int \<Rightarrow> int \<Rightarrow> string option \<Rightarrow> string list \<times> finish" where
  "socket_server sockfd bind_ret dgram =
     (if sockfd < 0 then ([''ERROR opening socket''], Status 1)
      else if bind_ret < 0 then ([''ERROR on binding''], Status 1)
      else
        (case dgram of
           None \<Rightarrow> ([''Server ready'', ''ERROR reading from socket''], Status 1)
         | Some d \<Rightarrow> ([''Server ready'', ''Here is the message: '' @ cstr (fill_buffer 256 (take 255 d)) 0], Bad_free)))"

section \<open>Properties\<close>

text \<open>A string written over the NUL of the one before continues it.\<close>

lemma put_at_text:
  assumes m: "length m = SIZE" "take ptr m = t" "NUL \<notin> set t" "ptr \<le> SIZE" and s: "NUL \<notin> set s" "ptr + length s < SIZE"
  shows "\<exists>m'. put_at s (ptr, m) = Inr (ptr + length s, m') \<and> length m' = SIZE \<and> take (ptr + length s) m' = t @ s \<and>
    cstr m' 0 = t @ s \<and> NUL \<in> set m'"
proof -
  have t: "length t = ptr" using m(1,2,4) by auto
  let ?m = "write_str m ptr s"
  have w: "?m = t @ s @ NUL # drop (ptr + length s + 1) m" using m(2) by (simp add: write_str_def)
  have "cstr ?m 0 = t @ s" using m(3) s(1) unfolding w by (auto simp: cstr_def takeWhile_append)
  moreover have "take (ptr + length s) ?m = t @ s" "NUL \<in> set ?m" unfolding w using t by simp_all
  moreover have "length ?m = SIZE" using s(2) m(1) by simp
  ultimately show ?thesis using s(2) m(1) by (simp add: put_at_def)
qed

text \<open>
  What the original consumer shows is what the original producer wrote, whatever the 4096 bytes of
  the segment held before: the three pieces, put one after the other over each other's NULs, are read as one string.
\<close>

theorem shm_message_roundtrip:
  assumes "length m = SIZE" and "shm_fd \<noteq> -1"
  shows "\<exists>m'. producer_orig True m = Inr (m', [], 0) \<and>
     consumer_orig shm_fd True 0 m' = Inr ([''Studying Operating Systems Is Fun!''], 0)"
proof -
  have n: "NUL \<notin> set message0" "NUL \<notin> set message1" "NUL \<notin> set message2"
    and l: "length message0 = 9" "length message1 = 18" "length message2 = 7"
    by (simp_all add: message0_def message1_def message2_def)
  obtain m1 where m1: "put_at message0 (0, m) = Inr (9, m1)" "length m1 = SIZE" "take 9 m1 = message0"
    using put_at_text [OF assms(1), of 0 "[]" message0] n(1) l(1) by (auto simp: SIZE_def)
  obtain m2 where m2: "put_at message1 (9, m1) = Inr (27, m2)" "length m2 = SIZE" "take 27 m2 = message0 @ message1"
    using put_at_text [OF m1(2,3), of message1] n l by (auto simp: SIZE_def)
  obtain m3 where m3: "put_at message2 (27, m2) = Inr (34, m3)" "cstr m3 0 = (message0 @ message1) @ message2" "NUL \<in> set m3"
    using put_at_text [OF m2(2,3), of message2] n l by (auto simp: SIZE_def)
  have "(message0 @ message1) @ message2 = ''Studying Operating Systems Is Fun!''"
    by (simp add: message0_def message1_def message2_def)
  then show ?thesis using m1(1) m2(1) m3 assms(2) by (simp add: producer_orig_def consumer_orig_def)
qed

theorem shm_message_roundtrip_witness:
  "\<exists>m'. producer_orig True (replicate SIZE CHR ''x'') = Inr (m', [], 0) \<and>
     consumer_orig 3 True 0 m' = Inr ([''Studying Operating Systems Is Fun!''], 0)"
  by (rule shm_message_roundtrip) simp_all

text \<open>
  The server shows the text of the client's file as far as it fits: up to the first NUL and at most 255
  characters, silently cut there. After that it releases memory it never allocated; the original it was made from
  ends with status 0.
\<close>

theorem datagram_shows_file:
  assumes "0 \<le> sockfd" and "0 \<le> bind_ret" and "0 \<le> n"
    and "socket_client sockfd (Some content) True n = (errs, dgram, r)"
  shows "socket_server sockfd bind_ret dgram =
       ([''Server ready'', ''Here is the message: '' @ take 255 (takeWhile (\<lambda>c. c \<noteq> NUL) content)], Bad_free) \<and>
     snd (socket_server_orig sockfd bind_ret dgram) = Status 0 \<and> errs = [] \<and> r = 0"
proof -
  let ?t = "takeWhile (\<lambda>c. c \<noteq> NUL) content"
  have "cstr (content @ [NUL]) 0 = ?t" using takeWhile_append_stop [of "[NUL]" "\<lambda>c. c \<noteq> NUL" content] by (simp add: cstr_def)
  then have d: "dgram = Some ?t" "errs = []" "r = 0" using assms(1,3,4) by (auto simp: socket_client_def)
  have "NUL \<notin> set ?t" by (auto dest: set_takeWhileD)
  then have "NUL \<notin> set (take 255 ?t)" by (meson in_set_takeD)
  then have "cstr (fill_buffer 256 (take 255 ?t)) 0 = take 255 ?t" by (simp add: cstr_fill_buffer)
  then show ?thesis using assms(1,2) d by (simp add: socket_server_def socket_server_orig_def)
qed

theorem datagram_shows_file_witness:
  "socket_server 3 0 (fst (snd (socket_client 3 (Some ''hello'') True 5))) =
     ([''Server ready'', ''Here is the message: hello''], Bad_free)"
proof -
  have "socket_client 3 (Some ''hello'') True 5 = ([], Some ''hello'', 0)" by (simp add: socket_client_def cstr_def)
  from datagram_shows_file [OF _ _ _ this, of 0] this show ?thesis by simp
qed

text \<open>The child shows the message when \<open>read\<close> delivers it whole; a shorter read runs into the uncleared buffer.\<close>

lemma pipe_child_whole: "pipe_child junk 32 = Inr (''Child process received: '' @ pipe_message)"
  by (simp add: pipe_child_def pipe_message_def cstr_def)

lemma pipe_child_nothing: "NUL \<notin> set junk \<Longrightarrow> pipe_child junk 0 = Inl OutOfBounds"
  by (simp add: pipe_child_def)

end
