(* ===== verification/ClientMemory.thy ===== *)
theory ClientMemory
  imports CString
begin

text \<open>
  The memory of a program that uses an allocator, byte by byte, and the loops with which the tests of
  \<open>malloc-code\<close> fill and check their blocks. \<open>ok a\<close> says that address \<open>a\<close> is mapped; an access elsewhere
  is undefined.
\<close>

type_synonym memory = "addr \<Rightarrow> char"

section \<open>Accesses\<close>

definition store_byte :: "(addr \<Rightarrow> bool) \<Rightarrow> addr \<Rightarrow> char \<Rightarrow> memory \<Rightarrow> memory outcome" where
  "store_byte ok a c m = (if ok a then Inr (m(a := c)) else Inl OutOfBounds)"

definition load_byte :: "(addr \<Rightarrow> bool) \<Rightarrow> addr \<Rightarrow> memory \<Rightarrow> char outcome" where
  "load_byte ok a m = (if ok a then Inr (m a) else Inl OutOfBounds)"

text \<open>One round \<open>p[i] = c; q[i] = d; ...\<close> and the loop over \<open>i\<close>, with the number of rounds left.\<close>

fun store_round :: "(addr \<Rightarrow> bool) \<Rightarrow> (addr \<times> char) list \<Rightarrow> nat \<Rightarrow> memory \<Rightarrow> memory outcome" where
  "store_round ok [] i m = Inr m"
| "store_round ok ((p, c) # pcs) i m = seq (store_byte ok (p + int i) c m) (store_round ok pcs i)"

fun store_loop :: "(addr \<Rightarrow> bool) \<Rightarrow> (addr \<times> char) list \<Rightarrow> nat \<Rightarrow> nat \<Rightarrow> memory \<Rightarrow> memory outcome" where
  "store_loop ok pcs i 0 m = Inr m"
| "store_loop ok pcs i (Suc k) m = seq (store_round ok pcs i m) (store_loop ok pcs (Suc i) k)"

text \<open>\<open>strcpy(p, s)\<close>\<close>

fun strcpy :: "(addr \<Rightarrow> bool) \<Rightarrow> addr \<Rightarrow> string \<Rightarrow> memory \<Rightarrow> memory outcome" where
  "strcpy ok p [] m = store_byte ok p NUL m"
| "strcpy ok p (c # s) m = seq (store_byte ok p c m) (strcpy ok (p + 1) s)"

text \<open>Is \<open>strcmp(s, p)\<close> zero? \<open>s\<close> is an array of the program's own, with its NUL.\<close>

fun strcmp_eq :: "(addr \<Rightarrow> bool) \<Rightarrow> string \<Rightarrow> addr \<Rightarrow> memory \<Rightarrow> bool outcome" where
  "strcmp_eq ok [] p m = Inl OutOfBounds"
| "strcmp_eq ok (c # s) p m =
     seq (load_byte ok p m) (\<lambda>d. if c \<noteq> d then Inr False else if c = NUL then Inr True else strcmp_eq ok s (p + 1) m)"

text \<open>\<open>for (...) if (p[j] != c) mismatch = 1;\<close> with the number of bytes left\<close>

fun check_loop :: "(addr \<Rightarrow> bool) \<Rightarrow> addr \<Rightarrow> char \<Rightarrow> memory \<Rightarrow> nat \<Rightarrow> nat \<Rightarrow> bool \<Rightarrow> bool outcome" where
  "check_loop ok p c m j 0 mismatch = Inr mismatch"
| "check_loop ok p c m j (Suc k) mismatch =
     seq (load_byte ok (p + int j) m) (\<lambda>x. check_loop ok p c m (Suc j) k (if x \<noteq> c then True else mismatch))"

section \<open>What the loops do\<close>

definition in_block :: "addr \<times> int \<Rightarrow> addr \<Rightarrow> bool" where
  "in_block b a \<longleftrightarrow> fst b \<le> a \<and> a < fst b + snd b"

lemma apart_in_block: "apart b c \<Longrightarrow> in_block b a \<Longrightarrow> \<not> in_block c a"
  by (auto simp: apart_def in_block_def)

text \<open>The blocks are given by their addresses; they lie apart when they have \<open>n\<close> bytes each.\<close>

definition spaced :: "nat \<Rightarrow> addr list \<Rightarrow> bool" where
  "spaced n ps \<longleftrightarrow> distinct ps \<and> (\<forall>p\<in>set ps. \<forall>q\<in>set ps. p = q \<or> apart (p, int n) (q, int n))"

definition all_bytes :: "memory \<Rightarrow> addr \<Rightarrow> nat \<Rightarrow> char \<Rightarrow> bool" where
  "all_bytes m p n c \<longleftrightarrow> (\<forall>j<n. m (p + int j) = c)"

definition mapped_block :: "(addr \<Rightarrow> bool) \<Rightarrow> addr \<times> int \<Rightarrow> bool" where
  "mapped_block ok b \<longleftrightarrow> (\<forall>a. in_block b a \<longrightarrow> ok a)"

lemma mapped_block_at: "mapped_block ok (p, int n) \<Longrightarrow> j < n \<Longrightarrow> ok (p + int j)"
  by (simp add: mapped_block_def in_block_def)

lemma spaced_Cons: "spaced n (p # ps) \<Longrightarrow> spaced n ps"
  by (simp add: spaced_def)

lemma spaced_at:
  assumes "spaced n ps" "p \<in> set ps" "q \<in> set ps" "i < n" "j < n" "p + int i = q + int j"
  shows "p = q \<and> i = j"
  using assms unfolding spaced_def apart_def by fastforce

text \<open>Cells \<open>l\<close> to \<open>h\<close> of each block hold its byte, and nothing else has changed.\<close>

definition stored :: "(addr \<times> char) list \<Rightarrow> nat \<Rightarrow> nat \<Rightarrow> memory \<Rightarrow> memory \<Rightarrow> bool" where
  "stored pcs l h m m' \<longleftrightarrow>
     (\<forall>p c. (p, c) \<in> set pcs \<longrightarrow> (\<forall>j. l \<le> j \<longrightarrow> j < h \<longrightarrow> m' (p + int j) = c)) \<and>
     (\<forall>a. (\<forall>p\<in>set (map fst pcs). \<forall>j. l \<le> j \<longrightarrow> j < h \<longrightarrow> a \<noteq> p + int j) \<longrightarrow> m' a = m a)"

lemma storedI:
  assumes "\<And>p c j. (p, c) \<in> set pcs \<Longrightarrow> l \<le> j \<Longrightarrow> j < h \<Longrightarrow> m' (p + int j) = c"
    "\<And>a. (\<And>p j. p \<in> set (map fst pcs) \<Longrightarrow> l \<le> j \<Longrightarrow> j < h \<Longrightarrow> a \<noteq> p + int j) \<Longrightarrow> m' a = m a"
  shows "stored pcs l h m m'"
  unfolding stored_def using assms by blast

lemma storedD:
  assumes "stored pcs l h m m'"
  shows "(p, c) \<in> set pcs \<Longrightarrow> l \<le> j \<Longrightarrow> j < h \<Longrightarrow> m' (p + int j) = c"
    "(\<And>p j. p \<in> set (map fst pcs) \<Longrightarrow> l \<le> j \<Longrightarrow> j < h \<Longrightarrow> a \<noteq> p + int j) \<Longrightarrow> m' a = m a"
  using assms unfolding stored_def by blast+

lemma store_round_run:
  assumes "\<And>p c. (p, c) \<in> set pcs \<Longrightarrow> ok (p + int i)" "distinct (map fst pcs)"
  shows "\<exists>m'. store_round ok pcs i m = Inr m' \<and> stored pcs i (Suc i) m m'"
  using assms
proof (induction pcs arbitrary: m)
  case Nil
  then show ?case by (simp add: stored_def)
next
  case (Cons x pcs)
  obtain p c where x: "x = (p, c)" by (cases x)
  let ?m = "m(p + int i := c)"
  have ok: "store_byte ok (p + int i) c m = Inr ?m" using Cons.prems(1) [of p c] x by (simp add: store_byte_def)
  have "\<exists>m'. store_round ok pcs i ?m = Inr m' \<and> stored pcs i (Suc i) ?m m'"
    by (rule Cons.IH) (use Cons.prems in auto)
  then obtain m' where m': "store_round ok pcs i ?m = Inr m'" "stored pcs i (Suc i) ?m m'" by blast
  have p: "p \<notin> set (map fst pcs)" using Cons.prems(2) x by simp
  have "stored (x # pcs) i (Suc i) m m'"
  proof (rule storedI)
    fix q d j assume q: "(q, d) \<in> set (x # pcs)" "i \<le> j" "j < Suc i"
    then have j: "j = i" by simp
    show "m' (q + int j) = d"
    proof (cases "(q, d) = x")
      case True
      have "m' (p + int i) = ?m (p + int i)"
        by (rule storedD(2) [OF m'(2)]) (use p in \<open>auto simp: le_less_Suc_eq\<close>)
      then show ?thesis using True x j by simp
    next
      case False
      then show ?thesis using storedD(1) [OF m'(2), of q d j] q by simp
    qed
  next
    fix a assume a: "\<And>q j. q \<in> set (map fst (x # pcs)) \<Longrightarrow> i \<le> j \<Longrightarrow> j < Suc i \<Longrightarrow> a \<noteq> q + int j"
    have "m' a = ?m a" by (rule storedD(2) [OF m'(2)]) (use a in auto)
    then show "m' a = m a" using a [of p i] x by simp
  qed
  then show ?case using ok m'(1) x by auto
qed

lemma store_loop_run:
  assumes "\<And>p c. (p, c) \<in> set pcs \<Longrightarrow> mapped_block ok (p, int n)" "spaced n (map fst pcs)" "i + k = n"
  shows "\<exists>m'. store_loop ok pcs i k m = Inr m' \<and> stored pcs i n m m'"
  using assms(3)
proof (induction k arbitrary: i m)
  case (Suc k)
  have i: "i < n" using Suc.prems by simp
  have "ok (p + int i)" if "(p, c) \<in> set pcs" for p c using mapped_block_at [OF assms(1) [OF that] i] .
  then obtain m1 where m1: "store_round ok pcs i m = Inr m1" "stored pcs i (Suc i) m m1"
    using store_round_run [of pcs ok i m] assms(2) by (auto simp: spaced_def)
  obtain m' where m': "store_loop ok pcs (Suc i) k m1 = Inr m'" "stored pcs (Suc i) n m1 m'"
    using Suc.IH [of "Suc i" m1] Suc.prems by auto
  have "stored pcs i n m m'"
  proof (rule storedI)
    fix p c j assume p: "(p, c) \<in> set pcs" and j: "i \<le> j" "j < n"
    show "m' (p + int j) = c"
    proof (cases "j = i")
      case True
      have "m' (p + int i) = m1 (p + int i)"
      proof (rule storedD(2) [OF m'(2)], rule notI)
        fix q l assume "q \<in> set (map fst pcs)" "Suc i \<le> l" "l < n" "p + int i = q + int l"
        moreover have "p \<in> set (map fst pcs)" using p by force
        ultimately show False using spaced_at [OF assms(2), of p q i l] i by simp
      qed
      then show ?thesis using True storedD(1) [OF m1(2) p] by simp
    next
      case False
      then show ?thesis using storedD(1) [OF m'(2) p] j by simp
    qed
  next
    fix a assume a: "\<And>p j. p \<in> set (map fst pcs) \<Longrightarrow> i \<le> j \<Longrightarrow> j < n \<Longrightarrow> a \<noteq> p + int j"
    have "m' a = m1 a" by (rule storedD(2) [OF m'(2)]) (use a in auto)
    also have "\<dots> = m a" by (rule storedD(2) [OF m1(2)]) (use a i in auto)
    finally show "m' a = m a" .
  qed
  then show ?case using m1(1) m'(1) by auto
qed (simp add: stored_def)

text \<open>Blocks that lie apart are filled, each with its own byte, and nothing else changes.\<close>

lemma store_loop_fills:
  assumes "\<And>p c. (p, c) \<in> set pcs \<Longrightarrow> mapped_block ok (p, int n)" "spaced n (map fst pcs)"
  obtains m' where "store_loop ok pcs 0 n m = Inr m'" "\<forall>p c. (p, c) \<in> set pcs \<longrightarrow> all_bytes m' p n c"
    "\<forall>a. (\<forall>p\<in>set (map fst pcs). \<not> in_block (p, int n) a) \<longrightarrow> m' a = m a"
proof -
  obtain m' where m': "store_loop ok pcs 0 n m = Inr m'" "stored pcs 0 n m m'"
    using store_loop_run [of pcs ok n 0 n m] assms by auto
  have "\<forall>p c. (p, c) \<in> set pcs \<longrightarrow> all_bytes m' p n c" using storedD(1) [OF m'(2)] by (simp add: all_bytes_def)
  moreover have "m' a = m a" if a: "\<forall>p\<in>set (map fst pcs). \<not> in_block (p, int n) a" for a
    by (rule storedD(2) [OF m'(2)]) (use a in \<open>fastforce simp: in_block_def\<close>)
  ultimately show ?thesis using that m'(1) by blast
qed

lemma strcpy_run:
  assumes "\<And>j. j \<le> length s \<Longrightarrow> ok (p + int j)"
  obtains m' where "strcpy ok p s m = Inr m'" "\<forall>j<length s. m' (p + int j) = s ! j"
    "m' (p + int (length s)) = NUL" "\<forall>a<p. m' a = m a"
proof -
  have "\<exists>m'. strcpy ok p s m = Inr m' \<and> (\<forall>j<length s. m' (p + int j) = s ! j) \<and> m' (p + int (length s)) = NUL \<and>
      (\<forall>a<p. m' a = m a)"
    using assms
  proof (induction s arbitrary: p m)
    case Nil
    have "ok p" using Nil [of 0] by simp
    then show ?case by (intro exI [of _ "m(p := NUL)"]) (auto simp: store_byte_def)
  next
    case (Cons c s)
    have "ok (p + 1 + int j)" if "j \<le> length s" for j using Cons.prems [of "Suc j"] that by (simp add: algebra_simps)
    from Cons.IH [of "p + 1" "m(p := c)", OF this] obtain m' where
      m': "strcpy ok (p + 1) s (m(p := c)) = Inr m'" "\<forall>j<length s. m' (p + 1 + int j) = s ! j"
        "m' (p + 1 + int (length s)) = NUL" "\<forall>a<p + 1. m' a = (m(p := c)) a" by blast
    have "m' (p + int j) = (c # s) ! j" if "j < Suc (length s)" for j
    proof (cases j)
      case (Suc i)
      then show ?thesis using m'(2) that by (simp add: algebra_simps)
    qed (use m'(4) in simp)
    with m' Cons.prems [of 0] show ?case by (intro exI [of _ m']) (auto simp: store_byte_def algebra_simps)
  qed
  then show ?thesis using that by blast
qed

lemma strcmp_eq_run:
  assumes "NUL \<notin> set s" "\<And>j. j < length s \<Longrightarrow> m (p + int j) = s ! j" "m (p + int (length s)) = NUL"
    "\<And>j. j \<le> length s \<Longrightarrow> ok (p + int j)"
  shows "strcmp_eq ok (s @ [NUL]) p m = Inr True"
  using assms
proof (induction s arbitrary: p)
  case Nil
  then show ?case by (simp add: load_byte_def)
next
  case (Cons c s)
  have "strcmp_eq ok (s @ [NUL]) (p + 1) m = Inr True"
  proof (rule Cons.IH)
    show "m (p + 1 + int j) = s ! j" if "j < length s" for j
      using Cons.prems(2) [of "Suc j"] that by (simp add: algebra_simps)
    show "ok (p + 1 + int j)" if "j \<le> length s" for j
      using Cons.prems(4) [of "Suc j"] that by (simp add: algebra_simps)
  qed (use Cons.prems in \<open>simp_all add: algebra_simps\<close>)
  then show ?case using Cons.prems(1) Cons.prems(2) [of 0] Cons.prems(4) [of 0] by (simp add: load_byte_def)
qed

lemma check_loop_run:
  assumes "mapped_block ok (p, int n)" "all_bytes m p n c"
  shows "j + k = n \<Longrightarrow> check_loop ok p c m j k mismatch = Inr mismatch"
proof (induction k arbitrary: j mismatch)
  case (Suc k)
  then have "ok (p + int j)" "m (p + int j) = c" using assms(2) mapped_block_at [OF assms(1)] by (simp_all add: all_bytes_def)
  then show ?case using Suc by (simp add: load_byte_def)
qed simp

lemma store_loop_fills1:
  assumes "mapped_block ok (p, int n)"
  obtains m' where "store_loop ok [(p, c)] 0 n m = Inr m'" "all_bytes m' p n c"
    "\<forall>a. \<not> in_block (p, int n) a \<longrightarrow> m' a = m a"
proof -
  have b: "\<And>q d. (q, d) \<in> set [(p, c)] \<Longrightarrow> mapped_block ok (q, int n)" "spaced n (map fst [(p, c)])"
    using assms by (simp_all add: spaced_def)
  obtain m' where "store_loop ok [(p, c)] 0 n m = Inr m'" "\<forall>q d. (q, d) \<in> set [(p, c)] \<longrightarrow> all_bytes m' q n d"
    "\<forall>a. (\<forall>q\<in>set (map fst [(p, c)]). \<not> in_block (q, int n) a) \<longrightarrow> m' a = m a"
    by (rule store_loop_fills [of "[(p, c)]" ok n m, OF b])
  then show ?thesis using that [of m'] by simp
qed

text \<open>
  The strings the tests write, \<open>n\<close> times the same character and a NUL, compare equal to the ones they
  keep.
\<close>

definition own_string :: "nat \<Rightarrow> char \<Rightarrow> string" where
  "own_string n c = replicate n c @ [NUL]"

lemma spaced_less: "spaced n ps \<Longrightarrow> m \<le> n \<Longrightarrow> spaced m ps"
  unfolding spaced_def apart_def by fastforce

lemma fill_and_compare:
  assumes blocks: "\<And>p. p \<in> set (map fst pcs) \<Longrightarrow> mapped_block ok (p, int (Suc n))" "spaced (Suc n) (map fst pcs)"
    and chars: "\<forall>x\<in>set pcs. snd x \<noteq> NUL"
    and ends: "set (map fst zs) = set (map fst pcs)" "distinct (map fst zs)" "\<forall>x\<in>set zs. snd x = NUL"
  obtains m1 m2 where "store_loop ok pcs 0 n m = Inr m1" "store_round ok zs n m1 = Inr m2"
    "\<forall>p c. (p, c) \<in> set pcs \<longrightarrow> strcmp_eq ok (own_string n c) p m2 = Inr True"
proof -
  have at: "ok (p + int j)" if "p \<in> set (map fst pcs)" "j \<le> n" for p j
    using mapped_block_at [OF blocks(1) [OF that(1)]] that(2) by simp
  have "mapped_block ok (p, int n)" if "(p, c) \<in> set pcs" for p c
    unfolding mapped_block_def
  proof (intro allI impI)
    fix a assume a: "in_block (p, int n) a"
    then have "ok (p + int (nat (a - p)))" using that by (intro at) (force simp: in_block_def)+
    then show "ok a" using a by (simp add: in_block_def)
  qed
  then obtain m1 where m1: "store_loop ok pcs 0 n m = Inr m1" "stored pcs 0 n m m1"
    using store_loop_run [of pcs ok n 0 n m] spaced_less [OF blocks(2)] by auto
  have "\<exists>m2. store_round ok zs n m1 = Inr m2 \<and> stored zs n (Suc n) m1 m2"
  proof (rule store_round_run [OF _ ends(2)])
    fix p c assume "(p, c) \<in> set zs"
    then have "p \<in> set (map fst pcs)" unfolding ends(1) [symmetric] by force
    then show "ok (p + int n)" by (rule at) simp
  qed
  then obtain m2 where m2: "store_round ok zs n m1 = Inr m2" "stored zs n (Suc n) m1 m2" by blast
  have "strcmp_eq ok (own_string n c) p m2 = Inr True" if p: "(p, c) \<in> set pcs" for p c
    unfolding own_string_def
  proof (rule strcmp_eq_run)
    have p': "p \<in> set (map fst pcs)" using p by force
    show "NUL \<notin> set (replicate n c)" using chars p by force
    show "ok (p + int j)" if "j \<le> length (replicate n c)" for j using at [OF p'] that by simp
    show "m2 (p + int (length (replicate n c))) = NUL"
    proof -
      obtain z where z: "(p, z) \<in> set zs" using p' unfolding ends(1) [symmetric] by force
      then have "z = NUL" using ends(3) by force
      then show ?thesis using storedD(1) [OF m2(2) z, of n] by simp
    qed
    show "m2 (p + int j) = replicate n c ! j" if "j < length (replicate n c)" for j
    proof -
      have j: "j < n" using that by simp
      have "m2 (p + int j) = m1 (p + int j)"
      proof (rule storedD(2) [OF m2(2)], rule notI)
        fix q l assume "q \<in> set (map fst zs)" "n \<le> l" "l < Suc n" "p + int j = q + int l"
        then show False using spaced_at [OF blocks(2) p', of q j l] j ends(1) by simp
      qed
      then show ?thesis using storedD(1) [OF m1(2) p, of j] j by simp
    qed
  qed
  then show ?thesis using that m1(1) m2(1) by blast
qed

end
