(* ===== verification/TestAlloc.thy ===== *)
theory TestAlloc
  imports Alloc ClientMemory
begin

text \<open>
  \<open>malloc-code/test_alloc.c\<close>: the test of the one-page allocator. It fills the blocks it obtains and
  compares them with strings of its own; freeing and asking again shows that chunks are reused and
  merged. \<open>alloc_test\<close> holds the allocator's globals, the bytes of the page and the lines printed.
\<close>

section \<open>The program\<close>

text \<open>
  A line on the terminal, without its newline; a failure report of the numbered test, whose numbers
  are left out; and what \<open>dealloc\<close> prints when it refuses a pointer.
\<close>

datatype test_line = Line string | Failed nat | Refused dealloc_msg

record alloc_test =
  heap :: alloc_state
  mem :: memory
  shown :: "test_line list"

definition page_mapped :: "alloc_state \<Rightarrow> addr \<Rightarrow> bool" where
  "page_mapped s a \<longleftrightarrow> mapped_page s \<noteq> NULL \<and> mapped_page s \<le> a \<and> a < mapped_page s + PAGESIZE"

definition say :: "test_line \<Rightarrow> alloc_test \<Rightarrow> alloc_test" where
  "say l st = st\<lparr>shown := shown st @ [l]\<rparr>"

definition t_alloc :: "int \<Rightarrow> alloc_test \<Rightarrow> alloc_test \<times> addr" where
  "t_alloc n st = (let (h, p) = alloc n (heap st) in (st\<lparr>heap := h\<rparr>, p))"

definition t_dealloc :: "addr \<Rightarrow> alloc_test \<Rightarrow> alloc_test" where
  "t_dealloc p st =
     (let (h, r) = dealloc p (heap st); st = st\<lparr>heap := h\<rparr>
      in case r of None \<Rightarrow> st | Some e \<Rightarrow> say (Refused e) st)"

definition with_mem :: "memory outcome \<Rightarrow> alloc_test \<Rightarrow> alloc_test outcome" where
  "with_mem r st = seq r (\<lambda>m. Inr (st\<lparr>mem := m\<rparr>))"

text \<open>\<open>strcmp(s, p) == 0 && strcmp(t, q) == 0 && ...\<close>\<close>

fun all_equal :: "(addr \<Rightarrow> bool) \<Rightarrow> (string \<times> addr) list \<Rightarrow> memory \<Rightarrow> bool outcome" where
  "all_equal ok [] m = Inr True"
| "all_equal ok ((s, p) # sps) m = seq (strcmp_eq ok s p m) (\<lambda>e. if e then all_equal ok sps m else Inr False)"

text \<open>
  The loop \<open>for (i = 0; i < n; i++) p[i] = c\<close>, for all blocks of \<open>pcs\<close> together, the NULs \<open>p[n] = '\0'\<close>,
  assigned from the right, and the comparison with the test's own strings.
\<close>

definition fill_compare :: "(addr \<times> char) list \<Rightarrow> nat \<Rightarrow> alloc_test \<Rightarrow> (alloc_test \<times> bool) outcome" where
  "fill_compare pcs n st =
     seq (with_mem (store_loop (page_mapped (heap st)) pcs 0 n (mem st)) st) (\<lambda>st.
     seq (with_mem (store_round (page_mapped (heap st)) (rev (map (\<lambda>(p, c). (p, NUL)) pcs)) n (mem st)) st) (\<lambda>st.
     seq (all_equal (page_mapped (heap st)) (map (\<lambda>(p, c). (own_string n c, p)) pcs) (mem st)) (\<lambda>e. Inr (st, e))))"

definition verdict :: "string \<Rightarrow> test_line \<Rightarrow> alloc_test \<times> bool \<Rightarrow> alloc_test" where
  "verdict good bad r = say (if snd r then Line good else bad) (fst r)"

definition elementary :: "alloc_test \<Rightarrow> (alloc_test \<times> bool) outcome" where
  "elementary st =
     (let (st, str) = t_alloc 512 st; (st, str2) = t_alloc 512 st in
      if str = NULL \<or> str2 = NULL then Inr (say (Line ''alloc failed'') st, False)
      else
        seq (with_mem (strcpy (page_mapped (heap st)) str ''Hello, world!'' (mem st)) st) (\<lambda>st.
        seq (strcmp_eq (page_mapped (heap st)) (''Hello, world!'' @ [NUL]) str (mem st)) (\<lambda>e.
          let st = say (Line (if e then ''Hello, world! test passed'' else ''Hello, world! test failed'')) st;
              st = t_dealloc str2 (t_dealloc str st)
          in Inr (say (Line ''Starting comprehensive tests (see details in code)'') (say (Line ''Elementary tests passed'') st),
                  True))))"

definition test1 :: "alloc_test \<Rightarrow> (alloc_test \<times> addr \<times> addr) outcome" where
  "test1 st =
     (let (st, strA) = t_alloc 1024 st; (st, strB) = t_alloc 1024 st;
          (st, strC) = t_alloc 1024 st; (st, strD) = t_alloc 1024 st in
      seq (fill_compare [(strA, CHR ''a''), (strB, CHR ''b''), (strC, CHR ''c''), (strD, CHR ''d'')] 1023 st)
        (\<lambda>r. Inr (verdict ''Test 1 passed: allocated 4 chunks of 1KB each'' (Failed 1) r, strB, strC)))"

definition test2 :: "addr \<Rightarrow> alloc_test \<Rightarrow> (alloc_test \<times> addr) outcome" where
  "test2 strC st =
     (let st = t_dealloc strC st; (st, strX) = t_alloc 1024 st in
      seq (fill_compare [(strX, CHR ''x'')] 1023 st)
        (\<lambda>r. Inr (verdict ''Test 2 passed: dealloc and realloc worked'' (Failed 2) r, strX)))"

definition test3 :: "addr \<Rightarrow> alloc_test \<Rightarrow> (alloc_test \<times> addr \<times> addr) outcome" where
  "test3 strB st =
     (let st = t_dealloc strB st; (st, strY) = t_alloc 512 st; (st, strZ) = t_alloc 512 st in
      seq (fill_compare [(strY, CHR ''y''), (strZ, CHR ''z'')] 511 st)
        (\<lambda>r. Inr (verdict ''Test 3 passed: dealloc and smaller realloc worked'' (Failed 3) r, strY, strZ)))"

definition test4 :: "addr \<Rightarrow> addr \<Rightarrow> alloc_test \<Rightarrow> (alloc_test \<times> addr) outcome" where
  "test4 strY strZ st =
     (let st = t_dealloc strY (t_dealloc strZ st); (st, strY) = t_alloc 1024 st in
      seq (fill_compare [(strY, CHR ''x'')] 1023 st)
        (\<lambda>r. Inr (verdict ''Test 4 passed: merge worked'' (Failed 4) r, strY)))"

definition test5 :: "addr \<Rightarrow> addr \<Rightarrow> alloc_test \<Rightarrow> alloc_test outcome" where
  "test5 strX strY st =
     (let st = t_dealloc strY (t_dealloc strX st); (st, strX) = t_alloc 2048 st in
      seq (fill_compare [(strX, CHR ''z'')] 2047 st)
        (\<lambda>r. Inr (verdict ''Test 5 passed: merge alloc 2048 worked'' (Line ''Test5 failed'') r)))"

text \<open>\<open>main\<close>, with the answers of \<open>mmap\<close> and \<open>munmap\<close>, and its exit status.\<close>

definition test_alloc :: "addr \<Rightarrow> int \<Rightarrow> alloc_test \<Rightarrow> (alloc_test \<times> int) outcome" where
  "test_alloc mmap_ret munmap_ret st =
     (let (h, v) = init_alloc mmap_ret (heap st); st = st\<lparr>heap := h\<rparr> in
      if v \<noteq> 0 then Inr (st, 1)
      else
        seq (elementary st) (\<lambda>(st, fine).
        if \<not> fine then Inr (st, 1)
        else
          seq (test1 st) (\<lambda>(st, strB, strC).
          seq (test2 strC st) (\<lambda>(st, strX).
          seq (test3 strB st) (\<lambda>(st, strY, strZ).
          seq (test4 strY strZ st) (\<lambda>(st, strY).
          seq (test5 strX strY st) (\<lambda>st.
            let (h, v) = cleanup munmap_ret (heap st)
            in Inr (st\<lparr>heap := h\<rparr>, if v \<noteq> 0 then 1 else 0))))))))"

section \<open>What the test's calls return\<close>

text \<open>The page is mapped at \<open>b\<close> and holds the live blocks \<open>L\<close>.\<close>

definition at :: "addr \<Rightarrow> (addr \<times> int) set \<Rightarrow> alloc_test \<Rightarrow> bool" where
  "at b L st \<longleftrightarrow> alloc_wf (heap st) \<and> mapped_page (heap st) = b \<and> alloc_live (heap st) = L"

definition free_at :: "addr \<Rightarrow> (addr \<times> int) set \<Rightarrow> addr \<Rightarrow> int \<Rightarrow> bool" where
  "free_at b L q n \<longleftrightarrow> b \<le> q \<and> q + n \<le> b + 4096 \<and> (\<forall>x\<in>L. apart (q, n) x)"

definition lowest_free :: "addr \<Rightarrow> (addr \<times> int) set \<Rightarrow> addr \<Rightarrow> int \<Rightarrow> bool" where
  "lowest_free b L q n \<longleftrightarrow> 0 < n \<and> n mod 8 = 0 \<and> free_at b L q n \<and> (q - b) mod 8 = 0 \<and>
     (\<forall>q'. free_at b L q' n \<longrightarrow> q \<le> q')"

lemma t_alloc_at:
  assumes "at b L st" and low: "lowest_free b L q n"
  shows "\<exists>h. t_alloc n st = (st\<lparr>heap := h\<rparr>, q) \<and> at b (insert (q, n) L) (st\<lparr>heap := h\<rparr>) \<and> q \<noteq> NULL"
proof -
  have wf: "alloc_wf (heap st)" and L: "alloc_live (heap st) = L" and b: "mapped_page (heap st) = b"
    using assms(1) by (simp_all add: at_def)
  have room: "room (heap st) p n \<longleftrightarrow> free_at b L p n \<and> (p - b) mod 8 = 0" for p
    by (auto simp: L b room_def free_at_def alloc_consts)
  have n: "\<not> bad_size n" using low by (auto simp: lowest_free_def free_at_def bad_size_def alloc_consts)
  have "room (heap st) q n" "\<And>q'. room (heap st) q' n \<Longrightarrow> q \<le> q'" using low by (simp_all add: room lowest_free_def)
  from alloc_at [OF wf n this] obtain h where "alloc n (heap st) = (h, q)" "alloc_wf h"
    "alloc_live h = insert (q, n) (alloc_live (heap st))" "mapped_page h = mapped_page (heap st)" "q \<noteq> NULL" .
  then show ?thesis by (intro exI [of _ h]) (simp add: t_alloc_def at_def L b)
qed

definition freed :: "(addr \<times> int) set \<Rightarrow> addr \<Rightarrow> (addr \<times> int) set" where
  "freed L q = {x \<in> L. \<not> (fst x \<le> q \<and> q < fst x + 8)}"

lemma freed_simps [simp]:
  "freed {} q = {}"
  "freed (insert x L) q = (if fst x \<le> q \<and> q < fst x + 8 then freed L q else insert x (freed L q))"
  by (auto simp: freed_def)

lemma t_dealloc_at:
  assumes "at b L st" "(q, n) \<in> L" "L' = freed L q"
  shows "\<exists>h. t_dealloc q st = st\<lparr>heap := h\<rparr> \<and> at b L' (st\<lparr>heap := h\<rparr>)"
proof -
  have wf: "alloc_wf (heap st)" and L: "alloc_live (heap st) = L" and b: "mapped_page (heap st) = b"
    using assms(1) by (simp_all add: at_def)
  have "(q, n) \<in> alloc_live (heap st)" using assms(2) L by simp
  from dealloc_at [OF wf this] obtain h where h: "dealloc q (heap st) = (h, None)" "alloc_wf h"
    "mapped_page h = mapped_page (heap st)"
    "alloc_live h = {x \<in> alloc_live (heap st). \<not> (fst x \<le> q \<and> q < fst x + MINALLOC)}" .
  then have "at b L' (st\<lparr>heap := h\<rparr>)" unfolding assms(3) at_def freed_def L b MINALLOC_def by simp
  then show ?thesis using h(1) by (intro exI [of _ h]) (simp add: t_dealloc_def)
qed

lemma page_mapped_block:
  assumes "at b L st" "b \<le> q" "q + n \<le> b + 4096"
  shows "mapped_block (page_mapped (heap st)) (q, n)"
  using assms by (auto simp: at_def alloc_wf_def mapped_block_def page_mapped_def in_block_def PAGESIZE_def)

lemma all_equal_True: "(\<And>s p. (s, p) \<in> set sps \<Longrightarrow> strcmp_eq ok s p m = Inr True) \<Longrightarrow> all_equal ok sps m = Inr True"
  by (induction ok sps m rule: all_equal.induct) auto

lemma fill_compare_at:
  assumes at: "at b L st" and in_page: "\<And>p. p \<in> set (map fst pcs) \<Longrightarrow> b \<le> p \<and> p + int (Suc n) \<le> b + 4096"
    and "spaced (Suc n) (map fst pcs)" "\<forall>x\<in>set pcs. snd x \<noteq> NUL"
  obtains m where "fill_compare pcs n st = Inr (st\<lparr>mem := m\<rparr>, True)"
proof -
  let ?zs = "rev (map (\<lambda>(p, c). (p, NUL)) pcs)" and ?ok = "page_mapped (heap st)"
  have fst: "map fst ?zs = rev (map fst pcs)" by (simp add: rev_map case_prod_unfold o_def)
  obtain m1 m2 where m: "store_loop ?ok pcs 0 n (mem st) = Inr m1" "store_round ?ok ?zs n m1 = Inr m2"
    "\<forall>p c. (p, c) \<in> set pcs \<longrightarrow> strcmp_eq ?ok (own_string n c) p m2 = Inr True"
  proof (rule fill_and_compare [of pcs ?ok n ?zs "mem st"])
    show "mapped_block ?ok (p, int (Suc n))" if "p \<in> set (map fst pcs)" for p
      using page_mapped_block [OF at] in_page [OF that] by blast
    show "set (map fst ?zs) = set (map fst pcs)" "distinct (map fst ?zs)"
      using assms(3) unfolding fst by (simp_all add: spaced_def)
    show "\<forall>x\<in>set ?zs. snd x = NUL" by auto
  qed (use assms(3,4) in auto)
  have "all_equal ?ok (map (\<lambda>(p, c). (own_string n c, p)) pcs) m2 = Inr True"
    by (rule all_equal_True) (use m(3) in auto)
  then show ?thesis using that [of m2] m(1,2) by (simp add: fill_compare_def with_mem_def)
qed

text \<open>The places a caller sees on a page that has blocks on its first \<open>k\<close> bytes and a gap.\<close>

lemma at_say [simp]: "at b L (say l st) = at b L st"
  by (simp add: at_def say_def)

lemma at_mem [simp]: "at b L (st\<lparr>mem := m\<rparr>) = at b L st"
  by (simp add: at_def)

lemmas free_simps = lowest_free_def free_at_def apart_def

lemma elementary_at:
  assumes "at b {} st"
  shows "\<exists>st'. elementary st = Inr (st', True) \<and> at b {} st' \<and>
    shown st' = shown st @ map Line [''Hello, world! test passed'', ''Elementary tests passed'',
       ''Starting comprehensive tests (see details in code)'']"
proof -
  have "lowest_free b {} b 512" by (auto simp: free_simps)
  from t_alloc_at [OF assms this] obtain h1 where
    h1: "t_alloc 512 st = (st\<lparr>heap := h1\<rparr>, b)" "at b {(b, 512)} (st\<lparr>heap := h1\<rparr>)" "b \<noteq> NULL" by blast
  have "lowest_free b {(b, 512)} (b + 512) 512" by (auto simp: free_simps)
  from t_alloc_at [OF h1(2) this] obtain h2 where h2: "t_alloc 512 (st\<lparr>heap := h1\<rparr>) = (st\<lparr>heap := h2\<rparr>, b + 512)"
    "at b {(b + 512, 512), (b, 512)} (st\<lparr>heap := h2\<rparr>)" "b + 512 \<noteq> NULL" by auto
  let ?hello = "''Hello, world!''"
  have ok: "page_mapped h2 (b + int j)" if "j \<le> length ?hello" for j
    using page_mapped_block [OF h2(2), of b 512] that by (auto simp: mapped_block_def in_block_def)
  obtain m where m: "strcpy (page_mapped h2) b ?hello (mem st) = Inr m" "\<forall>j<length ?hello. m (b + int j) = ?hello ! j"
    "m (b + int (length ?hello)) = NUL"
    by (rule strcpy_run [of ?hello "page_mapped h2" b "mem st", OF ok])
  have cmp: "strcmp_eq (page_mapped h2) (?hello @ [NUL]) b m = Inr True"
    by (rule strcmp_eq_run) (use m(2,3) ok in auto)
  let ?st3 = "say (Line ''Hello, world! test passed'') (st\<lparr>heap := h2, mem := m\<rparr>)"
  have at3: "at b {(b + 512, 512), (b, 512)} ?st3" using h2(2) by (simp add: at_def say_def)
  obtain h4 where h4: "t_dealloc b ?st3 = ?st3\<lparr>heap := h4\<rparr>" "at b {(b + 512, 512)} (?st3\<lparr>heap := h4\<rparr>)"
    using t_dealloc_at [OF at3, of b 512 "{(b + 512, 512)}"] by auto
  obtain h5 where h5: "t_dealloc (b + 512) (?st3\<lparr>heap := h4\<rparr>) = ?st3\<lparr>heap := h5\<rparr>" "at b {} (?st3\<lparr>heap := h5\<rparr>)"
    using t_dealloc_at [OF h4(2), of "b + 512" 512 "{}"] by auto
  show ?thesis
    by (intro exI [of _ "say (Line ''Starting comprehensive tests (see details in code)'')
        (say (Line ''Elementary tests passed'') (?st3\<lparr>heap := h5\<rparr>))"])
      (use h1 h2 m(1) cmp h4(1) h5 in
        \<open>simp add: elementary_def with_mem_def del: strcpy.simps strcmp_eq.simps append.simps, simp add: say_def at_def\<close>)
qed

lemma test1_at:
  assumes "at b {} st"
  shows "\<exists>st'. test1 st = Inr (st', b + 1024, b + 2048) \<and>
    at b {(b + 3072, 1024), (b + 2048, 1024), (b + 1024, 1024), (b, 1024)} st' \<and>
    shown st' = shown st @ [Line ''Test 1 passed: allocated 4 chunks of 1KB each'']"
proof -
  have "lowest_free b {} b 1024" by (auto simp: free_simps)
  from t_alloc_at [OF assms this] obtain h1 where
    h1: "t_alloc 1024 st = (st\<lparr>heap := h1\<rparr>, b)" "at b {(b, 1024)} (st\<lparr>heap := h1\<rparr>)" by blast
  have "lowest_free b {(b, 1024)} (b + 1024) 1024" by (auto simp: free_simps)
  from t_alloc_at [OF h1(2) this] obtain h2 where h2: "t_alloc 1024 (st\<lparr>heap := h1\<rparr>) = (st\<lparr>heap := h2\<rparr>, b + 1024)"
    "at b {(b + 1024, 1024), (b, 1024)} (st\<lparr>heap := h2\<rparr>)" by auto
  have "lowest_free b {(b + 1024, 1024), (b, 1024)} (b + 2048) 1024" by (auto simp: free_simps)
  from t_alloc_at [OF h2(2) this] obtain h3 where h3: "t_alloc 1024 (st\<lparr>heap := h2\<rparr>) = (st\<lparr>heap := h3\<rparr>, b + 2048)"
    "at b {(b + 2048, 1024), (b + 1024, 1024), (b, 1024)} (st\<lparr>heap := h3\<rparr>)" by auto
  have "lowest_free b {(b + 2048, 1024), (b + 1024, 1024), (b, 1024)} (b + 3072) 1024" by (auto simp: free_simps)
  from t_alloc_at [OF h3(2) this] obtain h4 where h4: "t_alloc 1024 (st\<lparr>heap := h3\<rparr>) = (st\<lparr>heap := h4\<rparr>, b + 3072)"
    "at b {(b + 3072, 1024), (b + 2048, 1024), (b + 1024, 1024), (b, 1024)} (st\<lparr>heap := h4\<rparr>)" by auto
  let ?pcs = "[(b, CHR ''a''), (b + 1024, CHR ''b''), (b + 2048, CHR ''c''), (b + 3072, CHR ''d'')]"
  obtain m where "fill_compare ?pcs 1023 (st\<lparr>heap := h4\<rparr>) = Inr (st\<lparr>heap := h4, mem := m\<rparr>, True)"
    by (rule fill_compare_at [OF h4(2), of ?pcs 1023]) (auto simp: spaced_def apart_def)
  with h1(1) h2(1) h3(1) h4 show ?thesis
    by (simp add: test1_def verdict_def) (simp add: at_def say_def)
qed

lemma test2_at:
  assumes "at b {(b + 3072, 1024), (b + 2048, 1024), (b + 1024, 1024), (b, 1024)} st"
  shows "\<exists>st'. test2 (b + 2048) st = Inr (st', b + 2048) \<and>
    at b {(b + 2048, 1024), (b + 3072, 1024), (b + 1024, 1024), (b, 1024)} st' \<and>
    shown st' = shown st @ [Line ''Test 2 passed: dealloc and realloc worked'']"
proof -
  obtain h1 where h1: "t_dealloc (b + 2048) st = st\<lparr>heap := h1\<rparr>" "at b {(b + 3072, 1024), (b + 1024, 1024), (b, 1024)} (st\<lparr>heap := h1\<rparr>)"
    using t_dealloc_at [OF assms, of "b + 2048" 1024 "{(b + 3072, 1024), (b + 1024, 1024), (b, 1024)}"] by auto
  have "lowest_free b {(b + 3072, 1024), (b + 1024, 1024), (b, 1024)} (b + 2048) 1024" by (auto simp: free_simps)
  from t_alloc_at [OF h1(2) this] obtain h2 where h2: "t_alloc 1024 (st\<lparr>heap := h1\<rparr>) = (st\<lparr>heap := h2\<rparr>, b + 2048)"
    "at b {(b + 2048, 1024), (b + 3072, 1024), (b + 1024, 1024), (b, 1024)} (st\<lparr>heap := h2\<rparr>)" by auto
  obtain m where "fill_compare [(b + 2048, CHR ''x'')] 1023 (st\<lparr>heap := h2\<rparr>) = Inr (st\<lparr>heap := h2, mem := m\<rparr>, True)"
    by (rule fill_compare_at [OF h2(2), of "[(b + 2048, CHR ''x'')]" 1023]) (auto simp: spaced_def)
  with h1(1) h2 show ?thesis by (simp add: test2_def verdict_def) (simp add: at_def say_def)
qed

lemma test3_at:
  assumes "at b {(b + 2048, 1024), (b + 3072, 1024), (b + 1024, 1024), (b, 1024)} st"
  shows "\<exists>st'. test3 (b + 1024) st = Inr (st', b + 1024, b + 1536) \<and>
    at b {(b + 1536, 512), (b + 1024, 512), (b + 2048, 1024), (b + 3072, 1024), (b, 1024)} st' \<and>
    shown st' = shown st @ [Line ''Test 3 passed: dealloc and smaller realloc worked'']"
proof -
  obtain h1 where h1: "t_dealloc (b + 1024) st = st\<lparr>heap := h1\<rparr>" "at b {(b + 2048, 1024), (b + 3072, 1024), (b, 1024)} (st\<lparr>heap := h1\<rparr>)"
    using t_dealloc_at [OF assms, of "b + 1024" 1024 "{(b + 2048, 1024), (b + 3072, 1024), (b, 1024)}"] by auto
  have "lowest_free b {(b + 2048, 1024), (b + 3072, 1024), (b, 1024)} (b + 1024) 512" by (auto simp: free_simps)
  from t_alloc_at [OF h1(2) this] obtain h2 where h2: "t_alloc 512 (st\<lparr>heap := h1\<rparr>) = (st\<lparr>heap := h2\<rparr>, b + 1024)"
    "at b {(b + 1024, 512), (b + 2048, 1024), (b + 3072, 1024), (b, 1024)} (st\<lparr>heap := h2\<rparr>)" by auto
  have "lowest_free b {(b + 1024, 512), (b + 2048, 1024), (b + 3072, 1024), (b, 1024)} (b + 1536) 512" by (auto simp: free_simps)
  from t_alloc_at [OF h2(2) this] obtain h3 where h3: "t_alloc 512 (st\<lparr>heap := h2\<rparr>) = (st\<lparr>heap := h3\<rparr>, b + 1536)"
    "at b {(b + 1536, 512), (b + 1024, 512), (b + 2048, 1024), (b + 3072, 1024), (b, 1024)} (st\<lparr>heap := h3\<rparr>)" by auto
  let ?pcs = "[(b + 1024, CHR ''y''), (b + 1536, CHR ''z'')]"
  obtain m where "fill_compare ?pcs 511 (st\<lparr>heap := h3\<rparr>) = Inr (st\<lparr>heap := h3, mem := m\<rparr>, True)"
    by (rule fill_compare_at [OF h3(2), of ?pcs 511]) (auto simp: spaced_def apart_def)
  with h1(1) h2(1) h3 show ?thesis by (simp add: test3_def verdict_def) (simp add: at_def say_def)
qed

lemma test4_at:
  assumes "at b {(b + 1536, 512), (b + 1024, 512), (b + 2048, 1024), (b + 3072, 1024), (b, 1024)} st"
  shows "\<exists>st'. test4 (b + 1024) (b + 1536) st = Inr (st', b + 1024) \<and>
    at b {(b + 1024, 1024), (b + 2048, 1024), (b + 3072, 1024), (b, 1024)} st' \<and>
    shown st' = shown st @ [Line ''Test 4 passed: merge worked'']"
proof -
  obtain h1 where h1: "t_dealloc (b + 1536) st = st\<lparr>heap := h1\<rparr>"
    "at b {(b + 1024, 512), (b + 2048, 1024), (b + 3072, 1024), (b, 1024)} (st\<lparr>heap := h1\<rparr>)"
    using t_dealloc_at [OF assms, of "b + 1536" 512 "{(b + 1024, 512), (b + 2048, 1024), (b + 3072, 1024), (b, 1024)}"] by auto
  obtain h2 where h2: "t_dealloc (b + 1024) (st\<lparr>heap := h1\<rparr>) = st\<lparr>heap := h2\<rparr>"
    "at b {(b + 2048, 1024), (b + 3072, 1024), (b, 1024)} (st\<lparr>heap := h2\<rparr>)"
    using t_dealloc_at [OF h1(2), of "b + 1024" 512 "{(b + 2048, 1024), (b + 3072, 1024), (b, 1024)}"] by auto
  have "lowest_free b {(b + 2048, 1024), (b + 3072, 1024), (b, 1024)} (b + 1024) 1024" by (auto simp: free_simps)
  from t_alloc_at [OF h2(2) this] obtain h3 where h3: "t_alloc 1024 (st\<lparr>heap := h2\<rparr>) = (st\<lparr>heap := h3\<rparr>, b + 1024)"
    "at b {(b + 1024, 1024), (b + 2048, 1024), (b + 3072, 1024), (b, 1024)} (st\<lparr>heap := h3\<rparr>)" by auto
  obtain m where "fill_compare [(b + 1024, CHR ''x'')] 1023 (st\<lparr>heap := h3\<rparr>) = Inr (st\<lparr>heap := h3, mem := m\<rparr>, True)"
    by (rule fill_compare_at [OF h3(2), of "[(b + 1024, CHR ''x'')]" 1023]) (auto simp: spaced_def)
  with h1(1) h2(1) h3 show ?thesis by (simp add: test4_def verdict_def) (simp add: at_def say_def)
qed

lemma test5_at:
  assumes "at b {(b + 1024, 1024), (b + 2048, 1024), (b + 3072, 1024), (b, 1024)} st"
  shows "\<exists>st'. test5 (b + 2048) (b + 1024) st = Inr st' \<and>
    at b {(b + 1024, 2048), (b + 3072, 1024), (b, 1024)} st' \<and>
    shown st' = shown st @ [Line ''Test 5 passed: merge alloc 2048 worked'']"
proof -
  obtain h1 where h1: "t_dealloc (b + 2048) st = st\<lparr>heap := h1\<rparr>" "at b {(b + 1024, 1024), (b + 3072, 1024), (b, 1024)} (st\<lparr>heap := h1\<rparr>)"
    using t_dealloc_at [OF assms, of "b + 2048" 1024 "{(b + 1024, 1024), (b + 3072, 1024), (b, 1024)}"] by auto
  obtain h2 where h2: "t_dealloc (b + 1024) (st\<lparr>heap := h1\<rparr>) = st\<lparr>heap := h2\<rparr>" "at b {(b + 3072, 1024), (b, 1024)} (st\<lparr>heap := h2\<rparr>)"
    using t_dealloc_at [OF h1(2), of "b + 1024" 1024 "{(b + 3072, 1024), (b, 1024)}"] by auto
  have "lowest_free b {(b + 3072, 1024), (b, 1024)} (b + 1024) 2048" by (auto simp: free_simps)
  from t_alloc_at [OF h2(2) this] obtain h3 where h3: "t_alloc 2048 (st\<lparr>heap := h2\<rparr>) = (st\<lparr>heap := h3\<rparr>, b + 1024)"
    "at b {(b + 1024, 2048), (b + 3072, 1024), (b, 1024)} (st\<lparr>heap := h3\<rparr>)" by auto
  obtain m where "fill_compare [(b + 1024, CHR ''z'')] 2047 (st\<lparr>heap := h3\<rparr>) = Inr (st\<lparr>heap := h3, mem := m\<rparr>, True)"
    by (rule fill_compare_at [OF h3(2), of "[(b + 1024, CHR ''z'')]" 2047]) (auto simp: spaced_def)
  with h1(1) h2(1) h3 show ?thesis by (simp add: test5_def verdict_def) (simp add: at_def say_def)
qed

section \<open>Properties\<close>

definition passes :: "test_line list" where
  "passes = map Line [''Hello, world! test passed'', ''Elementary tests passed'',
     ''Starting comprehensive tests (see details in code)'',
     ''Test 1 passed: allocated 4 chunks of 1KB each'', ''Test 2 passed: dealloc and realloc worked'',
     ''Test 3 passed: dealloc and smaller realloc worked'', ''Test 4 passed: merge worked'',
     ''Test 5 passed: merge alloc 2048 worked'']"

text \<open>
  C9: The test of the one-page allocator accepts it: wherever \<open>mmap\<close> puts the page and whatever the
  memory held, every access is inside the page, no pointer is refused, and the test prints that all its
  parts passed. Its exit status is 1 exactly when \<open>mmap\<close> or \<open>munmap\<close> fails, and when \<open>mmap\<close> fails
  it prints nothing.
\<close>

theorem test_alloc_passes:
  assumes "0 < b \<or> b = MAP_FAILED"
  shows "\<exists>st'. test_alloc b r st = Inr (st', if b = MAP_FAILED \<or> r = -1 then 1 else 0) \<and>
     shown st' = shown st @ (if b = MAP_FAILED then [] else passes)"
proof (cases "b = MAP_FAILED")
  case True
  then show ?thesis by (simp add: test_alloc_def init_alloc_def)
next
  case False
  then have b: "0 < b" using assms by simp
  obtain h where init: "init_alloc b (heap st) = (h, 0)" using False by (simp add: init_alloc_def Let_def)
  let ?st = "st\<lparr>heap := h\<rparr>"
  have "at b {} ?st" using init_alloc_ok [OF b, of "heap st"] init by (simp add: at_def)
  from elementary_at [OF this] obtain s0 where s0: "elementary ?st = Inr (s0, True)" "at b {} s0"
    "shown s0 = shown ?st @ take 3 passes" by (auto simp: passes_def)
  from test1_at [OF s0(2)] obtain s1 where s1: "test1 s0 = Inr (s1, b + 1024, b + 2048)"
    "at b {(b + 3072, 1024), (b + 2048, 1024), (b + 1024, 1024), (b, 1024)} s1" "shown s1 = shown s0 @ [passes ! 3]"
    by (auto simp: passes_def)
  from test2_at [OF s1(2)] obtain s2 where s2: "test2 (b + 2048) s1 = Inr (s2, b + 2048)"
    "at b {(b + 2048, 1024), (b + 3072, 1024), (b + 1024, 1024), (b, 1024)} s2" "shown s2 = shown s1 @ [passes ! 4]"
    by (auto simp: passes_def)
  from test3_at [OF s2(2)] obtain s3 where s3: "test3 (b + 1024) s2 = Inr (s3, b + 1024, b + 1536)"
    "at b {(b + 1536, 512), (b + 1024, 512), (b + 2048, 1024), (b + 3072, 1024), (b, 1024)} s3"
    "shown s3 = shown s2 @ [passes ! 5]" by (auto simp: passes_def)
  from test4_at [OF s3(2)] obtain s4 where s4: "test4 (b + 1024) (b + 1536) s3 = Inr (s4, b + 1024)"
    "at b {(b + 1024, 1024), (b + 2048, 1024), (b + 3072, 1024), (b, 1024)} s4" "shown s4 = shown s3 @ [passes ! 6]"
    by (auto simp: passes_def)
  from test5_at [OF s4(2)] obtain s5 where s5: "test5 (b + 2048) (b + 1024) s4 = Inr s5"
    "at b {(b + 1024, 2048), (b + 3072, 1024), (b, 1024)} s5" "shown s5 = shown s4 @ [passes ! 7]"
    by (auto simp: passes_def)
  have "mapped_page (heap s5) \<noteq> NULL" using s5(2) b by (simp add: at_def)
  moreover have "shown s5 = shown st @ passes" using s0(3) s1(3) s2(3) s3(3) s4(3) s5(3) by (simp add: passes_def)
  ultimately show ?thesis
    using init s0(1) s1(1) s2(1) s3(1) s4(1) s5(1) False
    by (simp add: test_alloc_def cleanup_def)
qed

text \<open>The page at address 4096, and a memory of zeros.\<close>

definition test_start :: alloc_test where
  "test_start = \<lparr>heap = alloc_globals, mem = (\<lambda>a. NUL), shown = []\<rparr>"

theorem test_alloc_passes_witness:
  "\<exists>st'. test_alloc 4096 0 test_start = Inr (st', 0) \<and> shown st' = passes"
  using test_alloc_passes [of 4096 0 test_start] by (simp add: MAP_FAILED_def test_start_def)

end
