(* ===== verification/TestEalloc.thy ===== *)
theory TestEalloc
  imports Ealloc ClientMemory
begin

text \<open>
  \<open>malloc-code/test_ealloc.c\<close>: the test of the elastic allocator. Three times it asks for all the memory
  there can be, in blocks of a page or of a chunk, fills the blocks, reads them back and frees them;
  between the calls it has the system show the size of the process. \<open>ealloc_test\<close> holds the
  allocator's globals, the memory, the number of calls of \<open>alloc\<close> (which selects the system's answer) and the
  lines printed.
\<close>

section \<open>The program\<close>

text \<open>
  A line of the test; the output of \<open>printvsz\<close>, where the number of pages mapped by the allocator
  stands for the size of the process, which includes them; and a refusal of \<open>dealloc\<close>.
\<close>

datatype e_line = Says string | Vsz string nat | Refuses e_dealloc_msg

record ealloc_test =
  e_heap :: ealloc_state
  e_mem :: memory
  e_calls :: nat
  e_shown :: "e_line list"

definition e_mapped :: "ealloc_state \<Rightarrow> addr \<Rightarrow> bool" where
  "e_mapped s a \<longleftrightarrow> (\<exists>i<num_pages s. pages s ! i \<le> a \<and> a < pages s ! i + E_PAGESIZE)"

definition e_say :: "e_line \<Rightarrow> ealloc_test \<Rightarrow> ealloc_test" where
  "e_say l st = st\<lparr>e_shown := e_shown st @ [l]\<rparr>"

definition printvsz :: "string \<Rightarrow> ealloc_test \<Rightarrow> ealloc_test" where
  "printvsz hint st = e_say (Vsz hint (num_pages (e_heap st))) st"

text \<open>The loop that obtains \<open>k\<close> blocks of \<open>n\<close> bytes and fills each, showing the size or not.\<close>

definition obtain_block :: "(nat \<Rightarrow> os_reply) \<Rightarrow> nat \<Rightarrow> char \<Rightarrow> ealloc_test \<Rightarrow> (ealloc_test \<times> addr) outcome" where
  "obtain_block rs n c st =
     seq (e_alloc (rs (e_calls st)) (int n) (e_heap st)) (\<lambda>(h, p).
     seq (store_loop (e_mapped h) [(p, c)] 0 n (e_mem st)) (\<lambda>m.
     Inr (st\<lparr>e_heap := h, e_mem := m, e_calls := Suc (e_calls st)\<rparr>, p)))"

fun alloc_blocks ::
  "(nat \<Rightarrow> os_reply) \<Rightarrow> string option \<Rightarrow> nat \<Rightarrow> char \<Rightarrow> nat \<Rightarrow> ealloc_test \<Rightarrow> (ealloc_test \<times> addr list) outcome" where
  "alloc_blocks rs hint n c 0 st = Inr (st, [])"
| "alloc_blocks rs hint n c (Suc k) st =
     seq (obtain_block rs n c st) (\<lambda>(st, p).
     seq (alloc_blocks rs hint n c k (case hint of None \<Rightarrow> st | Some h \<Rightarrow> printvsz h st)) (\<lambda>(st, ps).
     Inr (st, p # ps)))"

text \<open>The loop that reads all blocks, with \<open>mismatch\<close>, and the loop that frees them.\<close>

fun check_blocks :: "(addr \<Rightarrow> bool) \<Rightarrow> nat \<Rightarrow> char \<Rightarrow> addr list \<Rightarrow> memory \<Rightarrow> bool \<Rightarrow> bool outcome" where
  "check_blocks ok n c [] m mismatch = Inr mismatch"
| "check_blocks ok n c (p # ps) m mismatch =
     seq (check_loop ok p c m 0 n mismatch) (check_blocks ok n c ps m)"

fun dealloc_blocks :: "addr list \<Rightarrow> ealloc_test \<Rightarrow> ealloc_test outcome" where
  "dealloc_blocks [] st = Inr st"
| "dealloc_blocks (p # ps) st =
     seq (e_dealloc p (e_heap st)) (\<lambda>(h, r).
     dealloc_blocks ps (case r of None \<Rightarrow> st\<lparr>e_heap := h\<rparr> | Some e \<Rightarrow> e_say (Refuses e) (st\<lparr>e_heap := h\<rparr>)))"

text \<open>The second half of each test: check, exit when the contents are wrong, free. \<open>True\<close>: go on.\<close>

definition check_and_free :: "nat \<Rightarrow> char \<Rightarrow> addr list \<Rightarrow> string \<Rightarrow> ealloc_test \<Rightarrow> (ealloc_test \<times> bool) outcome" where
  "check_and_free n c ps name st =
     seq (check_blocks (e_mapped (e_heap st)) n c ps (e_mem st) False) (\<lambda>mismatch.
     if mismatch then Inr (e_say (Says ''ERROR: Chunk contents did not match'') st, False)
     else seq (dealloc_blocks ps st) (\<lambda>st. Inr (e_say (Says name) (printvsz ''should not change:'' st), True)))"

definition e_test1 :: "(nat \<Rightarrow> os_reply) \<Rightarrow> ealloc_test \<Rightarrow> (ealloc_test \<times> bool) outcome" where
  "e_test1 rs st =
     (let st = printvsz ''start test 1:'' (e_say (Says ''Test1: checking heap expansion; allocate 4 X 4KB chunks'') st) in
      seq (alloc_blocks rs (Some ''should increase by 4KB:'') 4096 (CHR ''a'') 4 st)
        (\<lambda>(st, a). check_and_free 4096 (CHR ''a'') a ''Test1: complete'' st))"

definition e_test2 :: "(nat \<Rightarrow> os_reply) \<Rightarrow> ealloc_test \<Rightarrow> (ealloc_test \<times> bool) outcome" where
  "e_test2 rs st =
     (let st = printvsz ''start test 2:''
            (e_say (Says ''Test2: Check splitting of existing free chunks: allocate 64 X 256B chunks'') st) in
      seq (alloc_blocks rs None 256 (CHR ''b'') 64 st)
        (\<lambda>(st, b). check_and_free 256 (CHR ''b'') b ''Test2: complete'' (printvsz ''should not change:'' st)))"

definition e_test3 :: "(nat \<Rightarrow> os_reply) \<Rightarrow> ealloc_test \<Rightarrow> (ealloc_test \<times> bool) outcome" where
  "e_test3 rs st =
     (let st = printvsz ''start test 3:''
            (e_say (Says ''Test3: checking merging of existing free chunks; allocate 4 X 4KB chunks'') st) in
      seq (alloc_blocks rs (Some ''should not change:'') 4096 (CHR ''c'') 4 st)
        (\<lambda>(st, c). check_and_free 4096 (CHR ''c'') c ''Test3: complete'' st))"

definition test_ealloc :: "(nat \<Rightarrow> os_reply) \<Rightarrow> ealloc_test \<Rightarrow> (ealloc_test \<times> int) outcome" where
  "test_ealloc rs st =
     (let st = e_say (Says ''Initializing memory manager'') st; st = st\<lparr>e_heap := e_init_alloc (e_heap st)\<rparr> in
      seq (e_test1 rs st) (\<lambda>(st, go). if \<not> go then Inr (st, 1) else
      seq (e_test2 rs st) (\<lambda>(st, go). if \<not> go then Inr (st, 1) else
      seq (e_test3 rs st) (\<lambda>(st, go). if \<not> go then Inr (st, 1) else
      Inr (e_say (Says ''All tests complete'') (st\<lparr>e_heap := e_cleanup (e_heap st)\<rparr>), 0)))))"

section \<open>Where the blocks lie\<close>

text \<open>The system's part: \<open>malloc\<close> does not fail, and \<open>mmap\<close> returns a new page at every call.\<close>

definition replies_ok :: "(nat \<Rightarrow> os_reply) \<Rightarrow> bool" where
  "replies_ok rs \<longleftrightarrow> (\<forall>k. malloc_free_ok (rs k) \<and> malloc_sizes_ok (rs k) \<and> 0 < mmap_ret (rs k)) \<and>
     (\<forall>j k. j \<noteq> k \<longrightarrow> apart (mmap_ret (rs j), E_PAGESIZE) (mmap_ret (rs k), E_PAGESIZE))"

text \<open>\<open>c\<close> blocks of \<open>z\<close> bytes fill a page; block \<open>k\<close> is the one with that number, over all pages.\<close>

definition place :: "(nat \<Rightarrow> os_reply) \<Rightarrow> nat \<Rightarrow> nat \<Rightarrow> nat \<Rightarrow> addr" where
  "place rs z c k = mmap_ret (rs (k div c)) + int (z * (k mod c))"

definition placed :: "(nat \<Rightarrow> os_reply) \<Rightarrow> nat \<Rightarrow> nat \<Rightarrow> nat \<Rightarrow> nat \<Rightarrow> (addr \<times> int) set" where
  "placed rs z c l h = (\<lambda>k. (place rs z c k, int z)) ` {l..<h}"

definition fits_page :: "nat \<Rightarrow> nat \<Rightarrow> bool" where
  "fits_page z c \<longleftrightarrow> z * c = 4096 \<and> z mod 256 = 0"

lemma fits_pageD:
  assumes "fits_page z c"
  shows "0 < z" "0 < c" "256 \<le> z" "int z * int c = 4096" "\<not> e_bad_size (int z)"
proof -
  show z: "0 < z" "0 < c" "int z * int c = 4096" using assms by (auto simp: fits_page_def simp flip: of_nat_mult intro!: gr0I)
  show "256 \<le> z" using z(1) assms by (auto simp: fits_page_def elim!: dvdE dest!: mod_0_imp_dvd)
  have "z * 1 \<le> z * c" using z(2) by (intro mult_le_mono2) simp
  moreover have "z * c = 4096" using assms by (simp add: fits_page_def)
  ultimately have "z \<le> 4096" by linarith
  then show "\<not> e_bad_size (int z)" using assms z(1) by (auto simp: fits_page_def e_bad_size_def ealloc_consts zmod_int)
qed

lemma place_in_page:
  assumes "fits_page z c"
  shows "mmap_ret (rs (k div c)) \<le> place rs z c k" "place rs z c k + int z \<le> mmap_ret (rs (k div c)) + 4096"
proof -
  have "z * (k mod c) + z = z * Suc (k mod c)" by simp
  also have "\<dots> \<le> z * c" using fits_pageD(2) [OF assms] by (intro mult_le_mono2 Suc_leI) simp
  finally have "z * (k mod c) + z \<le> 4096" using assms by (simp add: fits_page_def)
  then show "mmap_ret (rs (k div c)) \<le> place rs z c k" "place rs z c k + int z \<le> mmap_ret (rs (k div c)) + 4096"
    unfolding place_def by linarith+
qed

lemma place_less:
  assumes "j div c = k div c" "j < k"
  shows "place rs z c j + int z \<le> place rs z c k"
proof -
  have "k div c * c + j mod c < k div c * c + k mod c"
    using assms(2) div_mult_mod_eq [of j c] div_mult_mod_eq [of k c] unfolding assms(1) by simp
  then have "j mod c < k mod c" by (simp only: add_less_cancel_left)
  then have "z * Suc (j mod c) \<le> z * (k mod c)" by (intro mult_le_mono2) simp
  then have "z * (j mod c) + z \<le> z * (k mod c)" by simp
  then show ?thesis unfolding place_def assms(1) by linarith
qed

lemma place_apart:
  assumes rs: "replies_ok rs" and fit: "fits_page z c" and jk: "j \<noteq> k"
  shows "apart (place rs z c j, int z) (place rs z c k, int z)"
proof (cases "j div c = k div c")
  case True
  then show ?thesis using place_less [OF True] place_less [OF True [symmetric]] jk by (auto simp: apart_def neq_iff)
next
  case False
  then have "apart (mmap_ret (rs (j div c)), 4096) (mmap_ret (rs (k div c)), 4096)"
    using rs by (simp add: replies_ok_def E_PAGESIZE_def)
  then show ?thesis using place_in_page [OF fit, of rs j] place_in_page [OF fit, of rs k] by (auto simp: apart_def)
qed

text \<open>The allocator has \<open>np\<close> pages, the first ones of the system, and the live blocks \<open>L\<close>.\<close>

definition e_at :: "(nat \<Rightarrow> os_reply) \<Rightarrow> nat \<Rightarrow> (addr \<times> int) set \<Rightarrow> ealloc_test \<Rightarrow> bool" where
  "e_at rs np L st \<longleftrightarrow> ealloc_wf (e_heap st) \<and> num_pages (e_heap st) = np \<and>
     (\<forall>i<np. pages (e_heap st) ! i = mmap_ret (rs i)) \<and> ealloc_live (e_heap st) = L \<and> np \<le> e_calls st"

lemma e_atD:
  assumes "e_at rs np L st"
  shows "ealloc_wf (e_heap st)" "num_pages (e_heap st) = np" "i < np \<Longrightarrow> pages (e_heap st) ! i = mmap_ret (rs i)"
    "ealloc_live (e_heap st) = L" "np \<le> e_calls st"
  using assms by (simp_all add: e_at_def)

lemma e_at_reply: "replies_ok rs \<Longrightarrow> e_at rs np L st \<Longrightarrow> reply_ok (rs (e_calls st)) (e_heap st)"
  by (simp add: replies_ok_def e_at_def reply_ok_def)

text \<open>The first \<open>k\<close> blocks are live: room for another one is not below block \<open>k\<close>.\<close>

lemma room_from:
  assumes rs: "replies_ok rs" and fit: "fits_page z c" and at: "e_at rs np (placed rs z c 0 k) st"
    and room: "e_room (e_heap st) i q (int z)"
  shows "k div c < i \<or> k div c = i \<and> place rs z c k \<le> q"
proof -
  have i: "i < np" and q: "mmap_ret (rs i) \<le> q" "q + int z \<le> mmap_ret (rs i) + 4096"
    and apart: "\<And>b. b \<in> placed rs z c 0 k \<Longrightarrow> apart (q, int z) b"
    using room e_atD(2,3,4) [OF at] by (auto simp: e_room_def E_PAGESIZE_def)
  note z = fits_pageD [OF fit]
  define d where "d = nat ((q - mmap_ret (rs i)) div int z)"
  have d: "int d * int z \<le> q - mmap_ret (rs i)" "q - mmap_ret (rs i) < int d * int z + int z"
  proof -
    have "int d = (q - mmap_ret (rs i)) div int z" using q(1) by (simp add: d_def pos_imp_zdiv_nonneg_iff z(1))
    then have "int d * int z + (q - mmap_ret (rs i)) mod int z = q - mmap_ret (rs i)" by simp
    moreover have "0 \<le> (q - mmap_ret (rs i)) mod int z" "(q - mmap_ret (rs i)) mod int z < int z" using z(1) by simp_all
    ultimately show "int d * int z \<le> q - mmap_ret (rs i)" "q - mmap_ret (rs i) < int d * int z + int z" by linarith+
  qed
  have "int (Suc d) * int z \<le> int c * int z" using d(1) q(2) z(4) by (simp add: algebra_simps)
  then have "int (Suc d) \<le> int c" using z(1) by (simp only: mult_le_cancel_right_pos of_nat_0_less_iff)
  then have dc: "d < c" by simp
  let ?j = "c * i + d"
  have j: "?j div c = i" "?j mod c = d" using dc by simp_all
  have pj: "place rs z c ?j = mmap_ret (rs i) + int d * int z" unfolding place_def j by (simp add: mult.commute)
  have "\<not> ?j < k"
  proof
    assume "?j < k"
    then have "apart (q, int z) (place rs z c ?j, int z)" by (intro apart) (simp add: placed_def)
    then show False using d z(1) unfolding pj apart_def by simp
  qed
  then have "k div c \<le> i" using div_le_mono [of k ?j c] j(1) by simp
  moreover have "place rs z c k \<le> q" if "k div c = i"
  proof (cases "k = ?j")
    case True
    then show ?thesis using pj d(1) by simp
  next
    case False
    then have "place rs z c k + int z \<le> place rs z c ?j" using \<open>\<not> ?j < k\<close> that j(1) by (intro place_less) auto
    then show ?thesis using pj d(1) by simp
  qed
  ultimately show ?thesis by auto
qed

lemma room_at:
  assumes rs: "replies_ok rs" and fit: "fits_page z c" and at: "e_at rs np (placed rs z c 0 k) st" and k: "k div c < np"
  shows "e_room (e_heap st) (k div c) (place rs z c k) (int z)"
proof -
  have "256 dvd z" using fit by (auto simp: fits_page_def)
  then have "256 dvd z * (k mod c)" by simp
  then have "(256 :: int) dvd int (z * (k mod c))" by presburger
  then have "(place rs z c k - mmap_ret (rs (k div c))) mod 256 = 0" by (simp add: place_def)
  moreover have "apart (place rs z c k, int z) b" if "b \<in> placed rs z c 0 k" for b
    using that place_apart [OF rs fit] by (auto simp: placed_def)
  ultimately show ?thesis
    using place_in_page [OF fit, of rs k] k e_atD [OF at] by (simp add: e_room_def ealloc_consts)
qed

text \<open>The next \<open>alloc\<close>: either all pages are there, or every block is a page of its own.\<close>

definition growth :: "nat \<Rightarrow> (nat \<Rightarrow> nat) \<Rightarrow> bool" where
  "growth c pg \<longleftrightarrow> (\<forall>k. pg k = 4) \<or> c = 1 \<and> (\<forall>k. pg k = k)"

lemma placed_Suc: "placed rs z c 0 (Suc k) = insert (place rs z c k, int z) (placed rs z c 0 k)"
  by (simp add: placed_def atLeast0_lessThan_Suc)

lemma next_block:
  assumes rs: "replies_ok rs" and fit: "fits_page z c" and at: "e_at rs (pg k) (placed rs z c 0 k) st"
    and k: "k < 4 * c" and g: "growth c pg" and calls: "pg k = k \<Longrightarrow> e_calls st = k \<or> 4 \<le> k"
  obtains h where "e_alloc (rs (e_calls st)) (int z) (e_heap st) = Inr (h, place rs z c k)"
    "e_at rs (pg (Suc k)) (placed rs z c 0 (Suc k)) (st\<lparr>e_heap := h, e_calls := Suc (e_calls st)\<rparr>)"
proof (cases "\<forall>k. pg k = 4")
  case True
  have kc: "k div c < pg k" using k True fits_pageD(2) [OF fit] by (simp add: div_less_iff_less_mult)
  note ok = e_atD(1) [OF at] e_at_reply [OF rs at] fits_pageD(5) [OF fit]
  obtain h where "e_alloc (rs (e_calls st)) (int z) (e_heap st) = Inr (h, place rs z c k)" "ealloc_wf h"
    "ealloc_live h = insert (place rs z c k, int z) (ealloc_live (e_heap st))" "pages h = pages (e_heap st)"
    "num_pages h = num_pages (e_heap st)"
    by (rule e_alloc_at [OF ok room_at [OF rs fit at kc] room_from [OF rs fit at]])
  then show ?thesis using that [of h] e_atD [OF at] True by (simp add: e_at_def placed_Suc)
next
  case False
  then have pg: "c = 1" "pg k = k" "pg (Suc k) = Suc k" using g by (auto simp: growth_def)
  then have k4: "k < 4" "e_calls st = k" using k calls by auto
  note at' = e_atD [OF at]
  note ok = e_atD(1) [OF at] e_at_reply [OF rs at] fits_pageD(5) [OF fit]
  have none: "\<not> e_room (e_heap st) i q (int z)" for i q
  proof
    assume r: "e_room (e_heap st) i q (int z)"
    then have "i < k" using at'(2) pg(2) by (simp add: e_room_def)
    then show False using room_from [OF rs fit at r] pg(1) by simp
  qed
  have "0 < mmap_ret (rs (e_calls st))" using rs by (simp add: replies_ok_def)
  then have more: "num_pages (e_heap st) < MAXPAGES" "mmap_ret (rs (e_calls st)) \<noteq> MAP_FAILED"
    using at'(2) pg(2) k4(1) by (auto simp: MAXPAGES_def MAP_FAILED_def)
  have p: "mmap_ret (rs (e_calls st)) = place rs z c k" using k4(2) pg(1) by (simp add: place_def)
  obtain h where h: "e_alloc (rs (e_calls st)) (int z) (e_heap st) = Inr (h, mmap_ret (rs (e_calls st)))" "ealloc_wf h"
    "ealloc_live h = insert (mmap_ret (rs (e_calls st)), int z) (ealloc_live (e_heap st))"
    "pages h = (pages (e_heap st))[num_pages (e_heap st) := mmap_ret (rs (e_calls st))]"
    "num_pages h = Suc (num_pages (e_heap st))"
    by (rule e_alloc_new_at [OF ok none more])
  have "pages h ! i = mmap_ret (rs i)" if "i < Suc k" for i
    using h(4) at'(2,3) pg(2) k4 that ealloc_wfD(1) [OF ok(1)] by (auto simp: nth_list_update MAXPAGES_def less_Suc_eq)
  then show ?thesis using that [of h] h at' pg k4(2) unfolding p by (simp add: e_at_def placed_Suc)
qed

section \<open>The loops of the test\<close>

definition contents :: "(nat \<Rightarrow> os_reply) \<Rightarrow> nat \<Rightarrow> nat \<Rightarrow> char \<Rightarrow> nat \<Rightarrow> memory \<Rightarrow> bool" where
  "contents rs z c x k m \<longleftrightarrow> (\<forall>j<k. all_bytes m (place rs z c j) z x)"

lemma growth_covers:
  assumes "growth c pg" "k < 4 * c" "0 < c"
  shows "k div c < pg (Suc k)"
  using assms by (auto simp: growth_def div_less_iff_less_mult)

lemma place_mapped:
  assumes fit: "fits_page z c" and at: "e_at rs np L st" and k: "k div c < np"
  shows "mapped_block (e_mapped (e_heap st)) (place rs z c k, int z)"
  unfolding mapped_block_def
proof (intro allI impI)
  fix a assume a: "in_block (place rs z c k, int z) a"
  have "pages (e_heap st) ! (k div c) \<le> a \<and> a < pages (e_heap st) ! (k div c) + E_PAGESIZE"
    using a place_in_page [OF fit, of rs k] e_atD(3) [OF at k] by (simp add: in_block_def E_PAGESIZE_def)
  then show "e_mapped (e_heap st) a" using k e_atD(2) [OF at] by (auto simp: e_mapped_def)
qed

lemma obtain_block_run:
  assumes rs: "replies_ok rs" and fit: "fits_page z c" and at: "e_at rs (pg k) (placed rs z c 0 k) st"
    and k: "k < 4 * c" and g: "growth c pg" and calls: "pg k = k \<Longrightarrow> e_calls st = k \<or> 4 \<le> k"
    and cont: "contents rs z c x k (e_mem st)"
  obtains st' where "obtain_block rs z x st = Inr (st', place rs z c k)"
    "e_at rs (pg (Suc k)) (placed rs z c 0 (Suc k)) st'" "contents rs z c x (Suc k) (e_mem st')"
    "e_shown st' = e_shown st" "e_calls st' = Suc (e_calls st)"
proof -
  obtain h where h: "e_alloc (rs (e_calls st)) (int z) (e_heap st) = Inr (h, place rs z c k)"
    "e_at rs (pg (Suc k)) (placed rs z c 0 (Suc k)) (st\<lparr>e_heap := h, e_calls := Suc (e_calls st)\<rparr>)"
    by (rule next_block [OF rs fit at k g calls])
  have "mapped_block (e_mapped h) (place rs z c k, int z)"
    using place_mapped [OF fit h(2) growth_covers [OF g k fits_pageD(2) [OF fit]]] by simp
  then obtain m where m: "store_loop (e_mapped h) [(place rs z c k, x)] 0 z (e_mem st) = Inr m"
    "all_bytes m (place rs z c k) z x" "\<forall>a. \<not> in_block (place rs z c k, int z) a \<longrightarrow> m a = e_mem st a"
    by (rule store_loop_fills1)
  have "all_bytes m (place rs z c j) z x" if "j < k" for j
    unfolding all_bytes_def
  proof (intro allI impI)
    fix i assume i: "i < z"
    have "apart (place rs z c j, int z) (place rs z c k, int z)" using place_apart [OF rs fit, of j k] that by simp
    then have "\<not> in_block (place rs z c k, int z) (place rs z c j + int i)"
      by (rule apart_in_block) (use i in \<open>simp add: in_block_def\<close>)
    then have "m (place rs z c j + int i) = e_mem st (place rs z c j + int i)" using m(3) by blast
    also have "\<dots> = x" using cont that i by (simp add: contents_def all_bytes_def)
    finally show "m (place rs z c j + int i) = x" .
  qed
  then have "contents rs z c x (Suc k) m" using m(2) by (simp add: contents_def less_Suc_eq)
  moreover have "e_at rs (pg (Suc k)) (placed rs z c 0 (Suc k)) (st\<lparr>e_heap := h, e_mem := m, e_calls := Suc (e_calls st)\<rparr>)"
    using h(2) by (simp add: e_at_def)
  ultimately show ?thesis
    using that [of "st\<lparr>e_heap := h, e_mem := m, e_calls := Suc (e_calls st)\<rparr>"] h(1) m(1) by (simp add: obtain_block_def)
qed

lemma e_at_say [simp]: "e_at rs np L (e_say l st) = e_at rs np L st" "e_at rs np L (printvsz h st) = e_at rs np L st"
  by (simp_all add: e_at_def e_say_def printvsz_def)

lemma say_frame [simp]:
  "e_mem (e_say l st) = e_mem st" "e_calls (e_say l st) = e_calls st" "e_heap (e_say l st) = e_heap st"
  "e_shown (e_say l st) = e_shown st @ [l]"
  "e_mem (printvsz h st) = e_mem st" "e_calls (printvsz h st) = e_calls st" "e_heap (printvsz h st) = e_heap st"
  "e_shown (printvsz h st) = e_shown st @ [Vsz h (num_pages (e_heap st))]"
  by (simp_all add: e_say_def printvsz_def)

fun hints :: "string option \<Rightarrow> (nat \<Rightarrow> nat) \<Rightarrow> nat \<Rightarrow> nat \<Rightarrow> e_line list" where
  "hints None pg k r = []"
| "hints (Some h) pg k 0 = []"
| "hints (Some h) pg k (Suc r) = Vsz h (pg (Suc k)) # hints (Some h) pg (Suc k) r"

lemma alloc_blocks_run:
  assumes rs: "replies_ok rs" and fit: "fits_page z c" and g: "growth c pg"
    and "e_at rs (pg k) (placed rs z c 0 k) st" "pg k = k \<Longrightarrow> e_calls st = k \<or> 4 \<le> k"
    "contents rs z c x k (e_mem st)" "k + r \<le> 4 * c"
  shows "\<exists>st'. alloc_blocks rs hint z x r st = Inr (st', map (place rs z c) [k..<k + r]) \<and>
    e_at rs (pg (k + r)) (placed rs z c 0 (k + r)) st' \<and> contents rs z c x (k + r) (e_mem st') \<and>
    e_shown st' = e_shown st @ hints hint pg k r"
  using assms(4-)
proof (induction r arbitrary: k st)
  case 0
  then show ?case by (cases hint) simp_all
next
  case (Suc r)
  have k: "k < 4 * c" using Suc.prems(4) by simp
  obtain st1 where st1: "obtain_block rs z x st = Inr (st1, place rs z c k)"
    "e_at rs (pg (Suc k)) (placed rs z c 0 (Suc k)) st1" "contents rs z c x (Suc k) (e_mem st1)"
    "e_shown st1 = e_shown st" "e_calls st1 = Suc (e_calls st)"
    by (rule obtain_block_run [OF rs fit Suc.prems(1) k g Suc.prems(2,3)])
  let ?st2 = "case hint of None \<Rightarrow> st1 | Some h \<Rightarrow> printvsz h st1"
  have st2: "e_at rs (pg (Suc k)) (placed rs z c 0 (Suc k)) ?st2" "contents rs z c x (Suc k) (e_mem ?st2)"
    "e_calls ?st2 = Suc (e_calls st)"
    "e_shown ?st2 = e_shown st @ (case hint of None \<Rightarrow> [] | Some h \<Rightarrow> [Vsz h (pg (Suc k))])"
    using st1 e_atD(2) [OF st1(2)] by (auto split: option.splits)
  have calls: "e_calls ?st2 = Suc k \<or> 4 \<le> Suc k" if "pg (Suc k) = Suc k"
  proof (cases "\<forall>k. pg k = 4")
    case False
    then have "pg k = k" using g by (auto simp: growth_def)
    then show ?thesis using Suc.prems(2) st2(3) by auto
  qed (use that in simp)
  from Suc.IH [OF st2(1) calls st2(2)] Suc.prems(4) obtain st' where
    st': "alloc_blocks rs hint z x r ?st2 = Inr (st', map (place rs z c) [Suc k..<k + Suc r])"
    "e_at rs (pg (k + Suc r)) (placed rs z c 0 (k + Suc r)) st'" "contents rs z c x (k + Suc r) (e_mem st')"
    "e_shown st' = e_shown ?st2 @ hints hint pg (Suc k) r" by auto
  moreover have "[k..<k + Suc r] = k # [Suc k..<k + Suc r]" by (simp add: upt_conv_Cons)
  ultimately show ?case using st1(1) st2(4) by (cases hint) auto
qed

lemma check_blocks_run:
  assumes "\<And>p. p \<in> set ps \<Longrightarrow> mapped_block ok (p, int n) \<and> all_bytes m p n x"
  shows "check_blocks ok n x ps m mismatch = Inr mismatch"
  using assms
proof (induction ps)
  case (Cons p ps)
  then have "check_loop ok p x m 0 n mismatch = Inr mismatch" by (intro check_loop_run) auto
  then show ?case using Cons by simp
qed simp

lemma placed_freed:
  assumes rs: "replies_ok rs" and fit: "fits_page z c" and "l < h"
  shows "{b \<in> placed rs z c l h. \<not> (fst b \<le> place rs z c l \<and> place rs z c l < fst b + E_MINALLOC)} = placed rs z c (Suc l) h"
proof -
  have "\<not> (place rs z c j \<le> place rs z c l \<and> place rs z c l < place rs z c j + E_MINALLOC)" if "j \<noteq> l" for j
    using place_apart [OF rs fit that] fits_pageD(3) [OF fit] by (auto simp: apart_def E_MINALLOC_def)
  moreover have "{l..<h} = insert l {Suc l..<h}" using assms(3) by auto
  ultimately show ?thesis by (auto simp: placed_def E_MINALLOC_def)
qed

lemma dealloc_blocks_run:
  assumes rs: "replies_ok rs" and fit: "fits_page z c"
  shows "e_at rs np (placed rs z c l h) st \<Longrightarrow> l \<le> h \<Longrightarrow>
    \<exists>st'. dealloc_blocks (map (place rs z c) [l..<h]) st = Inr st' \<and> e_at rs np {} st' \<and> e_shown st' = e_shown st"
proof (induction "h - l" arbitrary: l st)
  case 0
  then show ?case by (simp add: placed_def)
next
  case (Suc d)
  then have l: "l < h" by simp
  have "(place rs z c l, int z) \<in> ealloc_live (e_heap st)" using e_atD(4) [OF Suc.prems(1)] l by (simp add: placed_def)
  from e_dealloc_at [OF e_atD(1) [OF Suc.prems(1)] this] obtain s' where
    s': "e_dealloc (place rs z c l) (e_heap st) = Inr (s', None)" "ealloc_wf s'" "pages s' = pages (e_heap st)"
    "num_pages s' = num_pages (e_heap st)"
    "ealloc_live s' = {b \<in> ealloc_live (e_heap st). \<not> (fst b \<le> place rs z c l \<and> place rs z c l < fst b + E_MINALLOC)}" .
  have "e_at rs np (placed rs z c (Suc l) h) (st\<lparr>e_heap := s'\<rparr>)"
    using s' Suc.prems(1) placed_freed [OF rs fit l] by (simp add: e_at_def)
  moreover have "d = h - Suc l" "Suc l \<le> h" using Suc.hyps(2) l by simp_all
  ultimately obtain st' where
    "dealloc_blocks (map (place rs z c) [Suc l..<h]) (st\<lparr>e_heap := s'\<rparr>) = Inr st'" "e_at rs np {} st'" "e_shown st' = e_shown st"
    using Suc.hyps(1) [of "Suc l" "st\<lparr>e_heap := s'\<rparr>"] by auto
  then show ?case using s'(1) l by (auto simp: upt_conv_Cons)
qed

lemma check_and_free_run:
  assumes rs: "replies_ok rs" and fit: "fits_page z c" and at: "e_at rs 4 (placed rs z c 0 (4 * c)) st"
    and cont: "contents rs z c x (4 * c) (e_mem st)"
  shows "\<exists>st'. check_and_free z x (map (place rs z c) [0..<4 * c]) name st = Inr (st', True) \<and> e_at rs 4 {} st' \<and>
      e_shown st' = e_shown st @ [Vsz ''should not change:'' 4, Says name]"
proof -
  have "check_blocks (e_mapped (e_heap st)) z x (map (place rs z c) [0..<4 * c]) (e_mem st) False = Inr False"
  proof (rule check_blocks_run)
    fix p assume "p \<in> set (map (place rs z c) [0..<4 * c])"
    then obtain k where k: "p = place rs z c k" "k < 4 * c" by auto
    then have "k div c < 4" using fits_pageD(2) [OF fit] by (simp add: div_less_iff_less_mult)
    from place_mapped [OF fit at this] k cont
    show "mapped_block (e_mapped (e_heap st)) (p, int z) \<and> all_bytes (e_mem st) p z x" by (simp add: contents_def)
  qed
  moreover obtain st2 where "dealloc_blocks (map (place rs z c) [0..<4 * c]) st = Inr st2" "e_at rs 4 {} st2"
    "e_shown st2 = e_shown st" using dealloc_blocks_run [OF rs fit at] by blast
  ultimately show ?thesis
    using e_atD(2) [of rs 4 "{}" st2]
    by (intro exI [of _ "e_say (Says name) (printvsz ''should not change:'' st2)"]) (simp add: check_and_free_def)
qed

text \<open>A test from an allocator without live blocks; the pages may still have to be mapped.\<close>

lemma blocks_run:
  assumes rs: "replies_ok rs" and fit: "fits_page z c" and g: "growth c pg" "pg (4 * c) = 4"
    and at: "e_at rs (pg 0) {} st" "pg 0 = 0 \<Longrightarrow> e_calls st = 0"
  shows "\<exists>st'. alloc_blocks rs hint z x (4 * c) st = Inr (st', map (place rs z c) [0..<4 * c]) \<and>
    e_at rs 4 (placed rs z c 0 (4 * c)) st' \<and> contents rs z c x (4 * c) (e_mem st') \<and>
    e_shown st' = e_shown st @ hints hint pg 0 (4 * c)"
proof -
  have "e_at rs (pg 0) (placed rs z c 0 0) st" using at(1) by (simp add: placed_def)
  moreover have "e_calls st = 0 \<or> 4 \<le> (0 :: nat)" if "pg 0 = 0" using at(2) that by simp
  moreover have "contents rs z c x 0 (e_mem st)" by (simp add: contents_def)
  ultimately show ?thesis using alloc_blocks_run [OF rs fit g(1), of 0 st x "4 * c" hint] g(2) by simp
qed

section \<open>Properties\<close>

definition e_passes :: "e_line list" where
  "e_passes = Says ''Initializing memory manager'' #
     [Says ''Test1: checking heap expansion; allocate 4 X 4KB chunks'', Vsz ''start test 1:'' 0] @
     map (Vsz ''should increase by 4KB:'') [1, 2, 3, 4] @
     [Vsz ''should not change:'' 4, Says ''Test1: complete''] @
     [Says ''Test2: Check splitting of existing free chunks: allocate 64 X 256B chunks'', Vsz ''start test 2:'' 4] @
     [Vsz ''should not change:'' 4, Vsz ''should not change:'' 4, Says ''Test2: complete''] @
     [Says ''Test3: checking merging of existing free chunks; allocate 4 X 4KB chunks'', Vsz ''start test 3:'' 4] @
     replicate 4 (Vsz ''should not change:'' 4) @
     [Vsz ''should not change:'' 4, Says ''Test3: complete''] @
     [Says ''All tests complete'']"

text \<open>The three tests, each from the pages that the one before has left.\<close>

lemma pages_of_tests: "fits_page 4096 1" "fits_page 256 16" "growth 1 (\<lambda>k. k)" "growth c (\<lambda>k. 4)"
  by (simp_all add: fits_page_def growth_def)

lemma hints_of_tests: "hints (Some h) pg 0 4 = map (\<lambda>k. Vsz h (pg k)) [1, 2, 3, 4]"
  by (simp add: numeral_eq_Suc)

lemma e_test1_run:
  assumes rs: "replies_ok rs" and s: "e_at rs 0 {} s" "e_calls s = 0"
  obtains s1 where "e_test1 rs s = Inr (s1, True)" "e_at rs 4 {} s1"
    "e_shown s1 = e_shown s @ [Says ''Test1: checking heap expansion; allocate 4 X 4KB chunks'', Vsz ''start test 1:'' 0] @
       map (Vsz ''should increase by 4KB:'') [1, 2, 3, 4] @ [Vsz ''should not change:'' 4, Says ''Test1: complete'']"
proof -
  let ?s0 = "printvsz ''start test 1:'' (e_say (Says ''Test1: checking heap expansion; allocate 4 X 4KB chunks'') s)"
  have "e_at rs 0 {} ?s0" using s(1) by simp
  then obtain a where a: "alloc_blocks rs (Some ''should increase by 4KB:'') 4096 (CHR ''a'') 4 ?s0 =
      Inr (a, map (place rs 4096 1) [0..<4])" "e_at rs 4 (placed rs 4096 1 0 4) a" "contents rs 4096 1 (CHR ''a'') 4 (e_mem a)"
    "e_shown a = e_shown ?s0 @ hints (Some ''should increase by 4KB:'') (\<lambda>k. k) 0 4"
    using blocks_run [OF rs pages_of_tests(1,3), of ?s0 "Some ''should increase by 4KB:''" "CHR ''a''"] s(2) by auto
  obtain s1 where s1: "check_and_free 4096 (CHR ''a'') (map (place rs 4096 1) [0..<4]) ''Test1: complete'' a = Inr (s1, True)"
    "e_at rs 4 {} s1" "e_shown s1 = e_shown a @ [Vsz ''should not change:'' 4, Says ''Test1: complete'']"
    using check_and_free_run [OF rs pages_of_tests(1), of a "CHR ''a''" "''Test1: complete''"] a(2,3) by auto
  show ?thesis
    by (rule that [OF _ s1(2)])
      (use a(1) s1(1,3) e_atD(2) [OF s(1)] in \<open>simp_all add: e_test1_def a(4) hints_of_tests say_frame\<close>)
qed

lemma e_test2_run:
  assumes rs: "replies_ok rs" and s: "e_at rs 4 {} s"
  obtains s2 where "e_test2 rs s = Inr (s2, True)" "e_at rs 4 {} s2"
    "e_shown s2 = e_shown s @ [Says ''Test2: Check splitting of existing free chunks: allocate 64 X 256B chunks'',
       Vsz ''start test 2:'' 4, Vsz ''should not change:'' 4, Vsz ''should not change:'' 4, Says ''Test2: complete'']"
proof -
  let ?s0 = "printvsz ''start test 2:'' (e_say (Says ''Test2: Check splitting of existing free chunks: allocate 64 X 256B chunks'') s)"
  have "e_at rs 4 {} ?s0" using s by simp
  then obtain a where a: "alloc_blocks rs None 256 (CHR ''b'') 64 ?s0 = Inr (a, map (place rs 256 16) [0..<64])"
    "e_at rs 4 (placed rs 256 16 0 64) a" "contents rs 256 16 (CHR ''b'') 64 (e_mem a)" "e_shown a = e_shown ?s0"
    using blocks_run [OF rs pages_of_tests(2,4), of ?s0 None "CHR ''b''"] by auto
  let ?a = "printvsz ''should not change:'' a"
  obtain s2 where s2: "check_and_free 256 (CHR ''b'') (map (place rs 256 16) [0..<64]) ''Test2: complete'' ?a = Inr (s2, True)"
    "e_at rs 4 {} s2" "e_shown s2 = e_shown ?a @ [Vsz ''should not change:'' 4, Says ''Test2: complete'']"
    using check_and_free_run [OF rs pages_of_tests(2), of ?a "CHR ''b''" "''Test2: complete''"] a(2,3) by auto
  show ?thesis
    by (rule that [OF _ s2(2)])
      (use a(1) s2(1,3) e_atD(2) [OF s] e_atD(2) [OF a(2)] in \<open>simp_all add: e_test2_def a(4) say_frame\<close>)
qed

lemma e_test3_run:
  assumes rs: "replies_ok rs" and s: "e_at rs 4 {} s"
  obtains s3 where "e_test3 rs s = Inr (s3, True)" "e_at rs 4 {} s3"
    "e_shown s3 = e_shown s @ [Says ''Test3: checking merging of existing free chunks; allocate 4 X 4KB chunks'', Vsz ''start test 3:'' 4] @
       replicate 4 (Vsz ''should not change:'' 4) @ [Vsz ''should not change:'' 4, Says ''Test3: complete'']"
proof -
  let ?s0 = "printvsz ''start test 3:'' (e_say (Says ''Test3: checking merging of existing free chunks; allocate 4 X 4KB chunks'') s)"
  have "e_at rs 4 {} ?s0" using s by simp
  then obtain a where a: "alloc_blocks rs (Some ''should not change:'') 4096 (CHR ''c'') 4 ?s0 =
      Inr (a, map (place rs 4096 1) [0..<4])" "e_at rs 4 (placed rs 4096 1 0 4) a" "contents rs 4096 1 (CHR ''c'') 4 (e_mem a)"
    "e_shown a = e_shown ?s0 @ hints (Some ''should not change:'') (\<lambda>k. 4) 0 4"
    using blocks_run [OF rs pages_of_tests(1,4), of ?s0 "Some ''should not change:''" "CHR ''c''"] by auto
  obtain s3 where s3: "check_and_free 4096 (CHR ''c'') (map (place rs 4096 1) [0..<4]) ''Test3: complete'' a = Inr (s3, True)"
    "e_at rs 4 {} s3" "e_shown s3 = e_shown a @ [Vsz ''should not change:'' 4, Says ''Test3: complete'']"
    using check_and_free_run [OF rs pages_of_tests(1), of a "CHR ''c''" "''Test3: complete''"] a(2,3) by auto
  show ?thesis
    by (rule that [OF _ s3(2)])
      (use a(1) s3(1,3) e_atD(2) [OF s] in \<open>simp_all add: e_test3_def a(4) hints_of_tests say_frame numeral_eq_Suc\<close>)
qed

text \<open>
  C8: The test of the elastic allocator accepts it wherever \<open>mmap\<close> puts the pages, as long as
  it hands out fresh ones: every access is inside a mapped page, all blocks hold what was written to
  them, no pointer is refused, and the size of the process does what the test's hints say: each of the
  first four requests maps one page, and nothing is mapped after that, neither for 64 blocks of 256
  bytes nor for four pages again.
\<close>

theorem test_ealloc_passes:
  assumes "replies_ok rs" and "e_calls st = 0"
  shows "\<exists>st'. test_ealloc rs st = Inr (st', 0) \<and> e_shown st' = e_shown st @ e_passes"
proof -
  let ?s = "(e_say (Says ''Initializing memory manager'') st)\<lparr>e_heap := e_init_alloc (e_heap st)\<rparr>"
  have "e_at rs 0 {} ?s" "e_calls ?s = 0" using e_init_ok [of "e_heap st"] assms(2) by (simp_all add: e_at_def e_init_alloc_def)
  then obtain s1 where s1: "e_test1 rs ?s = Inr (s1, True)" "e_at rs 4 {} s1"
    "e_shown s1 = e_shown ?s @ [Says ''Test1: checking heap expansion; allocate 4 X 4KB chunks'', Vsz ''start test 1:'' 0] @
       map (Vsz ''should increase by 4KB:'') [1, 2, 3, 4] @ [Vsz ''should not change:'' 4, Says ''Test1: complete'']"
    using e_test1_run [OF assms(1)] by blast
  obtain s2 where s2: "e_test2 rs s1 = Inr (s2, True)" "e_at rs 4 {} s2"
    "e_shown s2 = e_shown s1 @ [Says ''Test2: Check splitting of existing free chunks: allocate 64 X 256B chunks'',
       Vsz ''start test 2:'' 4, Vsz ''should not change:'' 4, Vsz ''should not change:'' 4, Says ''Test2: complete'']"
    using e_test2_run [OF assms(1) s1(2)] by blast
  obtain s3 where s3: "e_test3 rs s2 = Inr (s3, True)"
    "e_shown s3 = e_shown s2 @ [Says ''Test3: checking merging of existing free chunks; allocate 4 X 4KB chunks'', Vsz ''start test 3:'' 4] @
       replicate 4 (Vsz ''should not change:'' 4) @ [Vsz ''should not change:'' 4, Says ''Test3: complete'']"
    using e_test3_run [OF assms(1) s2(2)] by blast
  have "e_shown s3 @ [Says ''All tests complete''] = e_shown st @ e_passes"
    unfolding s3(2) s2(3) s1(3) by (simp add: e_passes_def say_frame numeral_eq_Suc)
  then show ?thesis using s1(1) s2(1) s3(1) by (simp add: test_ealloc_def)
qed

text \<open>Pages one after the other.\<close>

definition pages_in_row :: "nat \<Rightarrow> os_reply" where
  "pages_in_row k = \<lparr>mmap_ret = 4096 * int (Suc k), malloc_free_ok = True, malloc_sizes_ok = True\<rparr>"

definition e_test_start :: ealloc_test where
  "e_test_start = \<lparr>e_heap = \<lparr>pages = [], e_free_chunks = [], e_alloc_sizes = [], num_pages = 0\<rparr>,
     e_mem = (\<lambda>a. NUL), e_calls = 0, e_shown = []\<rparr>"

theorem test_ealloc_passes_witness:
  "\<exists>st'. test_ealloc pages_in_row e_test_start = Inr (st', 0) \<and> e_shown st' = e_passes"
proof -
  have "replies_ok pages_in_row" by (auto simp: replies_ok_def pages_in_row_def apart_def E_PAGESIZE_def)
  from test_ealloc_passes [OF this, of e_test_start] show ?thesis by (simp add: e_test_start_def)
qed

end
