(* ===== verification/EchoPair.thy ===== *)
theory EchoPair
  imports CString "HOL-Library.Sublist"
begin

text \<open>
  \<open>kv-server/simple-server.c\<close> and \<open>simple-client.c\<close>: a server that answers everything it reads from its one
  client with the same sentence, and a client that sends the lines of its input and shows what it
  reads back. First the server alone, for all answers of its system calls; then both over a
  stream connection.
\<close>

section \<open>The server\<close>

definition ANSWER :: string where "ANSWER = ''I got your message''"

text \<open>What the server shows for the bytes of one \<open>read\<close> into the cleared buffer.\<close>

definition server_line :: "string \<Rightarrow> string" where
  "server_line data = ''Here is the message: '' @ cstr (fill_buffer 256 data) 0"

text \<open>The end of a program: an exit of \<open>error\<close> with its message, or the return of \<open>main\<close>.\<close>

datatype ending = Failed string | Returned

text \<open>
  The loop, for the results of its calls in order: a \<open>read\<close> (\<open>None\<close>: it fails; no bytes: the client has
  closed) and the \<open>write\<close> that follows. No ending: the server waits for a client that is silent.
\<close>

fun server_loop :: "(string option \<times> int) list \<Rightarrow> string list \<times> ending option" where
  "server_loop [] = ([], None)"
| "server_loop ((None, n2) # rs) = ([], Some (Failed ''ERROR reading from socket''))"
| "server_loop ((Some data, n2) # rs) =
     (if n2 < 0 then ([server_line data], Some (Failed ''ERROR writing to socket''))
      else if data \<noteq> [] \<and> 0 < n2 then (let (ls, e) = server_loop rs in (server_line data # ls, e))
      else ([server_line data], Some Returned))"

record server_answers =
  has_port :: bool
  socket_ret :: int
  bind_ret :: int
  accept_ret :: int

definition simple_server :: "server_answers \<Rightarrow> (string option \<times> int) list \<Rightarrow> string list \<times> ending option" where
  "simple_server a rs =
     (if \<not> has_port a then ([], Some (Failed ''ERROR, no port provided''))
      else if socket_ret a < 0 then ([], Some (Failed ''ERROR opening socket''))
      else if bind_ret a < 0 then ([], Some (Failed ''ERROR on binding''))
      else if accept_ret a < 0 then ([], Some (Failed ''ERROR on accept''))
      else server_loop rs)"

section \<open>The client\<close>

record client_answers =
  has_arguments :: bool
  csocket_ret :: int
  host_found :: bool
  connect_ret :: int

text \<open>\<open>main\<close> up to its loop; every exit of the client has status 0.\<close>

definition client_setup :: "client_answers \<Rightarrow> string option" where
  "client_setup a =
     (if \<not> has_arguments a then Some ''usage''
      else if csocket_ret a < 0 then Some ''ERROR opening socket''
      else if \<not> host_found a then Some ''ERROR, no such host''
      else if connect_ret a < 0 then Some ''ERROR connecting''
      else None)"

text \<open>
  The two programs and the bytes under way in both directions. \<open>reads\<close> and \<open>sends\<close> record the bytes
  of each \<open>read\<close> of the server and each \<open>write\<close> of the client.
\<close>

datatype client_pc = Asking | Waiting

record pair =
  to_server :: string
  to_client :: string
  cpc :: client_pc
  input :: string
  server_shown :: "string list"
  client_shown :: "string list"
  sends :: "string list"
  reads :: "string list"

text \<open>A round of the client's loop up to its \<open>write\<close>, with room for 254 characters and the NUL.\<close>

definition client_send :: "pair \<Rightarrow> pair option" where
  "client_send st =
     (if cpc st = Asking then
        (let (chunk, rest) = fgets 254 (input st); msg = cstr (fill_buffer 256 chunk) 0 in
         Some (st\<lparr>input := rest, to_server := to_server st @ msg, sends := sends st @ [msg], cpc := Waiting\<rparr>))
      else None)"

text \<open>A \<open>read\<close> takes between one byte and what there is, up to 255.\<close>

definition may_read :: "nat \<Rightarrow> string \<Rightarrow> bool" where
  "may_read k s \<longleftrightarrow> 0 < k \<and> k \<le> 255 \<and> k \<le> length s"

definition client_receive :: "nat \<Rightarrow> pair \<Rightarrow> pair option" where
  "client_receive k st =
     (if cpc st = Waiting \<and> may_read k (to_client st)
      then Some (st\<lparr>to_client := drop k (to_client st),
                    client_shown := client_shown st @ [cstr (fill_buffer 256 (take k (to_client st))) 0], cpc := Asking\<rparr>)
      else None)"

definition server_round :: "nat \<Rightarrow> pair \<Rightarrow> pair option" where
  "server_round k st =
     (if may_read k (to_server st)
      then let data = take k (to_server st)
        in Some (st\<lparr>to_server := drop k (to_server st), server_shown := server_shown st @ [server_line data],
                    reads := reads st @ [data], to_client := to_client st @ ANSWER\<rparr>)
      else None)"

datatype pair_action = ClientSend | ClientReceive nat | ServerRound nat

fun pair_step :: "pair_action \<Rightarrow> pair \<Rightarrow> pair option" where
  "pair_step ClientSend st = client_send st"
| "pair_step (ClientReceive k) st = client_receive k st"
| "pair_step (ServerRound k) st = server_round k st"

definition pair_init :: "string \<Rightarrow> pair" where
  "pair_init inp = \<lparr>to_server = [], to_client = [], cpc = Asking, input = inp, server_shown = [], client_shown = [],
     sends = [], reads = []\<rparr>"

section \<open>Any division into reads\<close>

lemma server_loop_rounds:
  "\<forall>d\<in>set ds. d \<noteq> [] \<Longrightarrow> server_loop (map (\<lambda>d. (Some d, 18)) ds) = (map server_line ds, None)"
  by (induction ds) auto

lemma ANSWER: "ANSWER \<noteq> []" "length ANSWER = 18" "NUL \<notin> set ANSWER"
  by (simp_all add: ANSWER_def)

lemma cstr_text: "NUL \<notin> set s \<Longrightarrow> length s < n \<Longrightarrow> cstr (fill_buffer n s) 0 = s"
  by (simp add: cstr_fill_buffer)

text \<open>Nothing is lost, repeated or reordered, and there is one answer for every \<open>read\<close>.\<close>

definition streams_ok :: "string \<Rightarrow> pair \<Rightarrow> bool" where
  "streams_ok inp st \<longleftrightarrow> concat (sends st) @ input st = inp \<and> concat (reads st) @ to_server st = concat (sends st) \<and>
     concat (client_shown st) @ to_client st = concat (replicate (length (reads st)) ANSWER) \<and>
     server_shown st = map server_line (reads st) \<and> (\<forall>d\<in>set (reads st). d \<noteq> [] \<and> length d \<le> 255)"

lemma streams_step:
  assumes plain: "NUL \<notin> set inp" and inv: "streams_ok inp st" and step: "pair_step a st = Some st'"
  shows "streams_ok inp st'"
proof (cases a)
  case ClientSend
  have "NUL \<notin> set (input st)" using plain inv by (auto simp: streams_ok_def)
  moreover obtain chunk rest where f: "fgets 254 (input st) = (chunk, rest)" by (cases "fgets 254 (input st)")
  moreover have io: "chunk @ rest = input st" "length chunk \<le> 254"
    using fgets_split [of 254 "input st"] length_fgets [of 254 "input st"] f by simp_all
  ultimately have "NUL \<notin> set chunk" by (metis UnCI set_append)
  then have "cstr (fill_buffer 256 chunk) 0 = chunk" using io(2) by (intro cstr_text) auto
  then have st': "st' = st\<lparr>input := rest, to_server := to_server st @ chunk, sends := sends st @ [chunk], cpc := Waiting\<rparr>"
    using step ClientSend f by (simp add: client_send_def split: if_splits)
  have "concat (reads st) @ to_server st @ chunk = concat (sends st) @ chunk"
    using inv unfolding streams_ok_def by (simp only: append_assoc [symmetric])
  then show ?thesis using inv io(1) by (simp add: streams_ok_def st')
next
  case (ClientReceive k)
  then have k: "may_read k (to_client st)" and st': "st' = st\<lparr>to_client := drop k (to_client st),
      client_shown := client_shown st @ [cstr (fill_buffer 256 (take k (to_client st))) 0], cpc := Asking\<rparr>"
    using step by (simp_all add: client_receive_def split: if_splits)
  have eq: "concat (client_shown st) @ to_client st = concat (replicate (length (reads st)) ANSWER)"
    using inv by (simp add: streams_ok_def)
  have "set (to_client st) \<subseteq> set (concat (replicate (length (reads st)) ANSWER))" unfolding eq [symmetric] by simp
  then have "NUL \<notin> set (to_client st)" using ANSWER(3) by auto
  then have "NUL \<notin> set (take k (to_client st))" by (meson in_set_takeD)
  then have c: "cstr (fill_buffer 256 (take k (to_client st))) 0 = take k (to_client st)"
    using k by (intro cstr_text) (simp_all add: may_read_def)
  have "concat (client_shown st @ [take k (to_client st)]) @ drop k (to_client st) = concat (client_shown st) @ to_client st" by simp
  then show ?thesis using inv eq unfolding streams_ok_def st' c by simp
next
  case (ServerRound k)
  then have k: "may_read k (to_server st)" and st': "st' = st\<lparr>to_server := drop k (to_server st),
      server_shown := server_shown st @ [server_line (take k (to_server st))], reads := reads st @ [take k (to_server st)],
      to_client := to_client st @ ANSWER\<rparr>"
    using step by (simp_all add: server_round_def Let_def split: if_splits)
  have "concat (client_shown st) @ to_client st @ ANSWER = concat (replicate (length (reads st)) ANSWER) @ ANSWER"
    using inv unfolding streams_ok_def by (simp only: append_assoc [symmetric])
  moreover have "concat (replicate n ANSWER) @ ANSWER = ANSWER @ concat (replicate n ANSWER)" for n
    by (induction n) simp_all
  ultimately show ?thesis using inv k by (auto simp: streams_ok_def st' may_read_def)
qed

lemma streams_exec:
  "exec pair_step st sched = Some st' \<Longrightarrow> NUL \<notin> set inp \<Longrightarrow> streams_ok inp st \<Longrightarrow> streams_ok inp st'"
proof (induction sched arbitrary: st)
  case (Cons a sched)
  then obtain st1 where "pair_step a st = Some st1" "exec pair_step st1 sched = Some st'" by (auto split: option.splits)
  with Cons streams_step show ?case by blast
qed simp

section \<open>Taking turns\<close>

text \<open>The lines the client sends: at most 254 characters each, with the newline.\<close>

function input_lines :: "string \<Rightarrow> string list" where
  "input_lines s = (if s = [] then [] else fst (fgets 254 s) # input_lines (snd (fgets 254 s)))"
  by pat_completeness auto
termination
  by (relation "measure length") (auto dest: fgets_progress [of _ 254])

declare input_lines.simps [simp del]

text \<open>Every \<open>read\<close> finds all that was written by the other program before it, as on an idle connection.\<close>

fun whole :: "pair_action \<Rightarrow> pair \<Rightarrow> bool" where
  "whole ClientSend st = True"
| "whole (ClientReceive k) st = (k = length (to_client st))"
| "whole (ServerRound k) st = (k = length (to_server st))"

definition whole_step :: "pair_action \<Rightarrow> pair \<Rightarrow> pair option" where
  "whole_step a st = (if whole a st then pair_step a st else None)"

definition turn_ok :: "string \<Rightarrow> pair \<Rightarrow> bool" where
  "turn_ok inp st \<longleftrightarrow> NUL \<notin> set (input st) \<and>
     (case cpc st of
        Asking \<Rightarrow> to_server st = [] \<and> to_client st = [] \<and> input_lines inp = reads st @ input_lines (input st) \<and>
          client_shown st = replicate (length (reads st)) ANSWER
      | Waiting \<Rightarrow>
          to_server st = [] \<and> to_client st = [] \<and> input st = [] \<and> input_lines inp = reads st \<and>
            client_shown st = replicate (length (reads st)) ANSWER \<or>
          (\<exists>m. m \<noteq> [] \<and> length m \<le> 254 \<and> to_server st = m \<and> to_client st = [] \<and>
            input_lines inp = reads st @ m # input_lines (input st) \<and> client_shown st = replicate (length (reads st)) ANSWER) \<or>
          to_server st = [] \<and> to_client st = ANSWER \<and> input_lines inp = reads st @ input_lines (input st) \<and>
            Suc (length (client_shown st)) = length (reads st) \<and> client_shown st = replicate (length (client_shown st)) ANSWER)"

lemma whole_pair_step: "whole_step a st = Some st' \<Longrightarrow> pair_step a st = Some st'"
  by (simp add: whole_step_def split: if_splits)

lemma whole_exec: "exec whole_step st sched = Some st' \<Longrightarrow> exec pair_step st sched = Some st'"
proof (induction sched arbitrary: st)
  case (Cons a sched)
  then obtain st1 where "whole_step a st = Some st1" "exec whole_step st1 sched = Some st'" by (auto split: option.splits)
  with Cons.IH whole_pair_step show ?case by simp
qed simp

lemma turn_step:
  assumes inv: "turn_ok inp st" and step: "whole_step a st = Some st'"
  shows "turn_ok inp st'"
proof (cases a)
  case ClientSend
  obtain chunk rest where f: "fgets 254 (input st) = (chunk, rest)" by (cases "fgets 254 (input st)")
  have io: "chunk @ rest = input st" "length chunk \<le> 254"
    using fgets_split [of 254 "input st"] length_fgets [of 254 "input st"] f by simp_all
  have nn: "NUL \<notin> set (input st)" using inv by (simp add: turn_ok_def)
  then have "NUL \<notin> set chunk" "NUL \<notin> set rest" using io(1) by (metis UnCI set_append)+
  then have c: "cstr (fill_buffer 256 chunk) 0 = chunk" using io(2) by (intro cstr_text) auto
  have st': "st' = st\<lparr>input := rest, to_server := to_server st @ chunk, sends := sends st @ [chunk], cpc := Waiting\<rparr>" "cpc st = Asking"
    using whole_pair_step [OF step] ClientSend f c by (simp_all add: client_send_def split: if_splits)
  show ?thesis
  proof (cases "input st = []")
    case True
    then have "chunk = []" "rest = []" using io(1) by simp_all
    then show ?thesis using inv st' True by (simp add: turn_ok_def input_lines.simps [of "[]"])
  next
    case False
    then have "chunk \<noteq> []" using fgets_progress [of "input st" 254] f by simp
    moreover have "input_lines (input st) = chunk # input_lines rest" using False f by (simp add: input_lines.simps [of "input st"])
    ultimately show ?thesis using inv st' io(2) \<open>NUL \<notin> set rest\<close> by (simp add: turn_ok_def)
  qed
next
  case (ClientReceive k)
  then have k: "k = length (to_client st)" "may_read k (to_client st)" "cpc st = Waiting"
    and st': "st' = st\<lparr>to_client := drop k (to_client st),
      client_shown := client_shown st @ [cstr (fill_buffer 256 (take k (to_client st))) 0], cpc := Asking\<rparr>"
    using step by (simp_all add: whole_step_def client_receive_def split: if_splits)
  have t: "to_client st = ANSWER" "to_server st = []" "NUL \<notin> set (input st)" "input_lines inp = reads st @ input_lines (input st)"
    "Suc (length (client_shown st)) = length (reads st)" "client_shown st = replicate (length (client_shown st)) ANSWER"
    using inv k by (auto simp: turn_ok_def may_read_def)
  have c: "cstr (fill_buffer 256 ANSWER) 0 = ANSWER" using ANSWER by (intro cstr_text) auto
  have "client_shown st @ [ANSWER] = replicate (length (reads st)) ANSWER"
    using t(5,6) by (metis replicate_append_same replicate_Suc)
  then show ?thesis using t k(1) c by (simp add: turn_ok_def st')
next
  case (ServerRound k)
  then have k: "k = length (to_server st)" "may_read k (to_server st)" and st': "st' = st\<lparr>to_server := drop k (to_server st),
      server_shown := server_shown st @ [server_line (take k (to_server st))], reads := reads st @ [take k (to_server st)],
      to_client := to_client st @ ANSWER\<rparr>"
    using step by (simp_all add: whole_step_def server_round_def Let_def split: if_splits)
  then have "to_server st \<noteq> []" by (simp add: may_read_def)
  then have w: "cpc st = Waiting" using inv by (cases "cpc st") (auto simp: turn_ok_def)
  then have "to_client st = []" "input_lines inp = reads st @ to_server st # input_lines (input st)"
    "client_shown st = replicate (length (reads st)) ANSWER" "NUL \<notin> set (input st)"
    using inv \<open>to_server st \<noteq> []\<close> by (auto simp: turn_ok_def)
  then show ?thesis using w k(1) by (simp add: turn_ok_def st')
qed

text \<open>How many steps are left: three for each line and one for the end of the input.\<close>

definition pair_fuel :: "pair \<Rightarrow> nat" where
  "pair_fuel st = 5 * length (input st) + 4 * length (to_server st) + (if to_client st = [] then 0 else 2) +
     (if cpc st = Asking then 1 else 0)"

lemma whole_step_fuel:
  assumes "whole_step a st = Some st'"
  shows "pair_fuel st' < pair_fuel st"
proof (cases a)
  case ClientSend
  let ?chunk = "fst (fgets 254 (input st))" and ?rest = "snd (fgets 254 (input st))"
  have "length ?chunk + length ?rest = length (input st)" using fgets_split [of 254 "input st"] by (metis length_append)
  moreover have "length (cstr (fill_buffer 256 ?chunk) 0) \<le> length ?chunk"
    using length_cstr_fill [of ?chunk 256 0] length_fgets [of 254 "input st"] by simp
  moreover have "cpc st = Asking" "input st' = ?rest" "to_server st' = to_server st @ cstr (fill_buffer 256 ?chunk) 0"
    "to_client st' = to_client st" "cpc st' = Waiting"
    using whole_pair_step [OF assms] ClientSend by (auto simp: client_send_def case_prod_beta Let_def split: if_splits)
  ultimately show ?thesis by (simp add: pair_fuel_def)
next
  case (ClientReceive k)
  then show ?thesis using assms
    by (auto simp: whole_step_def client_receive_def may_read_def pair_fuel_def split: if_splits)
next
  case (ServerRound k)
  then have "to_server st \<noteq> []" "to_server st' = []" "input st' = input st" "cpc st' = cpc st"
    using assms by (auto simp: whole_step_def server_round_def may_read_def Let_def split: if_splits)
  then show ?thesis by (cases "to_server st") (simp_all add: pair_fuel_def)
qed

interpretation turns: bounded_runs whole_step "turn_ok inp" pair_fuel for inp
  by unfold_locales (rule turn_step whole_step_fuel; assumption)+

section \<open>Properties\<close>

text \<open>
  However the network divides the streams into reads, the server shows exactly the bytes the client
  typed, in order, in pieces of at most 255, and answers each piece once; all the client shows is these
  answers, in order. The server's part is a run of its loop.
\<close>

theorem pair_keeps_streams:
  assumes "NUL \<notin> set inp" and "exec pair_step (pair_init inp) sched = Some st"
  shows "concat (reads st) @ to_server st @ input st = inp \<and> (\<forall>d\<in>set (reads st). length d \<le> 255) \<and>
     server_loop (map (\<lambda>d. (Some d, 18)) (reads st)) = (server_shown st, None) \<and>
     concat (client_shown st) @ to_client st = concat (replicate (length (reads st)) ANSWER)"
proof -
  have "streams_ok inp (pair_init inp)" by (simp add: streams_ok_def pair_init_def)
  from streams_exec [OF assms(2,1) this] show ?thesis
    using server_loop_rounds [of "reads st"] unfolding streams_ok_def by (simp flip: append_assoc)
qed

text \<open>
  C22: When every \<open>read\<close> finds what was written before it, each line is read as one and answered by one
  sentence. At the end of its input the client does not stop: it sends nothing and waits for an
  answer that never comes, while the server waits for it. So every run is finite, and where no step is
  left everything was served and both programs wait.
\<close>

theorem pair_serves_lines:
  assumes "NUL \<notin> set inp" and "exec whole_step (pair_init inp) sched = Some st"
  shows "length sched \<le> 5 * length inp + 1 \<and> prefix (reads st) (input_lines inp) \<and>
     ((\<forall>a. whole_step a st = None) \<longrightarrow> cpc st = Waiting \<and> input st = [] \<and> to_server st = [] \<and> to_client st = [] \<and>
        reads st = input_lines inp \<and> client_shown st = replicate (length (input_lines inp)) ANSWER)"
proof -
  have "turn_ok inp (pair_init inp)" using assms(1) by (simp add: turn_ok_def pair_init_def)
  note ok = this
  have inv: "turn_ok inp st" using turns.exec_inv [OF ok assms(2)] .
  then have "prefix (reads st) (input_lines inp)" unfolding turn_ok_def by (cases "cpc st") auto
  moreover have "cpc st = Waiting \<and> input st = [] \<and> to_server st = [] \<and> to_client st = [] \<and>
        reads st = input_lines inp \<and> client_shown st = replicate (length (input_lines inp)) ANSWER"
    if none: "\<forall>a. whole_step a st = None"
  proof -
    have w: "cpc st = Waiting"
      using spec [OF none, of ClientSend] by (cases "cpc st") (auto simp: whole_step_def client_send_def Let_def split: prod.splits)
    have "to_client st \<noteq> ANSWER"
      using spec [OF none, of "ClientReceive (length (to_client st))"] w ANSWER by (auto simp: whole_step_def client_receive_def may_read_def)
    moreover have "to_server st = [] \<or> 254 < length (to_server st)"
      using spec [OF none, of "ServerRound (length (to_server st))"]
      by (force simp: whole_step_def server_round_def may_read_def Let_def split: if_splits)
    ultimately show ?thesis using inv w by (auto simp: turn_ok_def)
  qed
  moreover have "length sched \<le> 5 * length inp + 1"
    using turns.run_length [OF ok assms(2)] by (simp add: pair_fuel_def pair_init_def)
  ultimately show ?thesis by blast
qed

section \<open>Witnesses\<close>

definition two_lines :: string where "two_lines = ''one'' @ [nl] @ ''two'' @ [nl]"

definition two_rounds :: "pair_action list" where
  "two_rounds = [ClientSend, ServerRound 4, ClientReceive 18, ClientSend, ServerRound 4, ClientReceive 18, ClientSend]"

lemma two_lines: "NUL \<notin> set two_lines" "input_lines two_lines = [''one'' @ [nl], ''two'' @ [nl]]"
  by (simp_all add: two_lines_def input_lines.simps numeral_eq_Suc)

lemma two_rounds_run:
  "\<exists>st. exec whole_step (pair_init two_lines) two_rounds = Some st \<and> cpc st = Waiting \<and> to_server st = [] \<and> to_client st = [] \<and> input st = []"
proof -
  have "map_option (\<lambda>st. (cpc st, to_server st, to_client st, input st)) (exec whole_step (pair_init two_lines) two_rounds) =
      Some (Waiting, [], [], [])"
    by code_simp
  then show ?thesis unfolding map_option_eq_Some prod.inject by blast
qed

theorem pair_keeps_streams_witness:
  "\<exists>st. exec pair_step (pair_init two_lines) two_rounds = Some st \<and> concat (reads st) = two_lines"
proof -
  obtain st where st: "exec whole_step (pair_init two_lines) two_rounds = Some st" "to_server st = []" "input st = []"
    using two_rounds_run by blast
  from pair_keeps_streams [OF two_lines(1) whole_exec [OF st(1)]] st(2,3) whole_exec [OF st(1)] show ?thesis by auto
qed

theorem pair_serves_lines_witness:
  "\<exists>st. exec whole_step (pair_init two_lines) two_rounds = Some st \<and> cpc st = Waiting \<and>
     reads st = [''one'' @ [nl], ''two'' @ [nl]] \<and> client_shown st = [ANSWER, ANSWER]"
proof -
  obtain st where st: "exec whole_step (pair_init two_lines) two_rounds = Some st" "cpc st = Waiting"
    "to_server st = []" "to_client st = []" using two_rounds_run by blast
  have "whole_step a st = None" for a
    using st(2-4) by (cases a) (auto simp: whole_step_def client_send_def client_receive_def server_round_def may_read_def)
  with pair_serves_lines [OF two_lines(1) st(1)] st two_lines(2) show ?thesis by (auto simp: numeral_eq_Suc)
qed

end
