(* ===== verification/EpollServer.thy ===== *)
theory EpollServer
  imports CString "HOL-Library.Sublist"
begin

text \<open>
  \<open>kv-server/epoll-server.c\<close>: a server for many clients that waits for edge-triggered events and handles
  them one after the other. The record \<open>epoll\<close> holds what the server's process and the sockets know;
  the actions of the clients and the return of \<open>epoll_wait\<close> interleave with the handling of events
  in any order.
\<close>

section \<open>The sockets\<close>

text \<open>Clients are numbered; the server's descriptors are the listening socket and one per accepted client.\<close>

datatype fd = Listener | Conn nat

text \<open>Running, ended by \<open>error\<close> with its message, or killed by \<open>SIGPIPE\<close>.\<close>

datatype status = Running | Exited string | Killed

text \<open>
  \<open>backlog\<close>: connections not yet accepted; \<open>conns\<close>: accepted ones, none of which the server ever closes;
  \<open>wire c\<close>: the bytes client \<open>c\<close> has sent that have not arrived; \<open>unread c\<close>: those that have arrived and the
  server has not read; \<open>edges\<close>: descriptors with an event not yet reported; \<open>todo\<close>: the reported events still to be
  handled; \<open>answers c\<close>: replies client \<open>c\<close> has not read. \<open>gone c\<close>: the client has closed its end; \<open>ended c\<close>: the
  end of its bytes has arrived; \<open>late c\<close>: its system resets the connection, because replies were unread when it
  closed or came later, or because it asked for that; \<open>reset c\<close>: the reset has arrived. \<open>msgs\<close>, \<open>seen\<close> and
  \<open>replies\<close> record what each client sent, what each \<open>read\<close> got, and the number of replies.
\<close>

record epoll =
  backlog :: "nat list"
  conns :: "nat list"
  wire :: "nat \<Rightarrow> string"
  unread :: "nat \<Rightarrow> string"
  edges :: "fd list"
  todo :: "fd list"
  answers :: "nat \<Rightarrow> nat"
  gone :: "nat \<Rightarrow> bool"
  ended :: "nat \<Rightarrow> bool"
  late :: "nat \<Rightarrow> bool"
  reset :: "nat \<Rightarrow> bool"
  status :: status
  shown :: "string list"
  msgs :: "nat \<Rightarrow> string list"
  seen :: "nat \<Rightarrow> string list"
  replies :: "nat \<Rightarrow> nat"

definition MAX_EVENTS :: nat where "MAX_EVENTS = 16"

definition REPLY :: string where "REPLY = ''I got your message''"

definition add_edge :: "fd \<Rightarrow> epoll \<Rightarrow> epoll" where
  "add_edge e st = st\<lparr>edges := List.insert e (edges st)\<rparr>"

text \<open>Does \<open>epoll_wait\<close> find the descriptor ready?\<close>

fun available :: "fd \<Rightarrow> epoll \<Rightarrow> bool" where
  "available Listener st = (backlog st \<noteq> [])"
| "available (Conn c) st = (c \<in> set (conns st) \<and> (unread st c \<noteq> [] \<or> ended st c \<or> reset st c))"

text \<open>
  The calls of the server on descriptors that do not block; \<open>None\<close> is an error. \<open>limit\<close> is the number of connections
  the process has descriptors for, \<open>room\<close> the number of bytes the send buffer of a connection takes. The system may
  report the reset of a connection as an error of \<open>accept\<close> or \<open>read\<close> (\<open>err\<close>) or let the bytes that arrived and their
  end be read; a \<open>write\<close> to that connection raises \<open>SIGPIPE\<close> (\<open>pipe\<close>) or fails.
\<close>

definition sys_accept :: "nat \<Rightarrow> bool \<Rightarrow> epoll \<Rightarrow> (nat \<times> epoll) option" where
  "sys_accept limit err st =
     (case backlog st of
        [] \<Rightarrow> None
      | c # cs \<Rightarrow> if limit \<le> length (conns st) \<or> reset st c \<and> err then None else Some (c, st\<lparr>backlog := cs\<rparr>))"

definition sys_epoll_add :: "nat \<Rightarrow> epoll \<Rightarrow> epoll" where
  "sys_epoll_add c st =
     (let st = st\<lparr>conns := conns st @ [c]\<rparr> in if available (Conn c) st then add_edge (Conn c) st else st)"

definition sys_read :: "bool \<Rightarrow> nat \<Rightarrow> nat \<Rightarrow> epoll \<Rightarrow> (string \<times> epoll) option" where
  "sys_read err c n st =
     (if unread st c = [] \<and> \<not> ended st c \<and> \<not> reset st c \<or> reset st c \<and> err then None
      else let s = take n (unread st c)
        in Some (s, st\<lparr>unread := (unread st)(c := drop n (unread st c)), seen := (seen st)(c := seen st c @ [s])\<rparr>))"

definition sys_write :: "nat \<Rightarrow> bool \<Rightarrow> nat \<Rightarrow> string \<Rightarrow> epoll \<Rightarrow> epoll option" where
  "sys_write room pipe c s st =
     (if reset st c then (if pipe then Some (st\<lparr>status := Killed\<rparr>) else None)
      else if answers st c * length REPLY + length s > room then None
      else Some (st\<lparr>answers := (answers st)(c := Suc (answers st c)), replies := (replies st)(c := Suc (replies st c)),
                    late := (late st)(c := late st c \<or> gone st c)\<rparr>))"

section \<open>The server\<close>

definition server_error :: "string \<Rightarrow> epoll \<Rightarrow> epoll" where
  "server_error msg st = st\<lparr>status := Exited msg\<rparr>"

text \<open>
  The body of the loop over the reported events; \<open>ctl_ok\<close>: \<open>epoll_ctl\<close> can add a descriptor.
\<close>

definition handle_event :: "nat \<Rightarrow> nat \<Rightarrow> bool \<Rightarrow> bool \<Rightarrow> bool \<Rightarrow> fd \<Rightarrow> epoll \<Rightarrow> epoll" where
  "handle_event limit room ctl_ok err pipe e st =
     (case e of
        Listener \<Rightarrow>
          (case sys_accept limit err st of
             None \<Rightarrow> server_error ''ERROR on accept'' st
           | Some (newsockfd, st) \<Rightarrow>
               if \<not> ctl_ok then server_error ''ERROR epoll ctl add'' st else sys_epoll_add newsockfd st)
      | Conn c \<Rightarrow>
          (case sys_read err c 255 st of
             None \<Rightarrow> server_error ''ERROR reading from socket'' st
           | Some (data, st) \<Rightarrow>
               (let st = st\<lparr>shown := shown st @ [''Here is the message: '' @ cstr (fill_buffer 256 data) 0]\<rparr> in
                case sys_write room pipe c REPLY st of
                  None \<Rightarrow> server_error ''ERROR writing to socket'' st
                | Some st \<Rightarrow> st)))"

text \<open>\<open>main\<close> up to its loop: the answers of the system calls whose results it checks.\<close>

record epoll_answers =
  argc :: nat
  socket_ret :: int
  bind_ret :: int
  ctl_ret :: int

definition epoll_start :: epoll where
  "epoll_start = \<lparr>backlog = [], conns = [], wire = (\<lambda>c. []), unread = (\<lambda>c. []), edges = [], todo = [], answers = (\<lambda>c. 0),
     gone = (\<lambda>c. False), ended = (\<lambda>c. False), late = (\<lambda>c. False), reset = (\<lambda>c. False), status = Running, shown = [],
     msgs = (\<lambda>c. []), seen = (\<lambda>c. []), replies = (\<lambda>c. 0)\<rparr>"

definition epoll_main :: "epoll_answers \<Rightarrow> epoll" where
  "epoll_main a =
     (if argc a < 2 then server_error ''ERROR, no port provided'' epoll_start
      else if socket_ret a < 0 then server_error ''ERROR opening socket'' epoll_start
      else if bind_ret a < 0 then server_error ''ERROR on binding'' epoll_start
      else if ctl_ret a = -1 then server_error ''ERROR epoll ctl'' epoll_start
      else epoll_start)"

section \<open>Clients and server together\<close>

text \<open>
  A client connects, sends, reads all its replies, closes its end or aborts the connection. Of what it sent, the next
  \<open>n\<close> bytes arrive, however they were sent; then the end of the bytes; a reset overtakes what is still on its way.
  The server's loop gets events from \<open>epoll_wait\<close>, in any choice and order, and handles them.
\<close>

datatype epoll_action =
    Connect nat | Send nat string | Receive nat | Close nat | Abort nat
  | Arrive nat nat | Arrive_end nat | Reset nat
  | Wait "fd list" | Wait_fails | Handle bool bool bool

definition notify :: "nat \<Rightarrow> epoll \<Rightarrow> epoll" where
  "notify c st = (if c \<in> set (conns st) then add_edge (Conn c) st else st)"

definition connected :: "nat \<Rightarrow> epoll \<Rightarrow> bool" where
  "connected c st \<longleftrightarrow> c \<in> set (backlog st @ conns st) \<and> \<not> gone st c"

fun epoll_step :: "nat \<Rightarrow> nat \<Rightarrow> epoll_action \<Rightarrow> epoll \<Rightarrow> epoll option" where
  "epoll_step limit room (Connect c) st =
     (if c \<notin> set (backlog st @ conns st) then Some (add_edge Listener (st\<lparr>backlog := backlog st @ [c]\<rparr>)) else None)"
| "epoll_step limit room (Send c s) st =
     (if connected c st \<and> s \<noteq> []
      then Some (st\<lparr>wire := (wire st)(c := wire st c @ s), msgs := (msgs st)(c := msgs st c @ [s])\<rparr>) else None)"
| "epoll_step limit room (Receive c) st =
     (if connected c st \<and> 0 < answers st c then Some (st\<lparr>answers := (answers st)(c := 0)\<rparr>) else None)"
| "epoll_step limit room (Close c) st =
     (if connected c st
      then Some (st\<lparr>gone := (gone st)(c := True), late := (late st)(c := 0 < answers st c)\<rparr>) else None)"
| "epoll_step limit room (Abort c) st =
     (if connected c st then Some (st\<lparr>gone := (gone st)(c := True), late := (late st)(c := True)\<rparr>) else None)"
| "epoll_step limit room (Arrive c n) st =
     (if 0 < n \<and> n \<le> length (wire st c)
      then Some (notify c (st\<lparr>wire := (wire st)(c := drop n (wire st c)),
                               unread := (unread st)(c := unread st c @ take n (wire st c))\<rparr>)) else None)"
| "epoll_step limit room (Arrive_end c) st =
     (if gone st c \<and> wire st c = [] \<and> \<not> ended st c \<and> \<not> reset st c
      then Some (notify c (st\<lparr>ended := (ended st)(c := True)\<rparr>)) else None)"
| "epoll_step limit room (Reset c) st =
     (if late st c \<and> \<not> reset st c
      then Some (notify c (st\<lparr>reset := (reset st)(c := True), wire := (wire st)(c := [])\<rparr>)) else None)"
| "epoll_step limit room (Wait evs) st =
     (if status st = Running \<and> todo st = [] \<and> evs \<noteq> [] \<and> distinct evs \<and> length evs \<le> MAX_EVENTS \<and>
         list_all (\<lambda>e. e \<in> set (edges st) \<and> available e st) evs
      then Some (st\<lparr>edges := filter (\<lambda>e. e \<notin> set evs) (edges st), todo := evs\<rparr>) else None)"
| "epoll_step limit room Wait_fails st =
     (if status st = Running \<and> todo st = [] then Some (server_error ''ERROR epoll wait'' st) else None)"
| "epoll_step limit room (Handle ctl_ok err pipe) st =
     (case todo st of
        [] \<Rightarrow> None
      | e # es \<Rightarrow>
          if status st = Running then Some (handle_event limit room ctl_ok err pipe e (st\<lparr>todo := es\<rparr>)) else None)"

section \<open>What always holds\<close>

lemma notify_simps [simp]:
  "backlog (notify c st) = backlog st" "conns (notify c st) = conns st" "unread (notify c st) = unread st"
  "todo (notify c st) = todo st" "answers (notify c st) = answers st" "gone (notify c st) = gone st"
  "late (notify c st) = late st" "reset (notify c st) = reset st" "status (notify c st) = status st"
  "wire (notify c st) = wire st" "ended (notify c st) = ended st" "shown (notify c st) = shown st" "msgs (notify c st) = msgs st" "seen (notify c st) = seen st"
  "replies (notify c st) = replies st"
  "set (edges (notify c st)) = set (edges st) \<union> (if c \<in> set (conns st) then {Conn c} else {})"
  by (auto simp: notify_def add_edge_def)

lemma add_edge_simps [simp]:
  "backlog (add_edge e st) = backlog st" "conns (add_edge e st) = conns st" "unread (add_edge e st) = unread st"
  "todo (add_edge e st) = todo st" "answers (add_edge e st) = answers st" "gone (add_edge e st) = gone st"
  "late (add_edge e st) = late st" "reset (add_edge e st) = reset st" "status (add_edge e st) = status st"
  "wire (add_edge e st) = wire st" "ended (add_edge e st) = ended st" "shown (add_edge e st) = shown st" "msgs (add_edge e st) = msgs st" "seen (add_edge e st) = seen st"
  "replies (add_edge e st) = replies st" "set (edges (add_edge e st)) = insert e (set (edges st))"
  by (simp_all add: add_edge_def)

lemma available_add_edge [simp]: "available e (add_edge d st) = available e st"
  by (cases e) simp_all

text \<open>Reported events stay true until they are handled.\<close>

definition events_ok :: "epoll \<Rightarrow> bool" where
  "events_ok st \<longleftrightarrow> distinct (todo st) \<and> (\<forall>e\<in>set (todo st). available e st) \<and> distinct (backlog st @ conns st)"

text \<open>Only the bytes that a reset overtook are missing from a client's messages; none is repeated or reordered.\<close>

definition stream_ok :: "epoll \<Rightarrow> bool" where
  "stream_ok st \<longleftrightarrow>
     (\<forall>c. \<exists>lost. concat (seen st c) @ unread st c @ wire st c @ lost = concat (msgs st c) \<and> (reset st c \<or> lost = [])) \<and>
     (\<forall>c. \<forall>s\<in>set (seen st c). length s \<le> 255)"

text \<open>Only a client that has closed its end has its connection ended or reset.\<close>

definition life_ok :: "epoll \<Rightarrow> bool" where
  "life_ok st \<longleftrightarrow> (\<forall>c. late st c \<or> ended st c \<or> reset st c \<longrightarrow> gone st c)"

definition epoll_inv :: "epoll \<Rightarrow> bool" where
  "epoll_inv st \<longleftrightarrow> (status st = Running \<longrightarrow> events_ok st) \<and> stream_ok st \<and> life_ok st"

definition due :: "epoll \<Rightarrow> nat \<Rightarrow> bool" where
  "due st c \<longleftrightarrow> unread st c \<noteq> [] \<or> ended st c \<or> reset st c"

lemma available_mono:
  assumes "available e st" "backlog st \<noteq> [] \<Longrightarrow> backlog st' \<noteq> []" "set (conns st) \<subseteq> set (conns st')"
    "\<And>c. due st c \<Longrightarrow> due st' c"
  shows "available e st'"
  using assms by (cases e) (auto simp: due_def)

text \<open>The two kinds of events, as they are handled while the reported events are true.\<close>

lemma handle_listener:
  assumes "backlog st = c # cs"
  shows "handle_event limit room ctl_ok err pipe Listener st =
    (if limit \<le> length (conns st) \<or> reset st c \<and> err then server_error ''ERROR on accept'' st
     else if \<not> ctl_ok then server_error ''ERROR epoll ctl add'' (st\<lparr>backlog := cs\<rparr>)
     else let st1 = st\<lparr>backlog := cs, conns := conns st @ [c]\<rparr> in if due st c then add_edge (Conn c) st1 else st1)"
  using assms by (simp add: handle_event_def sys_accept_def sys_epoll_add_def due_def Let_def)

definition after_read :: "nat \<Rightarrow> epoll \<Rightarrow> epoll" where
  "after_read c st = st\<lparr>unread := (unread st)(c := drop 255 (unread st c)),
     seen := (seen st)(c := seen st c @ [take 255 (unread st c)]),
     shown := shown st @ [''Here is the message: '' @ cstr (fill_buffer 256 (take 255 (unread st c))) 0]\<rparr>"

definition after_write :: "nat \<Rightarrow> epoll \<Rightarrow> epoll" where
  "after_write c st = st\<lparr>answers := (answers st)(c := Suc (answers st c)), replies := (replies st)(c := Suc (replies st c)),
     late := (late st)(c := late st c \<or> gone st c)\<rparr>"

lemma handle_conn:
  assumes "due st c"
  shows "handle_event limit room ctl_ok err pipe (Conn c) st =
    (if reset st c \<and> err then server_error ''ERROR reading from socket'' st
     else if reset st c then
       (if pipe then (after_read c st)\<lparr>status := Killed\<rparr> else server_error ''ERROR writing to socket'' (after_read c st))
     else if Suc (answers st c) * length REPLY > room then server_error ''ERROR writing to socket'' (after_read c st)
     else after_write c (after_read c st))"
proof -
  have r: "sys_read err c 255 st = (if reset st c \<and> err then None else Some (take 255 (unread st c),
      st\<lparr>unread := (unread st)(c := drop 255 (unread st c)), seen := (seen st)(c := seen st c @ [take 255 (unread st c)])\<rparr>))"
    using assms by (auto simp: sys_read_def due_def Let_def)
  show ?thesis by (simp add: handle_event_def r sys_write_def after_read_def after_write_def Let_def add.commute)
qed

lemma after_simps [simp]:
  "backlog (after_read c st) = backlog st" "conns (after_read c st) = conns st" "todo (after_read c st) = todo st"
  "gone (after_read c st) = gone st" "ended (after_read c st) = ended st" "late (after_read c st) = late st"
  "reset (after_read c st) = reset st" "status (after_read c st) = status st" "wire (after_read c st) = wire st"
  "edges (after_read c st) = edges st" "msgs (after_read c st) = msgs st" "answers (after_read c st) = answers st"
  "replies (after_read c st) = replies st"
  "unread (after_read c st) = (unread st)(c := drop 255 (unread st c))"
  "seen (after_read c st) = (seen st)(c := seen st c @ [take 255 (unread st c)])"
  "backlog (after_write c st) = backlog st" "conns (after_write c st) = conns st" "todo (after_write c st) = todo st"
  "gone (after_write c st) = gone st" "ended (after_write c st) = ended st" "reset (after_write c st) = reset st"
  "status (after_write c st) = status st" "wire (after_write c st) = wire st" "edges (after_write c st) = edges st"
  "msgs (after_write c st) = msgs st" "unread (after_write c st) = unread st" "seen (after_write c st) = seen st"
  "answers (after_write c st) = (answers st)(c := Suc (answers st c))"
  "replies (after_write c st) = (replies st)(c := Suc (replies st c))"
  "late (after_write c st) = (late st)(c := late st c \<or> gone st c)"
  by (simp_all add: after_read_def after_write_def)

lemma server_error_simps [simp]:
  "backlog (server_error m st) = backlog st" "conns (server_error m st) = conns st" "todo (server_error m st) = todo st"
  "gone (server_error m st) = gone st" "ended (server_error m st) = ended st" "late (server_error m st) = late st"
  "reset (server_error m st) = reset st" "wire (server_error m st) = wire st" "edges (server_error m st) = edges st"
  "msgs (server_error m st) = msgs st" "unread (server_error m st) = unread st" "seen (server_error m st) = seen st"
  "replies (server_error m st) = replies st" "status (server_error m st) = Exited m"
  by (simp_all add: server_error_def)

lemma take_drop_append [simp]: "take n xs @ drop n xs @ ys = xs @ ys"
  by (simp flip: append_assoc)

lemma stream_after_read: "stream_ok st \<Longrightarrow> stream_ok (after_read c st)"
  by (auto simp: stream_ok_def)

lemma stream_cong:
  assumes "stream_ok st" "unread st' = unread st" "wire st' = wire st" "seen st' = seen st" "msgs st' = msgs st"
    "reset st' = reset st"
  shows "stream_ok st'"
  using assms by (simp add: stream_ok_def)

lemma events_cong:
  assumes "events_ok st" "todo st' = todo st" "distinct (backlog st' @ conns st')" "backlog st \<noteq> [] \<Longrightarrow> backlog st' \<noteq> []"
    "set (conns st) \<subseteq> set (conns st')" "\<And>c. due st c \<Longrightarrow> due st' c"
  shows "events_ok st'"
  using assms(1-3) available_mono [OF _ assms(4-6)] unfolding events_ok_def by simp

lemma handle_inv:
  assumes inv: "events_ok st" "stream_ok st" "life_ok st" and todo: "todo st = e # es" and run: "status st = Running"
  shows "epoll_inv (handle_event limit room ctl_ok err pipe e (st\<lparr>todo := es\<rparr>))"
proof (cases e)
  case Listener
  let ?st = "st\<lparr>todo := es\<rparr>"
  have "available Listener st" using inv(1) todo Listener by (simp add: events_ok_def)
  then obtain c cs where b: "backlog ?st = c # cs" by (cases "backlog st") simp_all
  have "available d (st\<lparr>todo := es, backlog := cs, conns := conns st @ [c]\<rparr>)" if "d \<in> set es" for d
  proof -
    have "available d st" "d \<noteq> Listener" using that inv(1) todo Listener by (auto simp: events_ok_def)
    then show ?thesis by (cases d) auto
  qed
  then have "events_ok (st\<lparr>todo := es, backlog := cs, conns := conns st @ [c]\<rparr>)"
    using inv(1) todo b by (auto simp: events_ok_def)
  then have ev: "events_ok (add_edge (Conn c) (st\<lparr>todo := es, backlog := cs, conns := conns st @ [c]\<rparr>))"
    "events_ok (st\<lparr>todo := es, backlog := cs, conns := conns st @ [c]\<rparr>)"
    by (simp_all add: events_ok_def)
  show ?thesis
    unfolding Listener handle_listener [OF b] epoll_inv_def
    using ev inv(2,3) run by (auto simp: life_ok_def Let_def intro: stream_cong)
next
  case (Conn c)
  let ?st = "st\<lparr>todo := es\<rparr>"
  have av: "due ?st c" using inv(1) todo Conn by (simp add: events_ok_def due_def)
  have keep: "available d (after_read c ?st)" if "d \<in> set es" for d
  proof -
    have "available d st" "d \<noteq> Conn c" using that inv(1) todo Conn by (auto simp: events_ok_def)
    then show ?thesis by (cases d) auto
  qed
  then have ev: "events_ok (after_read c ?st)" using inv(1) todo by (auto simp: events_ok_def)
  have ev': "events_ok (after_write c (after_read c ?st))"
    by (rule events_cong [OF ev]) (use ev in \<open>auto simp: events_ok_def due_def\<close>)
  have str: "stream_ok (after_read c ?st)" using inv(2) by (intro stream_after_read) (auto intro: stream_cong)
  show ?thesis
    unfolding Conn handle_conn [OF av] epoll_inv_def
    using ev ev' inv(2,3) run by (auto simp: life_ok_def intro: stream_cong [OF str] stream_cong [OF inv(2)])
qed

text \<open>Nobody has read from a client that was not accepted.\<close>

definition fresh_ok :: "epoll \<Rightarrow> bool" where
  "fresh_ok st \<longleftrightarrow> (\<forall>c. c \<notin> set (conns st) \<longrightarrow> seen st c = [] \<and> replies st c = 0)"

lemma fresh_handle:
  assumes "events_ok st" "fresh_ok st" "todo st = e # es"
  shows "fresh_ok (handle_event limit room ctl_ok err pipe e (st\<lparr>todo := es\<rparr>))"
proof (cases e)
  case Listener
  then have "available Listener st" using assms(1,3) by (simp add: events_ok_def)
  then obtain c cs where b: "backlog (st\<lparr>todo := es\<rparr>) = c # cs" by (cases "backlog st") simp_all
  show ?thesis unfolding Listener handle_listener [OF b] using assms(2) by (simp add: fresh_ok_def Let_def)
next
  case (Conn c)
  then have av: "due (st\<lparr>todo := es\<rparr>) c" "c \<in> set (conns st)"
    using assms(1,3) by (simp_all add: events_ok_def due_def)
  show ?thesis unfolding Conn handle_conn [OF av(1)] using assms(2) av(2)
    by (auto simp: fresh_ok_def)
qed

lemma epoll_step_inv:
  assumes inv: "epoll_inv st" and step: "epoll_step limit room a st = Some st'"
  shows "epoll_inv st'"
proof -
  have str: "stream_ok st" and life: "life_ok st" and ev: "status st = Running \<Longrightarrow> events_ok st"
    using inv by (simp_all add: epoll_inv_def)
  note keep = events_cong [OF ev]
  show ?thesis
  proof (cases a)
    case (Connect c)
    then have st': "st' = add_edge Listener (st\<lparr>backlog := backlog st @ [c]\<rparr>)" "c \<notin> set (backlog st @ conns st)"
      using step by (simp_all split: if_splits)
    have "events_ok st'" if "status st = Running"
      by (rule keep [OF that]) (use st' ev [OF that] in \<open>auto simp: events_ok_def due_def\<close>)
    then show ?thesis using life stream_cong [OF str] by (simp add: epoll_inv_def st' life_ok_def)
  next
    case (Send c s)
    then have st': "st' = st\<lparr>wire := (wire st)(c := wire st c @ s), msgs := (msgs st)(c := msgs st c @ [s])\<rparr>"
      "\<not> gone st c" using step by (simp_all add: connected_def split: if_splits)
    have "\<not> reset st c" using st'(2) life by (auto simp: life_ok_def)
    then have "concat (seen st c) @ unread st c @ wire st c = concat (msgs st c)"
      using str by (auto simp: stream_ok_def)
    then have "stream_ok st'" using str by (auto simp: st'(1) stream_ok_def simp flip: append_assoc)
    moreover have "events_ok st'" if "status st = Running"
      by (rule keep [OF that]) (use st' ev [OF that] in \<open>auto simp: events_ok_def due_def\<close>)
    ultimately show ?thesis using life by (simp add: epoll_inv_def st' life_ok_def)
  next
    case (Receive c)
    then have st': "st' = st\<lparr>answers := (answers st)(c := 0)\<rparr>" using step by (simp split: if_splits)
    have "events_ok st'" if "status st = Running"
      by (rule keep [OF that]) (use st' ev [OF that] in \<open>auto simp: events_ok_def due_def\<close>)
    then show ?thesis using life stream_cong [OF str] by (simp add: epoll_inv_def st' life_ok_def)
  next
    case (Close c)
    then have st': "st' = st\<lparr>gone := (gone st)(c := True), late := (late st)(c := 0 < answers st c)\<rparr>"
      using step by (simp split: if_splits)
    have "events_ok st'" if "status st = Running"
      by (rule keep [OF that]) (use st' ev [OF that] in \<open>auto simp: events_ok_def due_def\<close>)
    then show ?thesis using life stream_cong [OF str] by (simp add: epoll_inv_def st' life_ok_def)
  next
    case (Abort c)
    then have st': "st' = st\<lparr>gone := (gone st)(c := True), late := (late st)(c := True)\<rparr>"
      using step by (simp split: if_splits)
    have "events_ok st'" if "status st = Running"
      by (rule keep [OF that]) (use st' ev [OF that] in \<open>auto simp: events_ok_def due_def\<close>)
    then show ?thesis using life stream_cong [OF str] by (simp add: epoll_inv_def st' life_ok_def)
  next
    case (Arrive c n)
    then have st': "st' = notify c (st\<lparr>wire := (wire st)(c := drop n (wire st c)),
        unread := (unread st)(c := unread st c @ take n (wire st c))\<rparr>)"
      using step by (simp split: if_splits)
    have "stream_ok st'" using str by (auto simp: stream_ok_def st')
    moreover have "events_ok st'" if "status st = Running"
      by (rule keep [OF that]) (use st' ev [OF that] in \<open>auto simp: events_ok_def due_def\<close>)
    ultimately show ?thesis using life by (simp add: epoll_inv_def st' life_ok_def)
  next
    case (Arrive_end c)
    then have st': "st' = notify c (st\<lparr>ended := (ended st)(c := True)\<rparr>)" "gone st c"
      using step by (simp_all split: if_splits)
    have "events_ok st'" if "status st = Running"
      by (rule keep [OF that]) (use st' ev [OF that] in \<open>auto simp: events_ok_def due_def\<close>)
    then show ?thesis using life st'(2) stream_cong [OF str] by (simp add: epoll_inv_def st'(1) life_ok_def)
  next
    case (Reset c)
    then have st': "st' = notify c (st\<lparr>reset := (reset st)(c := True), wire := (wire st)(c := [])\<rparr>)" "late st c"
      using step by (simp_all split: if_splits)
    have "events_ok st'" if "status st = Running"
      by (rule keep [OF that]) (use st' ev [OF that] in \<open>auto simp: events_ok_def due_def\<close>)
    moreover have "stream_ok st'" using str by (auto simp: st'(1) stream_ok_def)
    ultimately show ?thesis using life st'(2) by (simp add: epoll_inv_def st'(1) life_ok_def)
  next
    case (Wait evs)
    then have st': "st' = st\<lparr>edges := filter (\<lambda>e. e \<notin> set evs) (edges st), todo := evs\<rparr>" "distinct evs" "status st = Running"
      "\<forall>e\<in>set evs. available e st" using step by (auto simp: list_all_iff split: if_splits)
    have "available e st'" if "e \<in> set evs" for e
      by (rule available_mono [of e st]) (use st'(1,4) that in \<open>auto simp: due_def\<close>)
    then have "events_ok st'" using ev [OF st'(3)] st'(2) by (simp add: events_ok_def st'(1))
    then show ?thesis using life stream_cong [OF str] by (simp add: epoll_inv_def st'(1) life_ok_def)
  next
    case Wait_fails
    then have "st' = server_error ''ERROR epoll wait'' st" using step by (simp split: if_splits)
    then show ?thesis using life stream_cong [OF str] by (simp add: epoll_inv_def life_ok_def)
  next
    case (Handle ok err pipe)
    then obtain e es where "todo st = e # es" "status st = Running" "st' = handle_event limit room ok err pipe e (st\<lparr>todo := es\<rparr>)"
      using step by (auto split: list.splits if_splits)
    then show ?thesis using handle_inv [OF ev str life] by simp
  qed
qed

lemma fresh_step:
  assumes "epoll_inv st" "fresh_ok st" "epoll_step limit room a st = Some st'"
  shows "fresh_ok st'"
proof (cases a)
  case (Handle ok err pipe)
  then obtain e es where h: "todo st = e # es" "status st = Running" "st' = handle_event limit room ok err pipe e (st\<lparr>todo := es\<rparr>)"
    using assms(3) by (auto split: list.splits if_splits)
  then have "events_ok st" using assms(1) by (simp add: epoll_inv_def)
  from fresh_handle [OF this assms(2) h(1)] show ?thesis unfolding h(3) .
qed (use assms(2,3) in \<open>auto simp: fresh_ok_def split: if_splits\<close>)

lemma epoll_start_inv: "epoll_inv epoll_start" "fresh_ok epoll_start"
  by (simp_all add: epoll_start_def epoll_inv_def events_ok_def stream_ok_def life_ok_def fresh_ok_def)

interpretation echo: step_invariant "epoll_step limit room" "\<lambda>st. epoll_inv st \<and> fresh_ok st"
proof
  fix st a st' assume "epoll_inv st \<and> fresh_ok st" "epoll_step limit room a st = Some st'"
  then show "epoll_inv st' \<and> fresh_ok st'" using epoll_step_inv [of st limit room a st'] fresh_step [of st limit room a st'] by simp
qed

section \<open>Clients that take turns with the server\<close>

text \<open>
  A client connects when no other is waiting to be accepted, sends at most 255 bytes when all its
  messages were read and their replies received, and stays; each message arrives in one piece, and the server has
  descriptors enough and its \<open>epoll_wait\<close> and \<open>epoll_ctl\<close> succeed.
\<close>

fun polite :: "nat \<Rightarrow> epoll \<Rightarrow> epoll_action \<Rightarrow> bool" where
  "polite limit st (Connect c) = (backlog st = [] \<and> length (conns st) < limit)"
| "polite limit st (Send c s) = (wire st c = [] \<and> unread st c = [] \<and> answers st c = 0 \<and> length s \<le> 255)"
| "polite limit st (Arrive c n) = (n = length (wire st c))"
| "polite limit st (Close c) = False"
| "polite limit st (Abort c) = False"
| "polite limit st Wait_fails = False"
| "polite limit st (Handle ctl_ok err pipe) = ctl_ok"
| "polite limit st a = True"

definition polite_step :: "nat \<Rightarrow> nat \<Rightarrow> epoll_action \<Rightarrow> epoll \<Rightarrow> epoll option" where
  "polite_step limit room a st = (if polite limit st a then epoll_step limit room a st else None)"

definition pending :: "epoll \<Rightarrow> nat \<Rightarrow> string" where
  "pending st c = unread st c @ wire st c"

definition conn_served :: "epoll \<Rightarrow> nat \<Rightarrow> bool" where
  "conn_served st c \<longleftrightarrow> \<not> gone st c \<and> (unread st c = [] \<or> wire st c = []) \<and> length (pending st c) \<le> 255 \<and> answers st c \<le> 1 \<and>
     (pending st c \<noteq> [] \<longrightarrow> answers st c = 0) \<and>
     (unread st c \<noteq> [] \<longrightarrow> c \<in> set (conns st) \<longrightarrow> Conn c \<in> set (edges st) \<union> set (todo st)) \<and>
     (pending st c \<noteq> [] \<longrightarrow> c \<in> set (backlog st @ conns st)) \<and>
     msgs st c = seen st c @ (if pending st c = [] then [] else [pending st c]) \<and> replies st c = length (seen st c)"

definition polite_inv :: "nat \<Rightarrow> epoll \<Rightarrow> bool" where
  "polite_inv limit st \<longleftrightarrow> status st = Running \<and> events_ok st \<and> life_ok st \<and> length (backlog st) \<le> 1 \<and>
     (backlog st \<noteq> [] \<longrightarrow> Listener \<in> set (edges st) \<union> set (todo st)) \<and>
     (backlog st \<noteq> [] \<longrightarrow> length (conns st) < limit) \<and> (\<forall>c. conn_served st c)"

lemma conn_servedI:
  assumes "conn_served st c" "gone st' = gone st" "unread st' c = unread st c" "wire st' c = wire st c"
    "answers st' c = answers st c" "msgs st' c = msgs st c" "seen st' c = seen st c" "replies st' c = replies st c"
    "set (edges st) \<union> set (todo st) \<subseteq> insert e (set (edges st') \<union> set (todo st'))" "e \<noteq> Conn c"
    "set (backlog st @ conns st) \<subseteq> set (backlog st' @ conns st')" "c \<in> set (conns st') \<Longrightarrow> c \<in> set (conns st)"
  shows "conn_served st' c"
proof -
  have p: "pending st' c = pending st c" using assms(3,4) by (simp add: pending_def)
  have "Conn c \<in> set (edges st') \<union> set (todo st')" if "Conn c \<in> set (edges st) \<union> set (todo st)"
    using that assms(9,10) by blast
  then show ?thesis using assms(1,11,12) unfolding conn_served_def p assms(2-8) by blast
qed

lemma polite_invD:
  assumes "polite_inv limit st"
  shows "status st = Running" "events_ok st" "life_ok st" "length (backlog st) \<le> 1"
    "backlog st \<noteq> [] \<Longrightarrow> Listener \<in> set (edges st) \<union> set (todo st)"
    "backlog st \<noteq> [] \<Longrightarrow> length (conns st) < limit" "conn_served st c"
    "\<not> gone st c" "\<not> ended st c" "\<not> reset st c" "\<not> late st c"
  using assms by (auto simp: polite_inv_def conn_served_def life_ok_def)

lemma polite_handle:
  assumes inv: "polite_inv limit st" and todo: "todo st = e # es" and room: "length REPLY \<le> room"
    and good: "epoll_inv (handle_event limit room True err pipe e (st\<lparr>todo := es\<rparr>))"
  shows "polite_inv limit (handle_event limit room True err pipe e (st\<lparr>todo := es\<rparr>))"
proof (cases e)
  case Listener
  let ?st = "st\<lparr>todo := es\<rparr>"
  note st = polite_invD [OF inv]
  have "available Listener st" using st(2) todo Listener by (simp add: events_ok_def)
  then obtain c where b: "backlog st = [c]" using st(4) by (cases "backlog st") simp_all
  then have b': "backlog ?st = c # []" by simp
  let ?st1 = "?st\<lparr>backlog := [], conns := conns st @ [c]\<rparr>"
  define st' where "st' = (if unread st c \<noteq> [] then add_edge (Conn c) ?st1 else ?st1)"
  have h: "handle_event limit room True err pipe e ?st = st'"
    unfolding Listener handle_listener [OF b'] using st(6) b st(8-10) [of c] by (simp add: Let_def st'_def due_def)
  have st': "backlog st' = []" "conns st' = conns st @ [c]" "unread st' = unread st" "wire st' = wire st" "todo st' = es"
    "gone st' = gone st" "answers st' = answers st" "msgs st' = msgs st" "seen st' = seen st" "replies st' = replies st"
    "status st' = status st"
    "set (edges st') = set (edges st) \<union> (if unread st c \<noteq> [] then {Conn c} else {})" by (simp_all add: st'_def)
  have "conn_served st' d" for d
  proof (cases "d = c")
    case True
    then show ?thesis using st(7) [of c] unfolding conn_served_def pending_def st' True by auto
  next
    case False
    show ?thesis
      by (rule conn_servedI [OF st(7), where e = Listener])
        (use st' b todo Listener False in \<open>auto\<close>)
  qed
  then have "\<forall>d. conn_served st' d" by blast
  then show ?thesis using good st(1) unfolding h polite_inv_def epoll_inv_def st' by simp
next
  case (Conn c)
  let ?st = "st\<lparr>todo := es\<rparr>"
  note st = polite_invD [OF inv]
  have c: "c \<in> set (conns st)" "unread st c \<noteq> []"
    using st(2) st(8-10) [of c] todo Conn by (auto simp: events_ok_def)
  then have av: "due ?st c" by (simp add: due_def)
  have a: "answers st c = 0" "length (unread st c) \<le> 255" "wire st c = []"
    using st(7) [of c] c by (auto simp: conn_served_def pending_def)
  let ?st' = "after_write c (after_read c ?st)"
  have h: "handle_event limit room True err pipe e ?st = ?st'"
    unfolding Conn handle_conn [OF av] using a st(10) [of c] room by simp
  have "conn_served ?st' d" for d
  proof (cases "d = c")
    case True
    then show ?thesis using st(7) [of c] a c unfolding conn_served_def pending_def True by simp
  next
    case False
    show ?thesis
      by (rule conn_servedI [OF st(7), where e = "Conn c"])
        (use todo Conn False in auto)
  qed
  then have "\<forall>d. conn_served ?st' d" by blast
  moreover have "backlog st \<noteq> [] \<Longrightarrow> Listener \<in> set (edges st) \<union> set es" using st(5) todo Conn by auto
  ultimately show ?thesis using good st(1,4,6) unfolding h polite_inv_def epoll_inv_def by simp
qed

lemma polite_step_inv:
  assumes inv: "polite_inv limit st" "epoll_inv st" and room: "length REPLY \<le> room"
    and step: "polite_step limit room a st = Some st'"
  shows "polite_inv limit st'"
proof -
  have pol: "polite limit st a" and step': "epoll_step limit room a st = Some st'"
    using step by (simp_all add: polite_step_def split: if_splits)
  have good: "epoll_inv st'" by (rule epoll_step_inv [OF inv(2) step'])
  note st = polite_invD [OF inv(1)]
  have events: "events_ok st'" if "status st' = Running" using good that by (simp add: epoll_inv_def)
  have life: "life_ok st'" using good by (simp add: epoll_inv_def)
  show ?thesis
  proof (cases a)
    case (Connect c)
    then have st': "st' = add_edge Listener (st\<lparr>backlog := backlog st @ [c]\<rparr>)" "backlog st = []" "length (conns st) < limit"
      using step' pol by (simp_all split: if_splits)
    have "conn_served st' d" for d
      by (rule conn_servedI [OF st(7), where e = Listener]) (use st' in auto)
    then show ?thesis using st(1) events life st' by (simp add: polite_inv_def)
  next
    case (Send c s)
    then have st': "st' = st\<lparr>wire := (wire st)(c := wire st c @ s), msgs := (msgs st)(c := msgs st c @ [s])\<rparr>"
      "c \<in> set (backlog st @ conns st)" "s \<noteq> []" "wire st c = []" "unread st c = []" "answers st c = 0" "length s \<le> 255"
      using step' pol by (simp_all add: connected_def split: if_splits)
    have "conn_served st' d" for d
    proof (cases "d = c")
      case True
      then show ?thesis using st(7) [of c] st'(2-7) by (auto simp: conn_served_def pending_def st'(1))
    next
      case False
      show ?thesis by (rule conn_servedI [OF st(7), where e = Listener]) (use st'(1) False in auto)
    qed
    then show ?thesis using st(1,4-6) events life by (auto simp: polite_inv_def st'(1))
  next
    case (Arrive c n)
    then have st': "st' = notify c (st\<lparr>wire := (wire st)(c := []), unread := (unread st)(c := wire st c)\<rparr>)" "wire st c \<noteq> []"
      using step' pol st(7) [of c] by (auto simp: conn_served_def split: if_splits)
    have "conn_served st' d" for d
    proof (cases "d = c")
      case True
      then show ?thesis using st(7) [of c] st'(2) by (auto simp: conn_served_def pending_def st'(1))
    next
      case False
      show ?thesis by (rule conn_servedI [OF st(7), where e = Listener]) (use st'(1) False in auto)
    qed
    then show ?thesis using st(1,4-6) events life by (auto simp: polite_inv_def st'(1))
  next
    case (Receive c)
    then have st': "st' = st\<lparr>answers := (answers st)(c := 0)\<rparr>" using step' by (simp split: if_splits)
    have "conn_served st' d" for d
      using st(7) [of d] by (auto simp: conn_served_def pending_def st')
    then show ?thesis using st(1,4-6) events life by (simp add: polite_inv_def st')
  next
    case (Wait evs)
    then have st': "st' = st\<lparr>edges := filter (\<lambda>e. e \<notin> set evs) (edges st), todo := evs\<rparr>" "todo st = []"
      using step' by (auto split: if_splits)
    have "conn_served st' d" for d
      by (rule conn_servedI [OF st(7), where e = Listener]) (use st' in auto)
    moreover have "backlog st' \<noteq> [] \<longrightarrow> Listener \<in> set (edges st') \<union> set (todo st')" using st(5) st' by auto
    ultimately show ?thesis using st(1,4,6) events life st' by (simp add: polite_inv_def)
  next
    case (Handle ok err pipe)
    then obtain e es where h: "todo st = e # es" "st' = handle_event limit room True err pipe e (st\<lparr>todo := es\<rparr>)"
      using step' pol by (auto split: list.splits if_splits)
    show ?thesis using polite_handle [OF inv(1) h(1) room] good unfolding h(2) .
  qed (use pol step' st(8,11) in simp_all)
qed

lemma polite_exec:
  assumes "exec (polite_step limit room) st sched = Some st'" "polite_inv limit st" "epoll_inv st" "length REPLY \<le> room"
  shows "polite_inv limit st'"
  using assms(1-3)
proof (induction sched arbitrary: st)
  case (Cons a sched)
  then obtain st1 where st1: "polite_step limit room a st = Some st1" "exec (polite_step limit room) st1 sched = Some st'"
    by (auto split: option.splits)
  then have "epoll_step limit room a st = Some st1" by (simp add: polite_step_def split: if_splits)
  from epoll_step_inv [OF Cons.prems(3) this] polite_step_inv [OF Cons.prems(2,3) assms(4) st1(1)] Cons.IH [OF st1(2)]
  show ?case by blast
qed simp

text \<open>Nobody is accepted without an event of the listening socket, and only a new client raises one.\<close>

lemma no_listener_step:
  assumes step: "epoll_step limit room a st = Some st'" and l: "Listener \<notin> set (edges st) \<union> set (todo st)" and a: "\<forall>c. a \<noteq> Connect c"
  shows "backlog st' = backlog st \<and> Listener \<notin> set (edges st') \<union> set (todo st')"
proof (cases a)
  case (Handle ok err pipe)
  then obtain e es where h: "todo st = e # es" "st' = handle_event limit room ok err pipe e (st\<lparr>todo := es\<rparr>)"
    using step by (auto split: list.splits if_splits)
  then obtain c where c: "e = Conn c" using l by (cases e) auto
  have "backlog st' = backlog st \<and> edges st' = edges st \<and> todo st' = es"
    unfolding h(2) c by (auto simp: handle_event_def sys_read_def sys_write_def server_error_def Let_def)
  then show ?thesis using l h(1) by auto
qed (use step l a in \<open>auto simp: server_error_def list_all_iff split: if_splits\<close>)

lemma no_listener_exec:
  "exec (epoll_step limit room) st sched = Some st' \<Longrightarrow> Listener \<notin> set (edges st) \<union> set (todo st) \<Longrightarrow>
     \<forall>c. Connect c \<notin> set sched \<Longrightarrow> backlog st' = backlog st"
proof (induction sched arbitrary: st)
  case (Cons a sched)
  then obtain st1 where st1: "epoll_step limit room a st = Some st1" "exec (epoll_step limit room) st1 sched = Some st'"
    by (auto split: option.splits)
  have "\<forall>c. a \<noteq> Connect c" using Cons.prems(3) by auto
  from no_listener_step [OF st1(1) Cons.prems(2) this] Cons.IH [OF st1(2)] Cons.prems(3) show ?case by auto
qed simp

section \<open>How the server ends\<close>

text \<open>
  The step that ends the server and the state before it: a failure of \<open>epoll_wait\<close> or \<open>epoll_ctl\<close>, no
  descriptor left for a connection, a client that does not take its replies, or a connection that was reset.
\<close>

fun end_cause :: "nat \<Rightarrow> nat \<Rightarrow> epoll_action \<Rightarrow> epoll \<Rightarrow> status \<Rightarrow> bool" where
  "end_cause limit room a st Running = True"
| "end_cause limit room a st Killed = (\<exists>c\<in>set (conns st). reset st c)"
| "end_cause limit room a st (Exited msg) =
     (a = Wait_fails \<and> msg = ''ERROR epoll wait'' \<or>
      (\<exists>err pipe. a = Handle False err pipe) \<and> msg = ''ERROR epoll ctl add'' \<or>
      (limit \<le> length (conns st) \<or> (\<exists>c\<in>set (backlog st). reset st c)) \<and> msg = ''ERROR on accept'' \<or>
      (\<exists>c\<in>set (conns st). reset st c) \<and> msg = ''ERROR reading from socket'' \<or>
      (\<exists>c\<in>set (conns st). reset st c \<or> room < Suc (answers st c) * length REPLY) \<and> msg = ''ERROR writing to socket'')"

lemma step_end_cause:
  assumes inv: "epoll_inv st" and run: "status st = Running" and step: "epoll_step limit room a st = Some st'"
  shows "end_cause limit room a st (status st')"
proof (cases a)
  case (Handle ok err pipe)
  then obtain e es where h: "todo st = e # es" "st' = handle_event limit room ok err pipe e (st\<lparr>todo := es\<rparr>)"
    using step by (auto split: list.splits if_splits)
  have av: "available e st" using inv run h(1) by (simp add: epoll_inv_def events_ok_def)
  show ?thesis
  proof (cases e)
    case Listener
    with av obtain c cs where b: "backlog (st\<lparr>todo := es\<rparr>) = c # cs" by (cases "backlog st") simp_all
    show ?thesis unfolding h(2) Listener handle_listener [OF b] using b run by (auto simp: Handle Let_def)
  next
    case (Conn c)
    with av have c: "due (st\<lparr>todo := es\<rparr>) c" "c \<in> set (conns st)" by (auto simp: due_def)
    show ?thesis unfolding h(2) Conn handle_conn [OF c(1)] using c(2) run by auto
  qed
qed (use step run in \<open>auto split: if_splits\<close>)

section \<open>Properties\<close>


text \<open>
  C21: When clients take turns with the server, as \<open>simple-client\<close> does, one message of at most 255 bytes at a time
  that arrives in one piece, and a connection only when no other is waiting, and the server's system calls succeed,
  every client is served in every interleaving: whenever all bytes have arrived and the server waits without an event, all
  connections are accepted, and each message was read as one and answered once.
\<close>

theorem epoll_polite_clients_served:
  assumes "exec (polite_step limit room) epoll_start sched = Some st" and "length REPLY \<le> room"
    and "todo st = []" and "\<forall>evs. epoll_step limit room (Wait evs) st = None"
    and "\<forall>c n. epoll_step limit room (Arrive c n) st = None"
  shows "status st = Running \<and> backlog st = [] \<and> (\<forall>c. seen st c = msgs st c \<and> replies st c = length (msgs st c))"
proof -
  have "polite_inv limit epoll_start"
    by (simp add: polite_inv_def conn_served_def pending_def epoll_start_def events_ok_def life_ok_def)
  then have inv: "polite_inv limit st" using polite_exec [OF assms(1) _ epoll_start_inv(1) assms(2)] by blast
  have none: "\<not> available e st" if "e \<in> set (edges st)" for e
  proof -
    have "epoll_step limit room (Wait [e]) st = None" by (rule spec [OF assms(4)])
    then show ?thesis using that assms(3) polite_invD(1) [OF inv] by (simp add: MAX_EVENTS_def split: if_splits)
  qed
  have b: "backlog st = []"
  proof (rule ccontr)
    assume "backlog st \<noteq> []"
    moreover then have "Listener \<in> set (edges st)" using polite_invD(5) [OF inv] assms(3) by simp
    ultimately show False using none [of Listener] by simp
  qed
  have "seen st c = msgs st c \<and> replies st c = length (msgs st c)" for c
  proof -
    have "epoll_step limit room (Arrive c (length (wire st c))) st = None" using assms(5) by blast
    then have w: "wire st c = []" by (simp split: if_splits)
    have "unread st c = []"
    proof (rule ccontr)
      assume u: "unread st c \<noteq> []"
      then have "pending st c \<noteq> []" by (simp add: pending_def)
      then have "c \<in> set (conns st)" "Conn c \<in> set (edges st)"
        using u polite_invD(7) [OF inv, of c] assms(3) b by (simp_all add: conn_served_def)
      then show False using none [of "Conn c"] u by simp
    qed
    then have "pending st c = []" using w by (simp add: pending_def)
    then show ?thesis using polite_invD(7) [OF inv, of c] by (simp add: conn_served_def)
  qed
  then show ?thesis using polite_invD(1) [OF inv] b by blast
qed

text \<open>
  The server accepts one client per event of the listening socket although events are edge-triggered: a
  client that is in the backlog when the event is used up (two clients connected at once) is not accepted, and
  nothing it sent is read, until another client connects.
\<close>

theorem epoll_forgets_waiting_client:
  assumes "exec (epoll_step limit room) epoll_start sched1 = Some st" and "Listener \<notin> set (edges st) \<union> set (todo st)"
    and "exec (epoll_step limit room) st sched2 = Some st'" and "\<forall>c. Connect c \<notin> set sched2"
    and "c \<in> set (backlog st)" and "status st' = Running"
  shows "c \<in> set (backlog st') \<and> seen st' c = [] \<and> replies st' c = 0"
proof -
  have inv: "epoll_inv st" "fresh_ok st" using echo.exec_inv [OF _ assms(1)] epoll_start_inv by auto
  then have inv': "epoll_inv st'" "fresh_ok st'" using echo.exec_inv [OF _ assms(3)] by auto
  have b: "backlog st' = backlog st" using no_listener_exec [OF assms(3,2,4)] .
  then have "c \<notin> set (conns st')" using inv'(1) assms(5,6) by (auto simp: epoll_inv_def events_ok_def)
  then show ?thesis using inv'(2) b assms(5) by (simp add: fresh_ok_def)
qed

section \<open>Witnesses and runs\<close>

text \<open>
  Two clients that connect at once; one client that is served; one that closes and resets the connection
  when it is answered; one that closes with a reply unread; and a server with one descriptor to spare.
\<close>

definition two_at_once :: "epoll_action list" where
  "two_at_once = [Connect 1, Connect 2, Send 2 ''hello'', Arrive 2 5, Wait [Listener], Handle True False False]"

definition polite_run :: "epoll_action list" where
  "polite_run = [Connect 1, Wait [Listener], Send 1 ''hello'', Handle True False False, Arrive 1 5, Wait [Conn 1],
     Handle True False False, Receive 1]"

definition closing_run :: "epoll_action list" where
  "closing_run = [Connect 1, Wait [Listener], Handle True False False, Close 1, Arrive_end 1, Wait [Conn 1],
     Handle True False False, Reset 1, Wait [Conn 1], Handle True False True]"

definition unread_reply_run :: "epoll_action list" where
  "unread_reply_run = [Connect 1, Wait [Listener], Handle True False False, Send 1 ''hello'', Arrive 1 5, Wait [Conn 1],
     Handle True False False, Close 1, Reset 1, Wait [Conn 1]]"

definition full_run :: "epoll_action list" where
  "full_run = [Connect 1, Wait [Listener], Handle True False False, Close 1, Connect 2, Wait [Listener], Handle True False False]"

lemmas epoll_run_simps = epoll_start_def add_edge_def notify_def connected_def MAX_EVENTS_def handle_event_def sys_accept_def
  sys_epoll_add_def sys_read_def sys_write_def REPLY_def Let_def

lemma two_at_once_run:
  "\<exists>st. exec (epoll_step 100 100) epoll_start two_at_once = Some st \<and> backlog st = [2] \<and> edges st = [] \<and> todo st = [] \<and>
     status st = Running \<and> \<not> gone st 2"
  by (simp add: two_at_once_def epoll_run_simps)

text \<open>A client that leaves can end the server for all: a signal, or \<open>accept\<close> with no descriptor left.\<close>

lemma closing_run_kills: "\<exists>st. exec (epoll_step 100 100) epoll_start closing_run = Some st \<and> status st = Killed"
  by (simp add: closing_run_def epoll_run_simps)

lemma full_run_ends:
  "\<exists>st. exec (epoll_step 1 100) epoll_start full_run = Some st \<and> status st = Exited ''ERROR on accept''"
  by (simp add: full_run_def epoll_run_simps)


theorem epoll_polite_clients_served_witness:
  "\<exists>st. exec (polite_step 100 100) epoll_start polite_run = Some st \<and> seen st 1 = [''hello''] \<and> replies st 1 = 1"
proof -
  have "\<exists>st. exec (polite_step 100 100) epoll_start polite_run = Some st \<and> todo st = [] \<and> edges st = [] \<and>
      msgs st 1 = [''hello''] \<and> wire st = (\<lambda>c. [])"
    by (simp add: polite_run_def polite_step_def epoll_run_simps fun_eq_iff)
  then obtain st where st: "exec (polite_step 100 100) epoll_start polite_run = Some st" "todo st = []" "edges st = []"
    "msgs st 1 = [''hello'']" "wire st = (\<lambda>c. [])" by blast
  have r: "length REPLY \<le> 100" by (simp add: REPLY_def)
  have w: "\<forall>evs. epoll_step 100 100 (Wait evs) st = None"
  proof
    fix evs show "epoll_step 100 100 (Wait evs) st = None" using st(3) by (cases evs) simp_all
  qed
  have "\<forall>c n. epoll_step 100 100 (Arrive c n) st = None" using st(5) by auto
  from epoll_polite_clients_served [OF st(1) r st(2) w this] st show ?thesis by auto
qed

theorem epoll_forgets_waiting_client_witness:
  "\<exists>st st'. exec (epoll_step 100 100) epoll_start two_at_once = Some st \<and>
     exec (epoll_step 100 100) st [Send 2 ''anybody?''] = Some st' \<and> 2 \<in> set (backlog st') \<and> seen st' 2 = []"
proof -
  obtain st where st: "exec (epoll_step 100 100) epoll_start two_at_once = Some st" "backlog st = [2]" "edges st = []" "todo st = []"
    "status st = Running" "\<not> gone st 2" using two_at_once_run by blast
  then have "epoll_step 100 100 (Send 2 ''anybody?'') st \<noteq> None" by (simp add: connected_def)
  then obtain st' where "epoll_step 100 100 (Send 2 ''anybody?'') st = Some st'" by blast
  then have st': "exec (epoll_step 100 100) st [Send 2 ''anybody?''] = Some st'" "status st' = Running"
    using st(5) by (auto split: if_splits)
  have "Listener \<notin> set (edges st) \<union> set (todo st)" "2 \<in> set (backlog st)" "\<forall>c. Connect c \<notin> set [Send 2 ''anybody?'']"
    using st(2-4) by simp_all
  from epoll_forgets_waiting_client [OF st(1) this(1) st'(1) this(3,2) st'(2)] st(1) st'(1) show ?thesis by blast
qed

end
