(* ===== verification/DebugExercises.thy ===== *)
theory DebugExercises
  imports CString "HOL-Library.Word"
begin

text \<open>
  The programs of \<open>intro-debug-code\<close> and the computing ones of \<open>intro-code\<close>: \<open>fibonacci.cpp\<close> with the error it is an
  exercise for, \<open>pointers.cpp\<close> with its null pointer, the round of \<open>cpu.c\<close>, and the array of \<open>memory2.c\<close>.
\<close>

section \<open>fibonacci.cpp\<close>

text \<open>The loop, with the number of rounds left; both variables (\<open>second_last\<close>, \<open>last\<close>) are set to the same number.\<close>

fun fib_loop :: "nat \<Rightarrow> int \<Rightarrow> int \<Rightarrow> int list" where
  "fib_loop 0 last2 last1 = []"
| "fib_loop (Suc k) last2 last1 =
     (let nxt = last2 + last1; last1 = nxt; last2 = last1 in nxt # fib_loop k last2 last1)"

definition fibonacci_main :: "int list" where
  "fibonacci_main = [1, 1] @ fib_loop 10 1 1"

text \<open>What the program is meant to print: the first \<open>n\<close> Fibonacci numbers.\<close>

fun fib :: "nat \<Rightarrow> int" where
  "fib 0 = 1"
| "fib (Suc 0) = 1"
| "fib (Suc (Suc n)) = fib n + fib (Suc n)"

lemma fib_loop_powers: "fib_loop k (2 ^ n) (2 ^ n) = map (\<lambda>i. 2 ^ i) [Suc n..<Suc n + k]"
proof (induction k arbitrary: n)
  case (Suc k)
  have "(2 :: int) ^ n + 2 ^ n = 2 ^ Suc n" by simp
  moreover have "[Suc n..<Suc n + Suc k] = Suc n # [Suc (Suc n)..<Suc (Suc n) + k]" by (simp add: upt_conv_Cons)
  ultimately show ?case using Suc.IH [of "Suc n"] by (simp only: fib_loop.simps Let_def list.map)
qed simp

section \<open>pointers.cpp\<close>

text \<open>The lines printed and the undefined behaviour that ends the program.\<close>

definition pointers_main :: "int list \<times> ub option" where
  "pointers_main =
     (let a = 45; b = 22; mem = [1 \<mapsto> a, 2 \<mapsto> b]; p = (1 :: addr); q = NULL; out1 = the (mem p); p = q
      in case mem p of None \<Rightarrow> ([out1], Some NullDeref) | Some v \<Rightarrow> ([out1, v, b], None))"

section \<open>cpu.c\<close>

text \<open>One round of the unending loop, with its counter, on unsigned integers of 32 bits.\<close>

function cpu_loop :: "32 word \<Rightarrow> 32 word \<Rightarrow> 32 word" where
  "cpu_loop i j = (if i \<le> 10 then cpu_loop (i + 1) (j * i) else j)"
  by pat_completeness auto
termination
proof (relation "measure (\<lambda>(i, j). 11 - unat i)")
  fix i j :: "32 word"
  assume "i \<le> 10"
  then have "unat i \<le> 10" by (simp add: word_le_nat_alt)
  moreover from this have "unat (i + 1) = Suc (unat i)" by (simp add: unat_word_ariths)
  ultimately show "((i + 1, j * i), i, j) \<in> measure (\<lambda>(i, j). 11 - unat i)" by simp
qed simp

declare cpu_loop.simps [simp del]

definition cpu_round :: "32 word" where
  "cpu_round = cpu_loop 1 1"

section \<open>memory1.c and memory2.c\<close>

text \<open>The lines both programs print before and after they use their array; \<open>pid\<close> is the answer of \<open>getpid\<close>.\<close>

definition heading :: "string \<Rightarrow> int \<Rightarrow> string list" where
  "heading name pid =
     [[], [], ''Program : '' @ CHR 0x27 # name @ [CHR 0x27], ''____________________'', [], [],
      ''PID : '' @ show_int pid @ '' '', ''Size of int : 4'']"

definition press_enter :: "string list" where
  "press_enter = [[], ''Press Enter Key to exit.'']"

text \<open>\<open>memory1.c\<close> has an array and does not use it.\<close>

definition memory1_main :: "int \<Rightarrow> string list" where
  "memory1_main pid = heading ''memory_1'' pid @ press_enter"


definition ARRAY_SIZE :: nat where "ARRAY_SIZE = 1000000"

text \<open>\<open>for (i = i; i < h; i++) array[i] = array[i - 1] + 25\<close>, with the number of rounds left.\<close>

fun sum_loop :: "nat \<Rightarrow> nat \<Rightarrow> int list \<Rightarrow> int list" where
  "sum_loop i 0 array = array"
| "sum_loop i (Suc k) array = sum_loop (Suc i) k (array[i := array ! (i - 1) + 25])"

definition fill_array :: "nat \<Rightarrow> int list \<Rightarrow> int list" where
  "fill_array n array = sum_loop 1 (n div 2 - 1) (set_run array 0 (n div 2) 10)"

definition memory2_main :: "int \<Rightarrow> int list \<Rightarrow> string list \<times> int list" where
  "memory2_main pid array = (heading ''memory_2'' pid @ press_enter, fill_array ARRAY_SIZE array)"

lemma sum_loop_nth:
  "0 < i \<Longrightarrow> i + k \<le> length array \<Longrightarrow> \<forall>j<i. array ! j = 10 + 25 * int j \<Longrightarrow>
     j < i + k \<Longrightarrow> sum_loop i k array ! j = 10 + 25 * int j"
proof (induction i k array rule: sum_loop.induct)
  case (2 i k array)
  have a: "array ! (i - 1) = 10 + 25 * int (i - 1)" "int (i - 1) = int i - 1" using "2.prems"(1,3) by auto
  have "\<forall>j<Suc i. array[i := array ! (i - 1) + 25] ! j = 10 + 25 * int j"
    using "2.prems"(2,3) a by (auto simp: nth_list_update less_Suc_eq)
  then show ?case using "2.IH" "2.prems" by simp
qed simp

section \<open>Properties\<close>

text \<open>
  \<open>fibonacci.cpp\<close> prints powers of two instead of Fibonacci numbers, because it overwrites \<open>last\<close> before it
  copies it to \<open>second_last\<close>: after the two ones every line is twice the one before, and it is right
  on exactly the first three lines.
\<close>

theorem fibonacci_prints_powers:
  "fibonacci_main = 1 # map (\<lambda>i. 2 ^ i) [0..<11] \<and>
   map (\<lambda>i. fibonacci_main ! i = fib i) [0..<12] = replicate 3 True @ replicate 9 False"
proof
  have "fib_loop 10 1 1 = map (\<lambda>i. 2 ^ i) [1..<11]" using fib_loop_powers [of 10 0] by simp
  moreover have "[0..<11] = 0 # [1..<11 :: nat]" by (simp add: upt_conv_Cons)
  ultimately show "fibonacci_main = 1 # map (\<lambda>i. 2 ^ i) [0..<11]" unfolding fibonacci_main_def by simp
  show "map (\<lambda>i. fibonacci_main ! i = fib i) [0..<12] = replicate 3 True @ replicate 9 False" by code_simp
qed

text \<open>\<open>pointers.cpp\<close> prints one number and then reads through the null pointer.\<close>

lemma pointers_main: "pointers_main = ([45], Some NullDeref)"
  by (simp add: pointers_main_def)

text \<open>A round of \<open>cpu.c\<close> computes the factorial of 10 without wrapping around.\<close>

lemma cpu_round: "cpu_round = of_nat (fact 10)" "(fact 10 :: nat) < 2 ^ 32"
  by (simp_all add: cpu_round_def cpu_loop.simps fact_numeral)

text \<open>The cells \<open>memory2.c\<close> computes: every access is inside the array and no sum overflows.\<close>

lemma memory2_cells:
  assumes "length array = ARRAY_SIZE" "j < ARRAY_SIZE div 2"
  shows "snd (memory2_main pid array) ! j = 10 + 25 * int j \<and> fits_int (10 + 25 * int j)"
proof -
  have "snd (memory2_main pid array) ! j = 10 + 25 * int j"
    unfolding memory2_main_def snd_conv fill_array_def
    by (rule sum_loop_nth) (use assms in \<open>auto simp: ARRAY_SIZE_def run_simps\<close>)
  then show ?thesis using assms(2) by (simp add: fits_int_def INT_MIN_def INT_MAX_def ARRAY_SIZE_def)
qed

end
