(* ===== verification/Experiments.thy ===== *)
theory Experiments
  imports CString
begin

text \<open>
  The programs that only load the machine or wait to be looked at: the disk readers \<open>disk.c\<close> and
  \<open>disk1.c\<close>, \<open>cpu-print.c\<close>, \<open>long_run.c\<close>, and \<open>memory_bugs.c\<close>. Unending loops are modelled for
  a given number of rounds.
\<close>

section \<open>disk.c and disk1.c\<close>

definition FNAME_SIZE :: nat where "FNAME_SIZE = 100"
definition MAX_FILE_NO :: nat where "MAX_FILE_NO = 5000"
definition BLOCK_SIZE :: nat where "BLOCK_SIZE = 1024"

definition dest_file_name :: "nat \<Rightarrow> string outcome" where
  "dest_file_name file_no =
     (let s = ''disk-files/foo'' @ show_int (int file_no) @ ''.pdf'' in
      if length s < FNAME_SIZE then Inr (fill_buffer FNAME_SIZE s) else Inl OutOfBounds)"

text \<open>The inner loop: what the calls of \<open>fread\<close> deliver, up to the first that delivers nothing.\<close>

function read_blocks :: "string \<Rightarrow> string list" where
  "read_blocks content =
     (let buf = take BLOCK_SIZE content in if buf = [] then [] else buf # read_blocks (drop BLOCK_SIZE content))"
  by pat_completeness auto
termination by (relation "measure length") (auto simp: BLOCK_SIZE_def)

declare read_blocks.simps [simp del]

text \<open>
  One round: the blocks read, or \<open>None\<close> for a file that cannot be opened; \<open>files\<close> are the files by
  their names.
\<close>

definition disk_round :: "(string \<Rightarrow> string option) \<Rightarrow> nat \<Rightarrow> string list option outcome" where
  "disk_round files file_no =
     seq (dest_file_name file_no) (\<lambda>f. Inr (map_option read_blocks (files (cstr f 0))))"

text \<open>The loop, for the file numbers of its rounds; the last component is the message of an exit with status 1.\<close>

fun disk_loop :: "(string \<Rightarrow> string option) \<Rightarrow> nat list \<Rightarrow> (string list list \<times> string option) outcome" where
  "disk_loop files [] = Inr ([], None)"
| "disk_loop files (n # ns) =
     seq (disk_round files n) (\<lambda>r.
       case r of
         None \<Rightarrow> Inr ([], Some ''Can't open dest file'')
       | Some bs \<Rightarrow> seq (disk_loop files ns) (\<lambda>(bss, e). Inr (bs # bss, e)))"

text \<open>\<open>rs\<close> are the results of \<open>rand\<close>.\<close>

definition disk_main :: "(string \<Rightarrow> string option) \<Rightarrow> nat list \<Rightarrow> (string list list \<times> string option) outcome" where
  "disk_main files rs = disk_loop files (map (\<lambda>r. r mod MAX_FILE_NO) rs)"

definition disk1_main :: "(string \<Rightarrow> string option) \<Rightarrow> nat \<Rightarrow> (string list list \<times> string option) outcome" where
  "disk1_main files rounds = disk_loop files (replicate rounds 0)"

section \<open>cpu-print.c\<close>

text \<open>The inner loop: round \<open>i\<close>, the rounds left, and what \<open>gettimeofday\<close> answers in each.\<close>

fun print_loop :: "nat \<Rightarrow> nat \<Rightarrow> (nat \<Rightarrow> int \<times> int) \<Rightarrow> string list" where
  "print_loop i 0 tv = []"
| "print_loop i (Suc k) tv =
     (show_int (fst (tv i)) @ '' sec, '' @ show_int (snd (tv i)) @ '' usec'') # print_loop (Suc i) k tv"

definition cpu_print_round :: "(nat \<Rightarrow> int \<times> int) \<Rightarrow> int \<Rightarrow> (string list \<times> int) outcome" where
  "cpu_print_round tv c =
     (if c < INT_MAX then Inr (print_loop 0 1000000 tv @ [''round '' @ show_int (c + 1) @ '' complete''], c + 1)
      else Inl IntOverflow)"

section \<open>long_run.c\<close>

fun number_loop :: "nat \<Rightarrow> nat \<Rightarrow> int list \<Rightarrow> int list" where
  "number_loop i 0 arr = arr"
| "number_loop i (Suc k) arr = number_loop (Suc i) k (arr[i := int i])"

text \<open>
  \<open>None\<close> is a null pointer of \<open>malloc\<close>, \<open>mmap\<close> delivers the page with its contents. Result: the lines, the
  array and the page before they are released, the status.
\<close>

definition long_run ::
    "int \<Rightarrow> int list option \<Rightarrow> string option \<Rightarrow> string list \<times> int list \<times> string \<times> int" where
  "long_run pid arr page =
     (let l = [''Process ID: '' @ show_int pid] in
      case arr of
        None \<Rightarrow> (l @ [''malloc failed''], [], [], 1)
      | Some xs \<Rightarrow>
          (let xs = number_loop 0 1000000 xs in
           case page of
             None \<Rightarrow> (l @ [''mmap failed''], xs, [], 1)
           | Some p \<Rightarrow>
               (l @ [''Memory allocated, mapped, and written to.'', ''Press Enter to exit...''], xs, p[0 := CHR ''A''], 0)))"

section \<open>memory_bugs.c\<close>

text \<open>
  The heap is the list of live blocks. The program shows the first ten bytes of \<open>arr\<close>, then the first byte \<open>c\<close> of
  a block it never wrote, whatever that is.
\<close>

type_synonym heap = "(addr \<times> nat) list"

definition h_malloc :: "addr \<Rightarrow> nat \<Rightarrow> heap \<Rightarrow> heap" where
  "h_malloc p n h = (if p = NULL then h else (p, n) # h)"

definition h_free :: "addr \<Rightarrow> heap \<Rightarrow> heap outcome" where
  "h_free p h =
     (if p = NULL then Inr h else if list_ex (\<lambda>b. fst b = p) h then Inr (filter (\<lambda>b. fst b \<noteq> p) h) else Inl OutOfBounds)"

definition memory_bugs_main :: "addr \<Rightarrow> addr \<Rightarrow> addr \<Rightarrow> char \<Rightarrow> (string \<times> heap) outcome" where
  "memory_bugs_main p1 p2 q c =
     seq (h_free p1 (h_malloc p1 30 [])) (\<lambda>h.
       let h = h_malloc p2 12 h; out = replicate 10 NUL in
       if p2 = NULL then Inl NullDeref
       else
         seq (h_free q (h_malloc q 50 h)) (\<lambda>h.
         seq (h_free p2 h) (\<lambda>h. Inr (out @ [c, nl], h))))"

section \<open>Properties\<close>

lemma read_blocks_concat: "concat (read_blocks content) = content"
proof (induction content rule: read_blocks.induct)
  case (1 content)
  then show ?case by (subst read_blocks.simps) (auto simp: Let_def BLOCK_SIZE_def)
qed

lemma read_blocks_sizes: "b \<in> set (read_blocks content) \<Longrightarrow> b \<noteq> [] \<and> length b \<le> BLOCK_SIZE"
proof (induction content rule: read_blocks.induct)
  case (1 content)
  from "1.prems" show ?case
    by (subst (asm) read_blocks.simps) (use "1.IH" in \<open>auto simp: Let_def split: if_splits\<close>)
qed

definition file_name :: "nat \<Rightarrow> string" where
  "file_name n = ''disk-files/foo'' @ show_int (int n) @ ''.pdf''"

lemma dest_file_name:
  assumes "n < MAX_FILE_NO"
  shows "\<exists>f. dest_file_name n = Inr f \<and> cstr f 0 = file_name n"
proof -
  have "length (show_int (int n)) \<le> 11"
    using length_show_int [of "int n"] assms by (simp add: fits_int_def INT_MIN_def INT_MAX_def MAX_FILE_NO_def)
  then have l: "length (file_name n) < FNAME_SIZE" by (simp add: file_name_def FNAME_SIZE_def)
  have "NUL \<notin> set (file_name n)" using show_int_no_NUL [of "int n"] by (simp add: file_name_def)
  then have "cstr (fill_buffer FNAME_SIZE (file_name n)) 0 = file_name n" using l by (simp add: cstr_fill_buffer)
  then show ?thesis using l by (simp add: dest_file_name_def file_name_def Let_def)
qed

lemma length_takeWhile_all: "length (takeWhile P xs) = length xs \<longleftrightarrow> (\<forall>x\<in>set xs. P x)"
  by (induction xs) auto

text \<open>The disk reader reads each file whole, in blocks of at most 1024 bytes, until a file is missing.\<close>

lemma disk_loop_reads:
  "\<forall>n\<in>set ns. n < MAX_FILE_NO \<Longrightarrow>
     disk_loop files ns = Inr (map (\<lambda>n. read_blocks (the (files (file_name n)))) (takeWhile (\<lambda>n. files (file_name n) \<noteq> None) ns),
       if \<forall>n\<in>set ns. files (file_name n) \<noteq> None then None else Some ''Can't open dest file'')"
proof (induction ns)
  case (Cons n ns)
  obtain f where f: "dest_file_name n = Inr f" "cstr f 0 = file_name n" using dest_file_name [of n] Cons.prems by auto
  show ?case using Cons f by (cases "files (file_name n)") (auto simp: disk_round_def)
qed simp

theorem disk_reads_files:
  "\<exists>bss e. disk_main files rs = Inr (bss, e) \<and>
     map concat bss = map the (takeWhile (\<lambda>f. f \<noteq> None) (map (\<lambda>r. files (file_name (r mod MAX_FILE_NO))) rs)) \<and>
     (e = None \<longleftrightarrow> length bss = length rs)"
proof -
  let ?ns = "map (\<lambda>r. r mod MAX_FILE_NO) rs"
  have "\<forall>n\<in>set ?ns. n < MAX_FILE_NO" by (simp add: MAX_FILE_NO_def)
  note run = disk_loop_reads [OF this, of files]
  let ?P = "\<lambda>n. files (file_name n) \<noteq> None"
  have c: "map concat (map (\<lambda>n. read_blocks (the (files (file_name n)))) (takeWhile ?P ?ns)) =
      map the (takeWhile (\<lambda>f. f \<noteq> None) (map (\<lambda>r. files (file_name (r mod MAX_FILE_NO))) rs))"
    by (simp add: takeWhile_map comp_def read_blocks_concat)
  have "length (takeWhile ?P ?ns) = length rs \<longleftrightarrow> (\<forall>n\<in>set ?ns. ?P n)"
    using length_takeWhile_all [of ?P ?ns] by simp
  then show ?thesis unfolding disk_main_def run using c by (intro exI conjI) (rule refl, assumption, simp)
qed

text \<open>\<open>long_run.c\<close> stays inside its array, and \<open>memory_bugs.c\<close> releases each block once.\<close>

lemma number_loop_nth:
  "i + k \<le> length arr \<Longrightarrow> j < length arr \<Longrightarrow>
     number_loop i k arr ! j = (if i \<le> j \<and> j < i + k then int j else arr ! j)"
  by (induction i k arr rule: number_loop.induct) (auto simp: nth_list_update)

lemma memory_bugs_main:
  assumes "p2 \<noteq> NULL" "q \<noteq> p2"
  shows "memory_bugs_main p1 p2 q c = Inr (replicate 10 NUL @ [c, nl], [])"
  using assms by (cases "p1 = NULL"; cases "q = NULL") (simp_all add: memory_bugs_main_def h_malloc_def h_free_def)

end
