(* ===== verification/Spec2Isabelle.thy ===== *)
theory Spec2Isabelle
  imports Alloc Ealloc KvUsers ShellLines ShellCleanup MwCheck MwLiveness Skeleton WarmupMains ArgPassing ZemMains Barber RwLockTests RwTestMains
    ShmChannel ShmBytes IpcOriginals TestAlloc TestEalloc EchoPair EpollServer DebugExercises Experiments
begin

text \<open>
  A verification development for the solutions of the operating-systems labs in this repository
  (C and C++ programs under \<open>malloc-code\<close>, \<open>kv-server\<close>, \<open>shell-code\<close>, \<open>pthreads-sync-code\<close>, \<open>ipc-code\<close>,
  \<open>intro-code\<close> and \<open>intro-debug-code\<close>). The programs are independent of each other except where two of
  them talk (the key-value client and server, the simple client and server, the producer and consumer, the
  datagram programs) and where tests run a library (the allocators, the locks, the semaphore, the
  checker of the master-worker output). Every theory models one component in the order its code has it;
  this root theory only imports them.

  \<^bold>\<open>Shared vocabulary.\<close> \<open>Lab_Prelude\<close>: C addresses, undefined behaviour as a value (\<open>ub\<close>, \<open>outcome\<close>,
  \<open>seq\<close>), updates of array runs, runs of step functions (\<open>exec\<close>, \<open>run_ops\<close>) and the locales
  \<open>step_invariant\<close>, \<open>bounded_runs\<close> (runs that use up a measure), \<open>invariant_system\<close> and \<open>refinement\<close>. \<open>CString\<close>: the functions of the C string
  library the programs use (buffers, \<open>strncmp\<close>, the conversions of \<open>sscanf\<close>, decimal numerals).
  \<open>Chunks\<close> and \<open>Allocator\<close>: arrays of chunks, and what a client of any heap may rely on, as the
  locale \<open>allocator\<close>. \<open>Pthreads\<close>: threads with one mutex and condition variables, with the locales
  \<open>calm_monitor\<close>, \<open>monitor\<close>, \<open>labelled_monitor\<close> and, for programs that end, \<open>spending_monitor\<close> and \<open>weighted_code\<close>.

  \<^bold>\<open>Allocators.\<close> \<open>Alloc\<close> models \<open>malloc-code/alloc.h\<close> (\<open>init_alloc\<close>, \<open>alloc\<close>, \<open>dealloc\<close>, \<open>cleanup\<close>) with its three
  globals as the record \<open>alloc_state\<close>; \<open>Ealloc\<close> models \<open>malloc-code/ealloc.h\<close> with its four as
  \<open>ealloc_state\<close>. The answers of \<open>mmap\<close> and \<open>malloc\<close> are arguments. The lemmas show first fit,
  when \<open>NULL\<close> is returned, what a \<open>dealloc\<close> frees, that blocks never overlap, and that they stay
  until they are freed; both interpret \<open>allocator\<close>, which carries these over to all call sequences.
  \<open>ClientMemory\<close> is the memory of their clients, byte by byte, with the loops that fill and compare blocks;
  \<open>TestAlloc\<close> and \<open>TestEalloc\<close> run \<open>test_alloc.c\<close> and \<open>test_ealloc.c\<close> on it and show what they print.

  \<^bold>\<open>Key-value store.\<close> \<open>KvStore\<close> models the table of \<open>kv-server/kv-server.c\<close> (\<open>store\<close>, \<open>kv_count\<close> as
  \<open>kv_state\<close>; \<open>handle_create\<close>, \<open>read_value\<close>, \<open>update_value\<close>, \<open>delete_value\<close>) and shows that it refines
  a finite map of at most 100 keys; every access to the arrays, to a key or to a value is checked, and an access outside is
  undefined behaviour. \<open>KvServer\<close> models \<open>main\<close> from the accepted connection on, one
  \<open>read\<close> per request. \<open>KvClient\<close> models \<open>kv-server/kv-client.c\<close>, its only state being \<open>sockfd\<close>, with the
  answers of the network as arguments and its output and socket calls as events. \<open>KvSystem\<close> joins
  the two and shows that a typed session behaves as the map. \<open>KvMain\<close> is the server's \<open>main\<close> as a whole, with the lines it prints, and
  shows whom it serves; \<open>KvUsers\<close> runs it and the clients of several users separately and shows that they fit together as
  one map that lasts from user to user.

  \<^bold>\<open>Other servers.\<close> \<open>EchoPair\<close> models \<open>simple-server.c\<close> and \<open>simple-client.c\<close> with the two byte streams between
  them: what arrives, and that every run ends with both waiting. \<open>EpollServer\<close> models \<open>epoll-server.c\<close> with its
  backlog, its connections and edge-triggered events, the bytes on the way in any pieces, resets of
  connections and a limit of descriptors: which clients are served, which are forgotten, and what can end the server.

  \<^bold>\<open>Shell.\<close> \<open>ShellTokens\<close> models reading and tokenizing in \<open>shell-code/my_shell.c\<close>, \<open>Shell\<close> the process
  control, with the globals and the locals of \<open>main\<close> as the record \<open>shell\<close> and the system calls as
  a trace of events; what \<open>fork\<close> answers and when SIGINT arrives is an argument (\<open>env\<close>), at every
  loop test, between that test and \<open>fork\<close>, between \<open>fork\<close> and the recording of the pid, and during every wait. \<open>ShellProps\<close> shows
  the order of serial commands, the behaviour of parallel ones and that no child is lost;
  \<open>ShellLines\<close> shows which lines crash the shell and that the table of parallel pids fills up;
  \<open>ShellCleanup\<close> models what a round releases and leaks, and the child processes up to \<open>execvp\<close> or \<open>exit\<close> with the
  descriptors of a pipe.

  \<^bold>\<open>Threads.\<close> \<open>MasterWorker\<close> models \<open>master-worker/master-worker.c\<close>, \<open>MwLiveness\<close> shows that it never
  loses a wakeup that the items need and that its runs are finite, \<open>MwCheck\<close> models the checker \<open>check.awk\<close> on its
  output, \<open>Skeleton\<close> the unsynchronised \<open>master-worker-skeleton.c\<close>; \<open>Warmup\<close> the threads of \<open>ex1\<close>, \<open>ex3\<close> and \<open>ex4\<close> of
  \<open>warmup_ex\<close>, \<open>WarmupMains\<close> their \<open>main\<close> functions and output, with a deadlock of the threads as an outcome of its own, \<open>ArgPassing\<close> its
  \<open>ex2\<close>, in which a cell remembers the thread it was allocated for;
  \<open>Zemaphore\<close> the semaphore of \<open>zemaphore/zemaphore.c\<close>, \<open>ZemTests\<close> and
  \<open>TestZem\<close> the threads of its two test programs, which \<open>ZemMains\<close> puts together to whole programs with their output;
  \<open>Barber\<close> the whole program \<open>own-sync-problem/barber-cv.c\<close>, with its lines and its end; \<open>RwLock\<close> the two reader-writer
  locks of \<open>rwlock\<close>, with the starvation that reader preference allows, and \<open>RwLockTests\<close> the threads and checks of their two tests, which
  \<open>RwTestMains\<close> puts together to whole programs and shows to end. Where a program uses a mutex, a thread function
  becomes its segments between taking and releasing it; elsewhere every access to a shared variable is a step. A
  schedule is an arbitrary list of actions, with spurious wakeups unless a statement says otherwise. The
  invariants hold for any number of threads and any schedule.

  \<^bold>\<open>Processes.\<close> \<open>ShmChannel\<close> models \<open>shm-posix-producer.c\<close> and \<open>shm-posix-consumer.c\<close> over the bytes of their
  segment and the numbers in their FIFO, one access to a slot per step, \<open>ShmBytes\<close> with one byte per step, and
  shows that its runs are runs of the former; \<open>IpcOriginals\<close> how these two begin, and the other programs of
  \<open>ipc-code\<close>: a message in shared memory, one through a pipe, one in a datagram.

  \<^bold>\<open>Exercises.\<close> \<open>DebugExercises\<close> models \<open>fibonacci.cpp\<close>, \<open>pointers.cpp\<close>, \<open>cpu.c\<close>, \<open>memory1.c\<close> and \<open>memory2.c\<close>; \<open>Experiments\<close> models
  \<open>disk.c\<close>, \<open>disk1.c\<close>, \<open>cpu-print.c\<close>, \<open>long_run.c\<close> and \<open>memory_bugs.c\<close>.

  \<^bold>\<open>Bounds and fuel.\<close> Array sizes are those of the code. Loops are recursive functions that end by
  their index or by the number of rounds left; the only fuel is in \<open>find_pipe\<close>, one more than the length of the
  array it searches. Unending loops are runs over a list of inputs or actions of any length; the programs that
  end under every schedule have a measure that bounds the number of steps.

  \<^bold>\<open>Not modelled.\<close> The addresses that are filled in for sockets, what the programs that the shell executes do, releasing
  memory at the very end of a program, and the scripts. The numbers of threads that programs take from their
  arguments are natural numbers here. Where a program only waits or sleeps, the model has no step.
\<close>

end
